(* ===== verification/Prelude.thy ===== *)
theory Prelude
  imports Main "HOL-Library.Word"
begin

text \<open>
  The vocabulary every component of the development shares.

  \<^item> \<open>byte\<close>, \<open>mem\<close>: a C pointer into a buffer is the list of bytes from the pointer to the end
    of its buffer, so \<open>p + n\<close> is \<open>drop n p\<close> and a read past the end of the buffer is the value
    \<open>BadRead\<close>.
  \<^item> \<open>bson_error\<close>, \<open>res\<close>, \<open>rbind\<close>: the exceptions of the program as values.  \<open>massert\<close>,
    \<open>msgasserted\<close> and \<open>uassert\<close> keep their message numbers; a failed \<open>verify\<close> is
    \<open>VerifyFailed\<close>; a conversion of a double to an integer type that cannot hold it, which C++
    leaves undefined, is \<open>BadCast\<close>; a loop that the source never leaves is \<open>NoReturn\<close>.
  \<^item> little-endian integers: \<open>le_bytes\<close> and \<open>le_nat\<close>, with the locale \<open>int_codec\<close> stating what
    reading back a stored integer gives, interpreted for the 32 and the 64 bit integers.
  \<^item> collections of rewrite rules: \<open>res_simps\<close> for the exception monad, \<open>read_simps\<close> for reads
    from memory of a known shape.
\<close>

section \<open>Results\<close>

type_synonym byte = "8 word"

type_synonym mem = "byte list"

datatype bson_error =
    MsgAssert nat
  | UserAssert nat
  | VerifyFailed
  | BadRead
  | BadCast
  | NoReturn
  | BadStatus string

type_synonym 'a res = "bson_error + 'a"

definition rbind :: "'a res \<Rightarrow> ('a \<Rightarrow> 'b res) \<Rightarrow> 'b res" where
  "rbind m f = (case m of Inl e \<Rightarrow> Inl e | Inr x \<Rightarrow> f x)"

definition rmap :: "('a \<Rightarrow> 'b) \<Rightarrow> 'a res \<Rightarrow> 'b res" where
  "rmap f m = (case m of Inl e \<Rightarrow> Inl e | Inr x \<Rightarrow> Inr (f x))"

definition verify :: "bool \<Rightarrow> 'a res \<Rightarrow> 'a res" where
  "verify c k = (if c then k else Inl VerifyFailed)"

definition massert :: "nat \<Rightarrow> bool \<Rightarrow> 'a res \<Rightarrow> 'a res" where
  "massert n c k = (if c then k else Inl (MsgAssert n))"

definition uassert :: "nat \<Rightarrow> bool \<Rightarrow> 'a res \<Rightarrow> 'a res" where
  "uassert n c k = (if c then k else Inl (UserAssert n))"

named_theorems res_simps
named_theorems read_simps

lemma rbind_simps [simp, res_simps]:
  "rbind (Inr x) f = f x"
  "rbind (Inl e) f = Inl e"
  by (simp_all add: rbind_def)

lemma rmap_simps [simp, res_simps]:
  "rmap f (Inr x) = Inr (f x)"
  "rmap f (Inl e) = Inl e"
  by (simp_all add: rmap_def)

lemma verify_simps [simp, res_simps]:
  "verify True k = k"
  "verify False k = Inl VerifyFailed"
  by (simp_all add: verify_def)

lemma massert_simps [simp, res_simps]:
  "massert n True k = k"
  "massert n False k = Inl (MsgAssert n)"
  by (simp_all add: massert_def)

lemma uassert_simps [simp, res_simps]:
  "uassert n True k = k"
  "uassert n False k = Inl (UserAssert n)"
  by (simp_all add: uassert_def)

lemma rbind_Inr_iff: "rbind m f = Inr y \<longleftrightarrow> (\<exists>x. m = Inr x \<and> f x = Inr y)"
  by (cases m) auto

lemma rbind_InrE:
  assumes "rbind m f = Inr y"
  obtains x where "m = Inr x" "f x = Inr y"
  using assms by (auto simp: rbind_Inr_iff)

lemma rmap_Inr_iff: "rmap f m = Inr y \<longleftrightarrow> (\<exists>x. m = Inr x \<and> f x = y)"
  by (cases m) auto

lemma verify_Inr_iff: "verify c k = Inr y \<longleftrightarrow> c \<and> k = Inr y"
  by (cases c) auto

lemma massert_Inr_iff: "massert n c k = Inr y \<longleftrightarrow> c \<and> k = Inr y"
  by (cases c) auto

lemma uassert_Inr_iff: "uassert n c k = Inr y \<longleftrightarrow> c \<and> k = Inr y"
  by (cases c) auto

lemmas Inr_iffs = rbind_Inr_iff rmap_Inr_iff verify_Inr_iff massert_Inr_iff uassert_Inr_iff

lemma rbind_cong [fundef_cong]:
  assumes "m = m'" and "\<And>x. m' = Inr x \<Longrightarrow> f x = f' x"
  shows "rbind m f = rbind m' f'"
  using assms by (cases m') auto

lemma verify_cong [fundef_cong]:
  "c = c' \<Longrightarrow> (c' \<Longrightarrow> k = k') \<Longrightarrow> verify c k = verify c' k'"
  by (cases c') auto

lemma massert_cong [fundef_cong]:
  "n = n' \<Longrightarrow> c = c' \<Longrightarrow> (c' \<Longrightarrow> k = k') \<Longrightarrow> massert n c k = massert n' c' k'"
  by (cases c') auto

lemma rbind_assoc: "rbind (rbind m f) g = rbind m (\<lambda>x. rbind (f x) g)"
  by (cases m) auto

section \<open>Byte strings\<close>

text \<open>A string literal of the source as the bytes of its characters.\<close>

definition bs :: "string \<Rightarrow> byte list" where
  "bs s = map of_char s"

lemma bs_simps [simp]:
  "bs [] = []"
  "bs (c # s) = of_char c # bs s"
  by (simp_all add: bs_def)

lemma length_bs [simp]: "length (bs s) = length s"
  by (simp add: bs_def)

section \<open>Little-endian integers\<close>

fun le_bytes :: "nat \<Rightarrow> nat \<Rightarrow> byte list" where
  "le_bytes 0 n = []"
| "le_bytes (Suc k) n = of_nat (n mod 256) # le_bytes k (n div 256)"

fun le_nat :: "byte list \<Rightarrow> nat" where
  "le_nat [] = 0"
| "le_nat (b # m) = unat b + 256 * le_nat m"

lemma length_le_bytes [simp]: "length (le_bytes k n) = k"
  by (induction k arbitrary: n) auto

lemma unat_byte_of_nat [simp]: "unat (of_nat n :: byte) = n mod 256"
  by (simp add: unat_of_nat)

lemma unat_byte_less [simp]: "unat (b :: byte) < 256"
  using unsigned_less [of b] by simp

lemma le_nat_le_bytes: "le_nat (le_bytes k n) = n mod 256 ^ k"
proof (induction k arbitrary: n)
  case 0
  then show ?case by simp
next
  case (Suc k)
  have "n mod (256 * 256 ^ k) = 256 * (n div 256 mod 256 ^ k) + n mod 256"
    by (rule mod_mult2_eq)
  with Suc show ?case by simp
qed

lemma le_nat_less: "le_nat m < 256 ^ length m"
proof (induction m)
  case Nil
  then show ?case by simp
next
  case (Cons b m)
  then have "le_nat m + 1 \<le> 256 ^ length m" by simp
  then have "256 * (le_nat m + 1) \<le> 256 * 256 ^ length m"
    by (rule mult_le_mono2)
  moreover have "unat b < 256" by (rule unat_byte_less)
  ultimately show ?case by (simp del: unat_byte_less)
qed

lemma le_bytes_le_nat: "le_bytes (length m) (le_nat m) = m"
proof (induction m)
  case Nil
  then show ?case by simp
next
  case (Cons b m)
  have "(unat b + 256 * le_nat m) mod 256 = unat b"
    using mod_less [OF unat_byte_less] by simp
  moreover have "(unat b + 256 * le_nat m) div 256 = le_nat m"
    using div_less [OF unat_byte_less] by simp
  ultimately show ?case using Cons by simp
qed

text \<open>
  The interface of a fixed-width integer format: what a reader of stored integers may rely on.
\<close>

locale int_codec =
  fixes width :: nat
    and put :: "'w \<Rightarrow> byte list"
    and get :: "mem \<Rightarrow> 'w res"
  assumes length_put [simp]: "length (put w) = width"
    and get_put: "get (put w @ rest) = Inr w"
    and get_short: "length m < width \<Longrightarrow> get m = Inl BadRead"
    and get_total: "width \<le> length m \<Longrightarrow> \<exists>w. get m = Inr w \<and> take width m = put w"
begin

lemma get_Inr_iff: "get m = Inr w \<longleftrightarrow> (\<exists>rest. m = put w @ rest)"
proof
  assume a: "get m = Inr w"
  then have "width \<le> length m"
    using get_short [of m] by (cases "length m < width") auto
  from get_total [OF this] a have "take width m = put w" by auto
  then have "m = put w @ drop width m" by (metis append_take_drop_id)
  then show "\<exists>rest. m = put w @ rest" by blast
next
  assume "\<exists>rest. m = put w @ rest"
  then obtain rest where "m = put w @ rest" by blast
  then show "get m = Inr w" by (simp only: get_put)
qed

lemma get_put_exact: "get (put w) = Inr w"
  using get_put [of w "[]"] by simp

lemma put_inj: "put v = put w \<longleftrightarrow> v = w"
  using get_put_exact [of v] get_put_exact [of w] by (metis sum.inject(2))

end

definition put32 :: "32 word \<Rightarrow> byte list" where
  "put32 w = le_bytes 4 (unat w)"

definition get32 :: "mem \<Rightarrow> (32 word) res" where
  "get32 m = (if length m < 4 then Inl BadRead else Inr (of_nat (le_nat (take 4 m))))"

definition put64 :: "64 word \<Rightarrow> byte list" where
  "put64 w = le_bytes 8 (unat w)"

definition get64 :: "mem \<Rightarrow> (64 word) res" where
  "get64 m = (if length m < 8 then Inl BadRead else Inr (of_nat (le_nat (take 8 m))))"

interpretation i32: int_codec 4 put32 get32
proof unfold_locales
  fix w :: "32 word" and m rest :: mem
  show "length (put32 w) = 4" by (simp add: put32_def)
  have "unat w mod 256 ^ 4 = unat w"
    using unsigned_less [of w, where ?'a = nat] by simp
  then show "get32 (put32 w @ rest) = Inr w"
    by (simp add: get32_def put32_def le_nat_le_bytes)
  show "length m < 4 \<Longrightarrow> get32 m = Inl BadRead"
    by (simp add: get32_def)
  show "\<exists>w. get32 m = Inr w \<and> take 4 m = put32 w" if "4 \<le> length m"
  proof -
    from that have l: "length (take 4 m) = 4" by simp
    have "le_nat (take 4 m) < 2 ^ 32"
      using le_nat_less [of "take 4 m"] l by simp
    then have "put32 (of_nat (le_nat (take 4 m))) = take 4 m"
      using le_bytes_le_nat [of "take 4 m"] l
      by (simp add: put32_def unat_of_nat)
    with that show ?thesis by (simp add: get32_def)
  qed
qed

interpretation i64: int_codec 8 put64 get64
proof unfold_locales
  fix w :: "64 word" and m rest :: mem
  show "length (put64 w) = 8" by (simp add: put64_def)
  have "unat w mod 256 ^ 8 = unat w"
    using unsigned_less [of w, where ?'a = nat] by simp
  then show "get64 (put64 w @ rest) = Inr w"
    by (simp add: get64_def put64_def le_nat_le_bytes)
  show "length m < 8 \<Longrightarrow> get64 m = Inl BadRead"
    by (simp add: get64_def)
  show "\<exists>w. get64 m = Inr w \<and> take 8 m = put64 w" if "8 \<le> length m"
  proof -
    from that have l: "length (take 8 m) = 8" by simp
    have "le_nat (take 8 m) < 2 ^ 64"
      using le_nat_less [of "take 8 m"] l by simp
    then have "put64 (of_nat (le_nat (take 8 m))) = take 8 m"
      using le_bytes_le_nat [of "take 8 m"] l
      by (simp add: put64_def unat_of_nat)
    with that show ?thesis by (simp add: get64_def)
  qed
qed

lemmas [simp] = i32.length_put i64.length_put
lemmas [read_simps] = i32.get_put i64.get_put i32.get_put_exact i64.get_put_exact

section \<open>C integers\<close>

text \<open>A C \<open>int\<close> made from a length: the conversion \<open>(int) n\<close> of the source.\<close>

definition int32 :: "nat \<Rightarrow> 32 word" where
  "int32 n = of_nat n"

lemma sint_int32: "n < 2 ^ 31 \<Longrightarrow> sint (int32 n) = int n"
  by (simp add: int32_def signed_of_nat signed_take_bit_int_eq_self)

lemma int32_add: "int32 (a + b) = int32 a + int32 b"
  by (simp add: int32_def)

end
