(* ===== verification/Orders.thy ===== *)
theory Orders
  imports Prelude
begin

text \<open>
  Three-way comparisons.  The program compares by functions that return a negative number, zero or
  a positive number; only the sign matters to their callers.  The locale \<open>weak_cmp\<close> states what a
  caller that sorts or indexes relies on, \<open>total_cmp\<close> adds that only equal values compare as equal.
  The theory provides the interpretations used by the BSON comparison: signed and unsigned
  integers, and byte strings.  A lexicographic list comparison lifts a comparison of elements.
\<close>

locale weak_cmp =
  fixes cmp :: "'a \<Rightarrow> 'a \<Rightarrow> int"
  assumes cmp_swap: "sgn (cmp y x) = - sgn (cmp x y)"
    and cmp_le_trans: "cmp x y \<le> 0 \<Longrightarrow> cmp y z \<le> 0 \<Longrightarrow> cmp x z \<le> 0"
begin

lemma cmp_refl: "cmp x x = 0"
  using cmp_swap [of x x] by (simp add: sgn_if split: if_splits)

lemma cmp_zero_swap: "cmp x y = 0 \<longleftrightarrow> cmp y x = 0"
  using cmp_swap [of x y] by (simp add: sgn_if split: if_splits)

lemma cmp_neg_swap: "cmp x y < 0 \<longleftrightarrow> 0 < cmp y x"
  using cmp_swap [of x y] by (simp add: sgn_if split: if_splits)

lemma cmp_le_swap: "cmp x y \<le> 0 \<longleftrightarrow> 0 \<le> cmp y x"
  using cmp_neg_swap [of y x] by linarith

lemma cmp_eq_trans: "cmp x y = 0 \<Longrightarrow> cmp y z = 0 \<Longrightarrow> cmp x z = 0"
  using cmp_le_trans [of x y z] cmp_le_trans [of z y x] cmp_zero_swap [of x y]
    cmp_zero_swap [of y z] cmp_le_swap [of z x] by fastforce

lemma cmp_less_le_trans: "cmp x y < 0 \<Longrightarrow> cmp y z \<le> 0 \<Longrightarrow> cmp x z < 0"
  using cmp_le_trans [of y z x] cmp_le_swap [of z x] cmp_le_swap [of y x]
  by (meson linorder_not_le)

lemma cmp_le_less_trans: "cmp x y \<le> 0 \<Longrightarrow> cmp y z < 0 \<Longrightarrow> cmp x z < 0"
  using cmp_le_trans [of z x y] cmp_le_swap [of z x] cmp_le_swap [of z y]
  by (meson linorder_not_le)

end

locale total_cmp = weak_cmp +
  assumes cmp_zero: "cmp x y = 0 \<Longrightarrow> x = y"
begin

lemma cmp_zero_iff: "cmp x y = 0 \<longleftrightarrow> x = y"
  using cmp_zero cmp_refl by blast

end

section \<open>Comparing by a key\<close>

text \<open>The pattern \<open>if (a < b) return -1; return a == b ? 0 : 1;\<close> of the source.\<close>

definition cmp_key :: "('a \<Rightarrow> 'k::linorder) \<Rightarrow> 'a \<Rightarrow> 'a \<Rightarrow> int" where
  "cmp_key k x y = (if k x < k y then -1 else if k x = k y then 0 else 1)"

interpretation by_key: weak_cmp "cmp_key k" for k :: "'a \<Rightarrow> 'k::linorder"
  by unfold_locales (auto simp: cmp_key_def split: if_splits)

section \<open>Lexicographic comparison\<close>

text \<open>
  The first differing position decides; a proper prefix is the smaller one.  This is what
  \<open>strcmp\<close> computes on terminated strings, and, lifted to elements, the order of documents.
\<close>

fun lex_cmp :: "('a \<Rightarrow> 'a \<Rightarrow> int) \<Rightarrow> 'a list \<Rightarrow> 'a list \<Rightarrow> int" where
  "lex_cmp c [] [] = 0"
| "lex_cmp c [] (y # ys) = -1"
| "lex_cmp c (x # xs) [] = 1"
| "lex_cmp c (x # xs) (y # ys) = (if c x y \<noteq> 0 then c x y else lex_cmp c xs ys)"

context weak_cmp
begin

lemma lex_swap: "sgn (lex_cmp cmp ys xs) = - sgn (lex_cmp cmp xs ys)"
proof (induction xs ys rule: list_induct2')
  case (4 x xs y ys)
  then show ?case using cmp_swap [of x y] cmp_zero_swap [of x y] by auto
qed auto

lemma lex_le_trans:
  "lex_cmp cmp xs ys \<le> 0 \<Longrightarrow> lex_cmp cmp ys zs \<le> 0 \<Longrightarrow> lex_cmp cmp xs zs \<le> 0"
proof (induction xs arbitrary: ys zs)
  case Nil
  then show ?case by (cases zs) auto
next
  case (Cons x xs)
  from Cons.prems(1) obtain y ys' where ys: "ys = y # ys'" by (cases ys) auto
  with Cons.prems(2) obtain z zs' where zs: "zs = z # zs'" by (cases zs) auto
  from Cons.prems(1) ys have xy: "cmp x y < 0 \<or> cmp x y = 0 \<and> lex_cmp cmp xs ys' \<le> 0"
    by (auto split: if_splits)
  from Cons.prems(2) ys zs have yz: "cmp y z < 0 \<or> cmp y z = 0 \<and> lex_cmp cmp ys' zs' \<le> 0"
    by (auto split: if_splits)
  from xy yz have "cmp x z < 0 \<or> cmp x z = 0 \<and> lex_cmp cmp xs zs' \<le> 0"
    using cmp_less_le_trans [of x y z] cmp_le_less_trans [of x y z] cmp_eq_trans [of x y z]
      Cons.IH [of ys' zs'] by auto
  then show ?case by (auto simp: zs)
qed

end

context total_cmp
begin

lemma lex_zero: "lex_cmp cmp xs ys = 0 \<Longrightarrow> xs = ys"
  by (induction xs ys rule: list_induct2') (auto simp: cmp_zero split: if_splits)

end

section \<open>Combining comparisons\<close>

definition then_cmp :: "('a \<Rightarrow> 'a \<Rightarrow> int) \<Rightarrow> ('a \<Rightarrow> 'a \<Rightarrow> int) \<Rightarrow> 'a \<Rightarrow> 'a \<Rightarrow> int" where
  "then_cmp c1 c2 x y = (if c1 x y \<noteq> 0 then c1 x y else c2 x y)"

lemma weak_cmp_lex: "weak_cmp c \<Longrightarrow> weak_cmp (lex_cmp c)"
  using weak_cmp.lex_swap [of c] weak_cmp.lex_le_trans [of c] by (intro weak_cmp.intro) blast+

lemma weak_cmp_pull: "weak_cmp c \<Longrightarrow> weak_cmp (\<lambda>x y. c (f x) (f y))"
  unfolding weak_cmp_def by blast

lemma weak_cmp_then:
  assumes "weak_cmp c1" "weak_cmp c2"
  shows "weak_cmp (then_cmp c1 c2)"
proof
  fix x y z
  show "sgn (then_cmp c1 c2 y x) = - sgn (then_cmp c1 c2 x y)"
    using weak_cmp.cmp_swap [OF assms(1), of x y] weak_cmp.cmp_swap [OF assms(2), of x y]
      weak_cmp.cmp_zero_swap [OF assms(1), of x y]
    by (simp add: then_cmp_def)
  assume "then_cmp c1 c2 x y \<le> 0" "then_cmp c1 c2 y z \<le> 0"
  then have "c1 x y < 0 \<or> c1 x y = 0 \<and> c2 x y \<le> 0" "c1 y z < 0 \<or> c1 y z = 0 \<and> c2 y z \<le> 0"
    by (auto simp: then_cmp_def split: if_splits)
  then have "c1 x z < 0 \<or> c1 x z = 0 \<and> c2 x z \<le> 0"
    using weak_cmp.cmp_less_le_trans [OF assms(1), of x y z]
      weak_cmp.cmp_le_less_trans [OF assms(1), of x y z]
      weak_cmp.cmp_eq_trans [OF assms(1), of x y z] weak_cmp.cmp_le_trans [OF assms(2), of x y z]
    by auto
  then show "then_cmp c1 c2 x z \<le> 0"
    by (auto simp: then_cmp_def)
qed

section \<open>Byte strings\<close>

definition byte_cmp :: "byte \<Rightarrow> byte \<Rightarrow> int" where
  "byte_cmp a b = cmp_key unat a b"

interpretation byte_order: total_cmp byte_cmp
proof unfold_locales
  fix x y z :: byte
  show "sgn (byte_cmp y x) = - sgn (byte_cmp x y)"
    by (auto simp: byte_cmp_def cmp_key_def)
  show "byte_cmp x y \<le> 0 \<Longrightarrow> byte_cmp y z \<le> 0 \<Longrightarrow> byte_cmp x z \<le> 0"
    by (auto simp: byte_cmp_def cmp_key_def split: if_splits)
  show "byte_cmp x y = 0 \<Longrightarrow> x = y"
    by (auto simp: byte_cmp_def cmp_key_def word_unat_eq_iff split: if_splits)
qed

definition bytes_cmp :: "byte list \<Rightarrow> byte list \<Rightarrow> int" where
  "bytes_cmp = lex_cmp byte_cmp"

interpretation bytes_order: total_cmp bytes_cmp
proof unfold_locales
  fix x y z :: "byte list"
  show "sgn (bytes_cmp y x) = - sgn (bytes_cmp x y)"
    unfolding bytes_cmp_def by (rule byte_order.lex_swap)
  show "bytes_cmp x y \<le> 0 \<Longrightarrow> bytes_cmp y z \<le> 0 \<Longrightarrow> bytes_cmp x z \<le> 0"
    unfolding bytes_cmp_def by (rule byte_order.lex_le_trans)
  show "bytes_cmp x y = 0 \<Longrightarrow> x = y"
    unfolding bytes_cmp_def by (rule byte_order.lex_zero)
qed

lemma byte_cmp_0 [simp]: "byte_cmp a b = 0 \<longleftrightarrow> a = b"
  by (rule byte_order.cmp_zero_iff)

lemma bytes_cmp_simps [simp]:
  "bytes_cmp [] [] = 0"
  "bytes_cmp [] (y # ys) = -1"
  "bytes_cmp (x # xs) [] = 1"
  "bytes_cmp (x # xs) (y # ys) = (if x = y then bytes_cmp xs ys else byte_cmp x y)"
  by (auto simp: bytes_cmp_def)

lemma bytes_cmp_eq_0 [simp]: "bytes_cmp x y = 0 \<longleftrightarrow> x = y"
  by (rule bytes_order.cmp_zero_iff)


lemma bytes_cmp_refl [simp]: "bytes_cmp x x = 0"
  by simp

end
