(* ===== verification/CString.thy ===== *)
theory CString
  imports Orders
begin

text \<open>
  The C library functions the program calls on raw memory, on the pointer model of \<open>Prelude\<close>:
  \<open>strlen\<close>, \<open>strcmp\<close>, \<open>memcmp\<close>, \<open>strchr\<close>, \<open>memchr\<close>, and mongo's own \<open>strnlen\<close>
  (\<open>bson/util/misc.h\<close>).  C fixes only the sign of what \<open>strcmp\<close> and \<open>memcmp\<close> return; the model
  returns -1, 0 or 1.  Comparison is of unsigned bytes, as C prescribes.  Each function is related
  to the list operation it computes on a terminated string.
\<close>

section \<open>Definitions\<close>

fun strlen :: "mem \<Rightarrow> nat res" where
  "strlen [] = Inl BadRead"
| "strlen (b # m) = (if b = 0 then Inr 0 else rmap Suc (strlen m))"

text \<open>\<open>strnlen\<close> of \<open>misc.h\<close>: scans at most \<open>n\<close> bytes; \<open>None\<close> is the result -1.\<close>

fun strnlen :: "mem \<Rightarrow> nat \<Rightarrow> nat option res" where
  "strnlen m 0 = Inr None"
| "strnlen [] (Suc n) = Inl BadRead"
| "strnlen (b # m) (Suc n) =
     (if b = 0 then Inr (Some 0) else rmap (map_option Suc) (strnlen m n))"

fun strcmp :: "mem \<Rightarrow> mem \<Rightarrow> int res" where
  "strcmp (a # l) (b # r) =
     (if a \<noteq> b then Inr (byte_cmp a b) else if a = 0 then Inr 0 else strcmp l r)"
| "strcmp _ _ = Inl BadRead"

definition memcmp :: "mem \<Rightarrow> mem \<Rightarrow> nat \<Rightarrow> int res" where
  "memcmp l r n =
     (if length l < n \<or> length r < n then Inl BadRead
      else Inr (bytes_cmp (take n l) (take n r)))"

text \<open>The bytes of a terminated string, as \<open>std::string(const char*)\<close> copies them.\<close>

fun cstr :: "mem \<Rightarrow> byte list res" where
  "cstr [] = Inl BadRead"
| "cstr (b # m) = (if b = 0 then Inr [] else rmap ((#) b) (cstr m))"

text \<open>Splitting at the first occurrence of a byte: \<open>strchr\<close> on a string given by its bytes.\<close>

fun split_at :: "byte \<Rightarrow> byte list \<Rightarrow> (byte list \<times> byte list) option" where
  "split_at c [] = None"
| "split_at c (b # s) =
     (if b = c then Some ([], s)
      else case split_at c s of None \<Rightarrow> None | Some (l, r) \<Rightarrow> Some (b # l, r))"

text \<open>\<open>p + n\<close>, for a pointer that must stay within its buffer (or one past its end).\<close>

definition ptr_add :: "mem \<Rightarrow> nat \<Rightarrow> mem res" where
  "ptr_add m n = (if n \<le> length m then Inr (drop n m) else Inl BadRead)"

text \<open>\<open>memcpy\<close> from a pointer.\<close>

definition read_bytes :: "mem \<Rightarrow> nat \<Rightarrow> byte list res" where
  "read_bytes m n = (if n \<le> length m then Inr (take n m) else Inl BadRead)"

definition nul_free :: "byte list \<Rightarrow> bool" where
  "nul_free s = (0 \<notin> set s)"

section \<open>Behaviour on terminated strings\<close>

lemma nul_free_simps [simp]:
  "nul_free []"
  "nul_free (b # s) \<longleftrightarrow> b \<noteq> 0 \<and> nul_free s"
  "nul_free (s @ t) \<longleftrightarrow> nul_free s \<and> nul_free t"
  by (auto simp: nul_free_def)

lemma strlen_nul [read_simps]: "nul_free s \<Longrightarrow> strlen (s @ 0 # m) = Inr (length s)"
  by (induction s) auto

lemma strnlen_nul [read_simps]:
  "nul_free s \<Longrightarrow> length s < n \<Longrightarrow> strnlen (s @ 0 # m) n = Inr (Some (length s))"
proof (induction s arbitrary: n)
  case Nil
  then show ?case by (cases n) auto
next
  case (Cons b s)
  then show ?case by (cases n) auto
qed

lemma cstr_nul [read_simps]: "nul_free s \<Longrightarrow> cstr (s @ 0 # m) = Inr s"
  by (induction s) auto

lemma cstr_Inr_iff: "cstr m = Inr s \<longleftrightarrow> nul_free s \<and> (\<exists>r. m = s @ 0 # r)"
proof (induction m arbitrary: s)
  case Nil
  then show ?case by simp
next
  case (Cons b m)
  show ?case
  proof (cases "b = 0")
    case True
    then show ?thesis by (cases s) auto
  next
    case False
    then show ?thesis by (cases s) (auto simp: rmap_Inr_iff Cons)
  qed
qed

lemma strlen_cstr: "strlen m = rmap length (cstr m)"
  by (induction m) (auto simp: rmap_def split: sum.splits)

lemma strcmp_nul [read_simps]:
  "nul_free s \<Longrightarrow> nul_free t \<Longrightarrow> strcmp (s @ 0 # m) (t @ 0 # n) = Inr (bytes_cmp s t)"
proof (induction s t rule: list_induct2')
  case 1
  then show ?case by simp
next
  case (2 x xs)
  then have "byte_cmp x 0 = 1"
    by (auto simp: byte_cmp_def cmp_key_def unat_eq_0)
  with 2 show ?case by simp
next
  case (3 y ys)
  then have "byte_cmp 0 y = -1"
    by (auto simp: byte_cmp_def cmp_key_def unat_gt_0)
  with 3 show ?case by simp
next
  case (4 x xs y ys)
  then show ?case by auto
qed

lemma ptr_add_append [read_simps]: "ptr_add (s @ m) (length s) = Inr m"
  by (simp add: ptr_add_def)

lemma ptr_add_append': "n = length s \<Longrightarrow> ptr_add (s @ m) n = Inr m"
  by (simp add: ptr_add_def)

lemma read_bytes_append [read_simps]: "read_bytes (s @ m) (length s) = Inr s"
  by (simp add: read_bytes_def)

lemma read_bytes_append': "n = length s \<Longrightarrow> read_bytes (s @ m) n = Inr s"
  by (simp add: read_bytes_def)

lemma split_at_Some: "split_at c s = Some (l, r) \<longleftrightarrow> s = l @ c # r \<and> c \<notin> set l"
proof (induction s arbitrary: l)
  case Nil
  then show ?case by simp
next
  case (Cons b s)
  show ?case
  proof (cases "b = c")
    case True
    then show ?thesis by (cases l) auto
  next
    case False
    then have "split_at c (b # s) = Some (l, r) \<longleftrightarrow>
        (\<exists>l'. l = b # l' \<and> split_at c s = Some (l', r))"
      by (auto split: option.splits)
    also have "\<dots> \<longleftrightarrow> (\<exists>l'. l = b # l' \<and> s = l' @ c # r \<and> c \<notin> set l')"
      by (simp only: Cons)
    also have "\<dots> \<longleftrightarrow> b # s = l @ c # r \<and> c \<notin> set l"
      using False by (cases l) auto
    finally show ?thesis .
  qed
qed

lemma split_at_None: "split_at c s = None \<longleftrightarrow> c \<notin> set s"
  by (induction s) (auto split: option.splits)

lemma split_at_length: "split_at c s = Some (l, r) \<Longrightarrow> length r < length s"
  by (auto simp: split_at_Some)

text \<open>
  \<open>compareElementValues\<close> compares strings by \<open>memcmp\<close> over the shorter length and then by length;
  on the terminated contents that is the lexicographic order of the strings themselves.
\<close>

lemma bytes_cmp_take:
  "bytes_cmp (take (min (length s) (length t)) s) (take (min (length s) (length t)) t) = 0 \<Longrightarrow>
   bytes_cmp s t = (if length s < length t then -1 else if length s = length t then 0 else 1)"
  by (induction s t rule: list_induct2') auto

lemma bytes_cmp_take_neq:
  "bytes_cmp (take n s) (take n t) \<noteq> 0 \<Longrightarrow> n \<le> length s \<Longrightarrow> n \<le> length t \<Longrightarrow>
   bytes_cmp (take n s) (take n t) = bytes_cmp s t"
proof (induction s t arbitrary: n rule: list_induct2')
  case (4 x xs y ys)
  then show ?case by (cases n) (auto split: if_splits)
qed auto

end
