(* ===== verification/ParseNumber.thy ===== *)
theory ParseNumber
  imports CString
begin

text \<open>
  Decimal numerals as \<open>snprintf\<close> prints them, and \<open>parseNumberFromStringWithBase\<close> of
  \<open>base/parse_number.cpp\<close> for a number type given by its limits.  The parser is shown to accept
  exactly the digit strings whose value the type can hold, and to invert the printer.
\<close>

section \<open>Printing\<close>

definition digit_byte :: "nat \<Rightarrow> byte" where
  "digit_byte k = of_nat (48 + k)"

fun dec_nat :: "nat \<Rightarrow> byte list" where
  "dec_nat n = (if n < 10 then [digit_byte n] else dec_nat (n div 10) @ [digit_byte (n mod 10)])"

declare dec_nat.simps [simp del]

definition dec_int :: "int \<Rightarrow> byte list" where
  "dec_int n = (if n < 0 then 45 # dec_nat (nat (- n)) else dec_nat (nat n))"

section \<open>Parsing\<close>

definition digitValue :: "byte \<Rightarrow> int" where
  "digitValue c =
     (if 48 \<le> c \<and> c \<le> 57 then uint c - 48
      else if 97 \<le> c \<and> c \<le> 122 then uint c - 97 + 10
      else if 65 \<le> c \<and> c \<le> 90 then uint c - 65 + 10
      else 36)"

definition extractSign :: "byte list \<Rightarrow> bool \<times> byte list" where
  "extractSign s =
     (case s of
        [] \<Rightarrow> (False, s)
      | c # t \<Rightarrow> if c = 45 then (True, t) else if c = 43 then (False, t) else (False, s))"

definition hex_prefix :: "byte list \<Rightarrow> bool" where
  "hex_prefix s = (take 2 s = bs ''0x'' \<or> take 2 s = bs ''0X'')"

definition extractBase :: "byte list \<Rightarrow> int \<Rightarrow> int \<times> byte list" where
  "extractBase s inputBase =
     (if inputBase = 0 then
        if 2 < length s \<and> hex_prefix s then (16, drop 2 s)
        else if 1 < length s \<and> hd s = 48 then (8, s)
        else (10, s)
      else if inputBase = 16 \<and> hex_prefix s then (inputBase, drop 2 s)
      else (inputBase, s))"

text \<open>The two accumulation loops; \<open>lo\<close> and \<open>hi\<close> are the limits of the number type.\<close>

fun parse_neg :: "int \<Rightarrow> int \<Rightarrow> int \<Rightarrow> byte list \<Rightarrow> int res" where
  "parse_neg lo base n [] = Inr n"
| "parse_neg lo base n (c # s) =
     (if digitValue c \<ge> base then Inl (BadStatus ''Bad digit'')
      else if - (- lo div base) > n \<or> lo - n * base > - digitValue c then Inl (BadStatus ''Underflow'')
      else parse_neg lo base (n * base - digitValue c) s)"

fun parse_pos :: "int \<Rightarrow> int \<Rightarrow> int \<Rightarrow> byte list \<Rightarrow> int res" where
  "parse_pos hi base n [] = Inr n"
| "parse_pos hi base n (c # s) =
     (if digitValue c \<ge> base then Inl (BadStatus ''Bad digit'')
      else if hi div base < n \<or> hi - n * base < digitValue c then Inl (BadStatus ''Overflow'')
      else parse_pos hi base (n * base + digitValue c) s)"

definition parseNumberFromStringWithBase :: "int \<Rightarrow> int \<Rightarrow> byte list \<Rightarrow> int \<Rightarrow> int res" where
  "parseNumberFromStringWithBase lo hi stringValue base =
     (if base = 1 \<or> base < 0 \<or> base > 36 then Inl (BadStatus ''Invalid base'')
      else
        let (isNegative, s) = extractSign stringValue;
            (base', str) = extractBase s base
        in if str = [] then Inl (BadStatus ''No digits'')
           else if isNegative then
             if lo < 0 then parse_neg lo base' 0 str else Inl (BadStatus ''Negative value'')
           else parse_pos hi base' 0 str)"

section \<open>What the parser accepts\<close>

definition digits_value :: "int \<Rightarrow> int \<Rightarrow> byte list \<Rightarrow> int" where
  "digits_value base n s = foldl (\<lambda>a c. a * base + digitValue c) n s"

definition all_digits :: "int \<Rightarrow> byte list \<Rightarrow> bool" where
  "all_digits base s = (\<forall>c \<in> set s. digitValue c < base)"

lemma digitValue_nonneg [simp]: "0 \<le> digitValue c"
  by (auto simp: digitValue_def word_le_def)

lemma digits_value_Cons [simp]:
  "digits_value base n (c # s) = digits_value base (n * base + digitValue c) s"
  by (simp add: digits_value_def)

lemma digits_value_Nil [simp]: "digits_value base n [] = n"
  by (simp add: digits_value_def)

lemma all_digits_simps [simp]:
  "all_digits base []"
  "all_digits base (c # s) \<longleftrightarrow> digitValue c < base \<and> all_digits base s"
  by (auto simp: all_digits_def)

lemma digits_value_mono: "0 \<le> n \<Longrightarrow> 1 \<le> base \<Longrightarrow> n \<le> digits_value base n s"
proof (induction s arbitrary: n)
  case (Cons c s)
  have "n * 1 \<le> n * base"
    using Cons.prems by (intro mult_left_mono) auto
  then have "n \<le> n * base + digitValue c"
    using digitValue_nonneg [of c] by linarith
  also have "\<dots> \<le> digits_value base (n * base + digitValue c) s"
    using Cons.prems digitValue_nonneg [of c] by (intro Cons.IH) auto
  finally show ?case by simp
qed simp

lemma digits_value_nonneg: "1 \<le> base \<Longrightarrow> 0 \<le> digits_value base 0 s"
  using digits_value_mono [of 0] by simp

lemma quot_guard:
  assumes "2 \<le> (base :: int)" "0 \<le> d"
  shows "hi div base < n \<or> hi - n * base < d \<longleftrightarrow> hi < n * base + d"
proof -
  have "n \<le> hi div base" if "n * base \<le> hi"
    using zdiv_mono1 [OF that, of base] assms by simp
  then show ?thesis
    using assms by linarith
qed

lemma parse_pos_iff:
  assumes "2 \<le> base" "0 \<le> n" "n \<le> hi"
  shows "parse_pos hi base n s = Inr m \<longleftrightarrow>
    all_digits base s \<and> m = digits_value base n s \<and> m \<le> hi"
  using assms
proof (induction s arbitrary: n)
  case (Cons c s)
  show ?case
  proof (cases "hi < n * base + digitValue c")
    case True
    have "n * base + digitValue c \<le> digits_value base (n * base + digitValue c) s"
      using Cons.prems by (intro digits_value_mono) auto
    with True Cons.prems show ?thesis
      by (auto simp: quot_guard)
  next
    case False
    then have "parse_pos hi base (n * base + digitValue c) s = Inr m \<longleftrightarrow>
        all_digits base s \<and> m = digits_value base (n * base + digitValue c) s \<and> m \<le> hi"
      using Cons.prems by (intro Cons.IH) auto
    with False show ?thesis
      using quot_guard [OF Cons.prems(1) digitValue_nonneg, of hi n c] by auto
  qed
qed auto

lemma parse_neg_pos:
  "parse_neg lo base n s =
     (case parse_pos (- lo) base (- n) s of
        Inl e \<Rightarrow> Inl (if e = BadStatus ''Overflow'' then BadStatus ''Underflow'' else e)
      | Inr m \<Rightarrow> Inr (- m))"
  by (induction s arbitrary: n) (auto simp: algebra_simps)

lemma parse_neg_iff:
  assumes "2 \<le> base" "lo \<le> 0"
  shows "parse_neg lo base 0 s = Inr m \<longleftrightarrow>
    all_digits base s \<and> m = - digits_value base 0 s \<and> lo \<le> m"
proof -
  have "parse_neg lo base 0 s = Inr m \<longleftrightarrow> parse_pos (- lo) base 0 s = Inr (- m)"
    by (auto simp: parse_neg_pos split: sum.splits)
  then show ?thesis
    using assms by (auto simp: parse_pos_iff)
qed

lemma extractBase_ge2:
  assumes "extractBase s b = (base, str)" "b = 0 \<or> 2 \<le> b"
  shows "2 \<le> base"
  using assms by (auto simp: extractBase_def split: if_splits)

text \<open>The number a string denotes, when it denotes one.\<close>

definition denotes_number :: "byte list \<Rightarrow> int \<Rightarrow> int \<Rightarrow> bool" where
  "denotes_number s base n =
     (let (neg, t) = extractSign s; (b, str) = extractBase t base
      in str \<noteq> [] \<and> all_digits b str \<and>
         n = (if neg then - digits_value b 0 str else digits_value b 0 str))"

lemma parseNumber_iff:
  assumes "base = 0 \<or> 2 \<le> base \<and> base \<le> 36" "lo \<le> 0" "0 \<le> hi"
  shows "parseNumberFromStringWithBase lo hi s base = Inr n \<longleftrightarrow>
    denotes_number s base n \<and> lo \<le> n \<and> n \<le> hi \<and> (fst (extractSign s) \<longrightarrow> lo < 0)"
proof -
  obtain neg t where t: "extractSign s = (neg, t)" by force
  obtain b str where b: "extractBase t base = (b, str)" by force
  have b2: "2 \<le> b"
    using extractBase_ge2 [OF b] assms(1) by auto
  then have nn: "0 \<le> digits_value b 0 str"
    by (intro digits_value_nonneg) simp
  show ?thesis
    using assms b2 nn
    by (auto simp: parseNumberFromStringWithBase_def denotes_number_def t b parse_pos_iff
        parse_neg_iff)
qed

section \<open>Printing and parsing are inverse\<close>

lemma unat_digit_byte: "k < 10 \<Longrightarrow> unat (digit_byte k) = 48 + k"
  unfolding digit_byte_def by (subst unat_of_nat) simp

lemma digit_byte_range: "k < 10 \<Longrightarrow> 48 \<le> digit_byte k \<and> digit_byte k \<le> 57"
  by (simp add: word_le_nat_alt unat_digit_byte)

lemma digitValue_digit_byte: "k < 10 \<Longrightarrow> digitValue (digit_byte k) = int k"
  using digit_byte_range [of k] by (simp add: digitValue_def uint_nat unat_digit_byte)

lemma digits_value_append:
  "digits_value base n (s @ t) = digits_value base (digits_value base n s) t"
  by (simp add: digits_value_def)

lemma dec_nat_nonempty [simp]: "dec_nat n \<noteq> []"
  by (simp add: dec_nat.simps [of n])

lemma digits_dec_nat: "all_digits 10 (dec_nat n) \<and> digits_value 10 0 (dec_nat n) = int n"
proof (induction n rule: dec_nat.induct)
  case (1 n)
  show ?case
  proof (cases "n < 10")
    case True
    then show ?thesis
      by (simp add: dec_nat.simps [of n] digitValue_digit_byte)
  next
    case False
    have "digitValue (digit_byte (n mod 10)) = int (n mod 10)"
      by (rule digitValue_digit_byte) simp
    moreover have "int (n div 10) * 10 + int (n mod 10) = int n"
      by (simp flip: of_nat_mult add: zdiv_int zmod_int)
    ultimately show ?thesis
      using 1 [OF False] False
      by (simp add: dec_nat.simps [of n] all_digits_def digits_value_append)
  qed
qed

lemma dec_nat_range: "c \<in> set (dec_nat n) \<Longrightarrow> 48 \<le> c \<and> c \<le> 57"
proof (induction n rule: dec_nat.induct)
  case (1 n)
  have m: "n mod 10 < 10" by simp
  show ?case
    using 1 digit_byte_range [of n] digit_byte_range [OF m]
    by (auto simp: dec_nat.simps [of n] split: if_splits)
qed

lemma dec_nat_inj: "dec_nat m = dec_nat n \<Longrightarrow> m = n"
  by (metis digits_dec_nat of_nat_eq_iff)

lemma dec_nat_nul_free [simp]: "nul_free (dec_nat n)"
  using dec_nat_range [of 0 n] by (auto simp: nul_free_def)

text \<open>A number that is printed in decimal is read back, with the base given or detected.\<close>

lemma hd_dec_nat: "0 < n \<Longrightarrow> hd (dec_nat n) \<noteq> 48"
proof (induction n rule: dec_nat.induct)
  case (1 n)
  show ?case
  proof (cases "n < 10")
    case True
    then have "unat (digit_byte n) \<noteq> unat (48 :: byte)"
      using 1 unat_digit_byte [of n] by simp
    then show ?thesis using True by (subst dec_nat.simps) auto
  next
    case False
    then show ?thesis using 1 by (subst dec_nat.simps) (simp add: div_greater_zero_iff)
  qed
qed

lemma denotes_dec_int:
  assumes "base = 0 \<or> base = 10"
  shows "denotes_number (dec_int n) base n"
proof -
  have e: "extractBase (dec_nat k) base = (10, dec_nat k)" for k
  proof (cases "k = 0")
    case True
    then show ?thesis using assms by (auto simp: extractBase_def dec_nat.simps)
  next
    case False
    then have h: "hd (dec_nat k) \<noteq> 48" using hd_dec_nat by blast
    then have "\<not> hex_prefix (dec_nat k)"
      by (cases "dec_nat k") (auto simp: hex_prefix_def)
    then show ?thesis using assms h by (auto simp: extractBase_def)
  qed
  have s: "extractSign (dec_nat k) = (False, dec_nat k)" for k
    using dec_nat_range [of "hd (dec_nat k)" k]
    by (cases "dec_nat k") (auto simp: extractSign_def)
  have "extractSign (dec_int n) = (n < 0, dec_nat (nat \<bar>n\<bar>))"
    using s by (auto simp: dec_int_def extractSign_def)
  then show ?thesis
    using e digits_dec_nat by (auto simp: denotes_number_def)
qed

lemma parseNumber_dec_int:
  assumes "base = 0 \<or> base = 10" "lo \<le> n" "n \<le> hi" "lo \<le> 0" "0 \<le> hi"
  shows "parseNumberFromStringWithBase lo hi (dec_int n) base = Inr n"
proof -
  have "fst (extractSign (dec_int n)) \<longrightarrow> n < 0 "
    using dec_nat_range [of "hd (dec_nat (nat n))" "nat n"]
    by (cases "dec_nat (nat n)") (auto simp: dec_int_def extractSign_def split: if_splits)
  then show ?thesis
    using assms denotes_dec_int [OF assms(1), of n] parseNumber_iff [of base lo hi "dec_int n" n] by auto
qed

end
