(* ===== verification/Doubles.thy ===== *)
theory Doubles
  imports Orders
begin

text \<open>
  IEEE-754 binary64, as far as the program uses it: the bit pattern of a \<open>double\<close> is a
  \<open>64 word\<close>; \<open>d_lt\<close> and \<open>d_eq\<close> are the comparisons of C, false as soon as one side is a NaN;
  \<open>double_of_int\<close> is the conversion of an integer, rounding to nearest, ties to even;
  \<open>d_to_int\<close> is the truncating conversion to an integer type.  \<open>is_NaN\<close> and \<open>is_Inf\<close> are
  \<open>mongo::isNaN\<close> and \<open>mongo::isInf\<close> of \<open>platform/float_utils.h\<close>.

  The comparison is computed on the bit patterns read as sign and magnitude.  \<open>d_scaled\<close> is the
  exact value of a finite double as a multiple of \<open>2 ^ -1074\<close>, and \<open>d_lt_scaled\<close> shows that the
  computed comparison is the comparison of these values.  The conversion of integers is exact up
  to \<open>2 ^ 53\<close> and monotone everywhere.
\<close>

unbundle bit_operations_syntax

section \<open>Fields of the bit pattern\<close>

definition d_mag :: "64 word \<Rightarrow> nat" where
  "d_mag w = unat w mod 2 ^ 63"

definition d_neg :: "64 word \<Rightarrow> bool" where
  "d_neg w = (2 ^ 63 \<le> unat w)"

definition d_exp :: "64 word \<Rightarrow> nat" where
  "d_exp w = d_mag w div 2 ^ 52"

definition d_frac :: "64 word \<Rightarrow> nat" where
  "d_frac w = d_mag w mod 2 ^ 52"

definition d_finite :: "64 word \<Rightarrow> bool" where
  "d_finite w = (d_exp w < 2047)"

definition d_nan :: "64 word \<Rightarrow> bool" where
  "d_nan w = (d_exp w = 2047 \<and> d_frac w \<noteq> 0)"

definition d_key :: "64 word \<Rightarrow> int" where
  "d_key w = (if d_neg w then - int (d_mag w) else int (d_mag w))"

section \<open>Comparisons\<close>

definition d_lt :: "64 word \<Rightarrow> 64 word \<Rightarrow> bool" where
  "d_lt a b = (\<not> d_nan a \<and> \<not> d_nan b \<and> d_key a < d_key b)"

definition d_eq :: "64 word \<Rightarrow> 64 word \<Rightarrow> bool" where
  "d_eq a b = (\<not> d_nan a \<and> \<not> d_nan b \<and> d_key a = d_key b)"

definition is_NaN :: "64 word \<Rightarrow> bool" where
  "is_NaN d = (\<not> d_eq d d)"

text \<open>
  \<open>isInf\<close> tests \<open>tmp == d && tmp - d != 0.0\<close>: the difference of a double with itself is a NaN
  exactly for the infinities and the NaNs, and the equality excludes the NaNs.  The second
  component is what is stored through \<open>sign\<close>.
\<close>

definition is_Inf :: "64 word \<Rightarrow> bool \<times> int" where
  "is_Inf d = (if d_eq d d \<and> \<not> d_finite d then (True, if d_lt d 0 then -1 else 1) else (False, 0))"

definition d_scaled :: "64 word \<Rightarrow> int" where
  "d_scaled w =
     (let m = (if d_exp w = 0 then d_frac w else (2 ^ 52 + d_frac w) * 2 ^ (d_exp w - 1))
      in if d_neg w then - int m else int m)"

section \<open>Conversions\<close>

text \<open>Position of the highest bit that is set.\<close>

fun top_bit :: "nat \<Rightarrow> nat" where
  "top_bit n = (if n \<le> 1 then 0 else Suc (top_bit (n div 2)))"

declare top_bit.simps [simp del]

definition round_shift :: "nat \<Rightarrow> nat \<Rightarrow> nat" where
  "round_shift m s =
     (let q = m div 2 ^ s; r = m mod 2 ^ s in
      if 2 ^ s < 2 * r \<or> 2 * r = 2 ^ s \<and> odd q then Suc q else q)"

definition double_of_nat :: "nat \<Rightarrow> nat" where
  "double_of_nat m =
     (if m = 0 then 0
      else let k = top_bit m in
        (1022 + k) * 2 ^ 52 + (if k \<le> 52 then m * 2 ^ (52 - k) else round_shift m (k - 52)))"

definition double_of_int :: "int \<Rightarrow> 64 word" where
  "double_of_int n =
     (if n < 0 then of_nat (2 ^ 63 + double_of_nat (nat (- n))) else of_nat (double_of_nat (nat n)))"

text \<open>
  Truncation towards zero into the range \<open>lo..hi\<close> of an integer type; outside of it (and for a
  NaN) the conversion is undefined.
\<close>

definition d_trunc :: "64 word \<Rightarrow> int" where
  "d_trunc w = (let m = nat \<bar>d_scaled w\<bar> div 2 ^ 1074 in if d_neg w then - int m else int m)"

definition d_to_int :: "int \<Rightarrow> int \<Rightarrow> 64 word \<Rightarrow> int res" where
  "d_to_int lo hi w =
     (if d_finite w \<and> lo \<le> d_trunc w \<and> d_trunc w \<le> hi then Inr (d_trunc w) else Inl BadCast)"

section \<open>The comparison is the comparison of values\<close>

lemma d_mag_less: "d_mag w < 2 ^ 63"
  by (simp add: d_mag_def)

lemma d_mag_split: "d_mag w = d_exp w * 2 ^ 52 + d_frac w"
  unfolding d_exp_def d_frac_def by (rule div_mult_mod_eq [symmetric])

lemma d_frac_less: "d_frac w < 2 ^ 52"
  by (simp add: d_frac_def)

lemma d_exp_le: "d_exp w \<le> 2047"
proof -
  have "d_mag w < 2048 * 2 ^ 52" using d_mag_less [of w] by simp
  then have "d_mag w div 2 ^ 52 < 2048" by (rule less_mult_imp_div_less)
  then show ?thesis by (simp add: d_exp_def)
qed

definition mag_val :: "nat \<Rightarrow> nat \<Rightarrow> nat" where
  "mag_val e f = (if e = 0 then f else (2 ^ 52 + f) * 2 ^ (e - 1))"

lemma mag_val_mono_frac: "f < g \<Longrightarrow> mag_val e f < mag_val e g"
  by (simp add: mag_val_def)

lemma mag_val_mono_exp:
  assumes "e < e'" and "f < 2 ^ 52"
  shows "mag_val e f < mag_val e' g"
proof (cases "e = 0")
  case True
  have "(2::nat) ^ 52 * 1 \<le> (2 ^ 52 + g) * 2 ^ (e' - 1)"
    by (rule mult_le_mono) auto
  with True assms show ?thesis by (simp add: mag_val_def)
next
  case False
  have "mag_val e f < 2 ^ 53 * 2 ^ (e - 1)"
    using False assms(2) by (simp add: mag_val_def)
  also have "\<dots> = 2 ^ 52 * 2 ^ e"
    using False by (cases e) simp_all
  also have "\<dots> \<le> 2 ^ 52 * 2 ^ (e' - 1)"
    using assms(1) by (intro mult_le_mono2 power_increasing) auto
  also have "\<dots> \<le> mag_val e' g"
    using assms(1) by (simp add: mag_val_def)
  finally show ?thesis .
qed

lemma mag_less_iff:
  assumes "f < 2 ^ 52" and "g < 2 ^ 52"
  shows "e * 2 ^ 52 + f < e' * 2 ^ 52 + g \<longleftrightarrow> mag_val e f < mag_val e' g"
proof -
  have "e * 2 ^ 52 + f < e' * 2 ^ 52 + g \<longleftrightarrow> e < e' \<or> e = e' \<and> f < g"
    using assms by auto
  moreover have "mag_val e f < mag_val e' g \<longleftrightarrow> e < e' \<or> e = e' \<and> f < g"
    using mag_val_mono_exp [of e e' f g] mag_val_mono_exp [of e' e g f] mag_val_mono_frac [of f g e]
      mag_val_mono_frac [of g f e] assms
    by (metis less_irrefl less_trans linorder_neqE_nat)
  ultimately show ?thesis by simp
qed

lemma d_scaled_mag:
  "d_scaled w = (if d_neg w then - int (mag_val (d_exp w) (d_frac w))
                 else int (mag_val (d_exp w) (d_frac w)))"
  by (simp add: d_scaled_def mag_val_def Let_def)

lemma mag_val_0: "mag_val (d_exp w) (d_frac w) = 0 \<longleftrightarrow> d_mag w = 0"
  using d_mag_split [of w] by (simp add: mag_val_def)

lemma d_mag_less_iff:
  "d_mag a < d_mag b \<longleftrightarrow> mag_val (d_exp a) (d_frac a) < mag_val (d_exp b) (d_frac b)"
  unfolding d_mag_split [of a] d_mag_split [of b] by (rule mag_less_iff [OF d_frac_less d_frac_less])

lemma d_key_scaled: "d_key a < d_key b \<longleftrightarrow> d_scaled a < d_scaled b"
  using d_mag_less_iff [of a b] d_mag_less_iff [of b a] mag_val_0 [of a] mag_val_0 [of b]
  by (auto simp: d_key_def d_scaled_mag)

lemma d_lt_scaled: "\<not> d_nan a \<Longrightarrow> \<not> d_nan b \<Longrightarrow> d_lt a b \<longleftrightarrow> d_scaled a < d_scaled b"
  by (simp add: d_lt_def d_key_scaled)

lemma is_NaN_iff: "is_NaN d \<longleftrightarrow> d_nan d"
  by (simp add: is_NaN_def d_eq_def)

section \<open>Converting integers\<close>

lemma top_bit_bounds:
  "0 < n \<Longrightarrow> 2 ^ top_bit n \<le> n \<and> n < 2 ^ Suc (top_bit n)"
proof (induction n rule: top_bit.induct)
  case (1 n)
  show ?case
  proof (cases "n \<le> 1")
    case True
    with "1.prems" show ?thesis by (simp add: top_bit.simps [of n])
  next
    case False
    then have "0 < n div 2" by simp
    with False "1.IH" have "2 ^ top_bit (n div 2) \<le> n div 2 \<and> n div 2 < 2 ^ Suc (top_bit (n div 2))"
      by simp
    moreover have "top_bit n = Suc (top_bit (n div 2))"
      using False by (simp add: top_bit.simps [of n])
    ultimately show ?thesis by auto
  qed
qed

lemma top_bit_mono:
  assumes "0 < m" and "m \<le> n"
  shows "top_bit m \<le> top_bit n"
proof (rule ccontr)
  assume "\<not> top_bit m \<le> top_bit n"
  then have "(2::nat) ^ Suc (top_bit n) \<le> 2 ^ top_bit m"
    by (intro power_increasing) auto
  also have "\<dots> \<le> m" using top_bit_bounds assms(1) by blast
  also have "m \<le> n" by (rule assms(2))
  finally show False using top_bit_bounds [of n] assms by simp
qed

lemma top_bit_less: "0 < n \<Longrightarrow> n < 2 ^ k \<Longrightarrow> top_bit n < k"
  using top_bit_bounds [of n] by (metis le_less_trans nat_power_less_imp_less zero_less_numeral)

lemma round_shift_ge: "m div 2 ^ s \<le> round_shift m s"
  by (simp add: round_shift_def Let_def)

lemma round_shift_le: "round_shift m s \<le> Suc (m div 2 ^ s)"
  by (simp add: round_shift_def Let_def)

lemma round_shift_mono:
  assumes "m \<le> n"
  shows "round_shift m s \<le> round_shift n s"
proof -
  have le: "m div 2 ^ s \<le> n div 2 ^ s" using assms by (rule div_le_mono)
  show ?thesis
  proof (cases "m div 2 ^ s = n div 2 ^ s")
    case True
    have "m mod 2 ^ s \<le> n mod 2 ^ s"
      using True assms by (metis add_le_cancel_left div_mult_mod_eq)
    with True show ?thesis by (auto simp: round_shift_def Let_def)
  next
    case False
    with le have "Suc (m div 2 ^ s) \<le> n div 2 ^ s" by simp
    then show ?thesis using round_shift_le [of m s] round_shift_ge [of n s] by linarith
  qed
qed

text \<open>The significand, scaled to 53 bits; rounding may carry it to \<open>2 ^ 53\<close>.\<close>

definition sig53 :: "nat \<Rightarrow> nat" where
  "sig53 m = (let k = top_bit m in if k \<le> 52 then m * 2 ^ (52 - k) else round_shift m (k - 52))"

lemma double_of_nat_sig53:
  "0 < m \<Longrightarrow> double_of_nat m = (1022 + top_bit m) * 2 ^ 52 + sig53 m"
  by (simp add: double_of_nat_def sig53_def Let_def)

lemma sig53_small:
  assumes "0 < m" and "top_bit m \<le> 52"
  shows "2 ^ 52 \<le> sig53 m \<and> sig53 m < 2 ^ 53"
proof -
  let ?k = "top_bit m"
  have b: "2 ^ ?k \<le> m" "m < 2 ^ Suc ?k" using top_bit_bounds [OF assms(1)] by auto
  have "(2::nat) ^ 52 = 2 ^ ?k * 2 ^ (52 - ?k)"
    using assms(2) by (metis le_add_diff_inverse power_add)
  also have "\<dots> \<le> m * 2 ^ (52 - ?k)" using b(1) by simp
  finally have lo: "2 ^ 52 \<le> m * 2 ^ (52 - ?k)" .
  have "m * 2 ^ (52 - ?k) < 2 ^ Suc ?k * 2 ^ (52 - ?k)" using b(2) by simp
  also have "\<dots> = 2 ^ (Suc ?k + (52 - ?k))" by (simp only: power_add)
  also have "Suc ?k + (52 - ?k) = 53" using assms(2) by simp
  finally show ?thesis using lo assms(2) by (simp add: sig53_def Let_def)
qed

lemma sig53_large:
  assumes "0 < m" and "52 < top_bit m"
  shows "2 ^ 52 \<le> sig53 m \<and> sig53 m \<le> 2 ^ 53"
proof -
  let ?k = "top_bit m"
  have b: "2 ^ ?k \<le> m" "m < 2 ^ Suc ?k" using top_bit_bounds [OF assms(1)] by auto
  have p: "(2::nat) ^ 52 * 2 ^ (?k - 52) = 2 ^ ?k"
    using assms(2) by (metis less_imp_le_nat le_add_diff_inverse power_add)
  have "2 ^ 52 \<le> m div 2 ^ (?k - 52)"
    using b(1) p by (simp add: less_eq_div_iff_mult_less_eq)
  moreover have "m div 2 ^ (?k - 52) < 2 ^ 53"
  proof (rule less_mult_imp_div_less)
    show "m < 2 ^ 53 * 2 ^ (?k - 52)" using b(2) p by simp
  qed
  ultimately show ?thesis
    using round_shift_ge [of m "?k - 52"] round_shift_le [of m "?k - 52"] assms(2)
    by (simp add: sig53_def Let_def)
qed

lemma sig53_bounds: "0 < m \<Longrightarrow> 2 ^ 52 \<le> sig53 m \<and> sig53 m \<le> 2 ^ 53"
  using sig53_small [of m] sig53_large [of m] by (cases "top_bit m \<le> 52") auto

lemma sig53_mono:
  assumes "m \<le> n" and "top_bit m = top_bit n"
  shows "sig53 m \<le> sig53 n"
  using assms by (simp add: sig53_def Let_def round_shift_mono)

lemma double_of_nat_mono:
  assumes "m \<le> n"
  shows "double_of_nat m \<le> double_of_nat n"
proof (cases "m = 0")
  case True
  then show ?thesis by (simp add: double_of_nat_def)
next
  case False
  then have m: "0 < m" and n: "0 < n" using assms by auto
  show ?thesis
  proof (cases "top_bit m = top_bit n")
    case True
    then show ?thesis using sig53_mono [OF assms True] m n by (simp add: double_of_nat_sig53)
  next
    case False
    with top_bit_mono [OF m assms] have "top_bit m < top_bit n" by simp
    then have "(1022 + Suc (top_bit m)) * 2 ^ 52 \<le> (1022 + top_bit n) * (2::nat) ^ 52"
      by (intro mult_le_mono1) simp
    moreover have "sig53 m \<le> 2 * 2 ^ 52" "2 ^ 52 \<le> sig53 n"
      using sig53_bounds [OF m] sig53_bounds [OF n] by simp_all
    ultimately show ?thesis using m n by (simp add: double_of_nat_sig53)
  qed
qed

lemma double_of_nat_less:
  assumes "m < 2 ^ 64"
  shows "double_of_nat m < 2 ^ 63"
proof (cases "m = 0")
  case True
  then show ?thesis by (simp add: double_of_nat_def)
next
  case False
  then have m: "0 < m" by simp
  have "top_bit m \<le> 63" using top_bit_less [OF m assms] by simp
  then have "(1022 + top_bit m) * 2 ^ 52 \<le> 1085 * (2::nat) ^ 52"
    by (intro mult_le_mono1) simp
  then show ?thesis using sig53_bounds [OF m] m by (simp add: double_of_nat_sig53)
qed

lemma d_mag_neg_of_nat:
  assumes "b < 2 ^ 63"
  shows "d_mag (of_nat b) = b" "\<not> d_neg (of_nat b)"
    "d_mag (of_nat (2 ^ 63 + b)) = b" "d_neg (of_nat (2 ^ 63 + b))"
proof -
  have l: "b < 2 ^ 64" "2 ^ 63 + b < 2 ^ 64" using assms by simp_all
  have u: "unat (of_nat x :: 64 word) = x" if "x < 2 ^ 64" for x
    using that by (simp add: unat_of_nat)
  show "d_mag (of_nat b) = b" "\<not> d_neg (of_nat b)"
    unfolding d_mag_def d_neg_def u [OF l(1)] using assms by simp_all
  show "d_mag (of_nat (2 ^ 63 + b)) = b" "d_neg (of_nat (2 ^ 63 + b))"
    unfolding d_mag_def d_neg_def u [OF l(2)] using assms by simp_all
qed

lemma d_key_double_of_int:
  assumes "\<bar>n\<bar> < 2 ^ 64"
  shows "d_key (double_of_int n) = sgn n * int (double_of_nat (nat \<bar>n\<bar>))"
proof -
  have "nat \<bar>n\<bar> < 2 ^ 64" using assms by (simp add: nat_less_iff)
  then have l: "double_of_nat (nat \<bar>n\<bar>) < 2 ^ 63" by (rule double_of_nat_less)
  consider "n < 0" | "n = 0" | "0 < n" by linarith
  then show ?thesis
    using d_mag_neg_of_nat [OF l] by cases (simp_all add: double_of_int_def d_key_def double_of_nat_def d_mag_def d_neg_def)
qed

lemma double_of_int_mono:
  assumes "m \<le> n" and "\<bar>m\<bar> < 2 ^ 64" and "\<bar>n\<bar> < 2 ^ 64"
  shows "d_key (double_of_int m) \<le> d_key (double_of_int n)"
proof -
  consider "0 \<le> m" | "m < 0" "0 \<le> n" | "n < 0" using assms(1) by linarith
  then show ?thesis
  proof cases
    case 1
    with assms double_of_nat_mono [of "nat m" "nat n"] show ?thesis
      by (cases "m = 0") (auto simp: d_key_double_of_int sgn_if)
  next
    case 2
    then show ?thesis using assms by (simp add: d_key_double_of_int sgn_if)
  next
    case 3
    with assms double_of_nat_mono [of "nat (- n)" "nat (- m)"] show ?thesis
      by (auto simp: d_key_double_of_int sgn_if)
  qed
qed


section \<open>Small integers are exact\<close>

lemma double_of_nat_exact:
  assumes "0 < m" "m < 2 ^ 53"
  shows "mag_val (double_of_nat m div 2 ^ 52) (double_of_nat m mod 2 ^ 52) = m * 2 ^ 1074"
    and "double_of_nat m div 2 ^ 52 < 2047"
proof -
  let ?k = "top_bit m"
  have k: "?k \<le> 52"
    using top_bit_less [OF assms] by simp
  let ?f = "m * 2 ^ (52 - ?k) - 2 ^ 52"
  have s: "sig53 m = m * 2 ^ (52 - ?k)"
    using k by (simp add: sig53_def)
  have f: "sig53 m = 2 ^ 52 + ?f" "?f < 2 ^ 52"
    using sig53_small [OF assms(1) k] s by auto
  have "double_of_nat m = (1022 + ?k) * 2 ^ 52 + (2 ^ 52 + ?f)"
    using double_of_nat_sig53 [OF assms(1)] f(1) by simp
  also have "\<dots> = (1023 + ?k) * 2 ^ 52 + ?f"
    by (simp add: algebra_simps)
  finally have e: "double_of_nat m = (1023 + ?k) * 2 ^ 52 + ?f" .
  have qr: "(q * b + r) div b = q" "(q * b + r) mod b = r" if "r < b" for q r b :: nat
    using that by simp_all
  have d: "double_of_nat m div 2 ^ 52 = 1023 + ?k" "double_of_nat m mod 2 ^ 52 = ?f"
    unfolding e by (rule qr(1) [OF f(2)], rule qr(2) [OF f(2)])
  have "52 - ?k + (1022 + ?k) = 1074"
    using k by simp
  then have p: "(2 :: nat) ^ (52 - ?k) * 2 ^ (1022 + ?k) = 2 ^ 1074"
    by (simp only: power_add [symmetric])
  have "mag_val (1023 + ?k) ?f = sig53 m * 2 ^ (1022 + ?k)"
    unfolding mag_val_def f(1) by simp
  also have "\<dots> = m * (2 ^ (52 - ?k) * 2 ^ (1022 + ?k))"
    by (simp only: s mult.assoc)
  finally show "mag_val (double_of_nat m div 2 ^ 52) (double_of_nat m mod 2 ^ 52) = m * 2 ^ 1074"
    unfolding d p .
  show "double_of_nat m div 2 ^ 52 < 2047"
    unfolding d using k by simp
qed

lemma double_of_int_mag:
  assumes "\<bar>n\<bar> < 2 ^ 64"
  shows "d_mag (double_of_int n) = double_of_nat (nat \<bar>n\<bar>)" "d_neg (double_of_int n) \<longleftrightarrow> n < 0"
proof -
  have "nat \<bar>n\<bar> < 2 ^ 64" using assms by (simp add: nat_less_iff)
  then have l: "double_of_nat (nat \<bar>n\<bar>) < 2 ^ 63" by (rule double_of_nat_less)
  show "d_mag (double_of_int n) = double_of_nat (nat \<bar>n\<bar>)" "d_neg (double_of_int n) \<longleftrightarrow> n < 0"
    using d_mag_neg_of_nat [OF l] by (cases "n < 0"; simp add: double_of_int_def)+
qed

lemma d_scaled_double_of_int:
  assumes "\<bar>n\<bar> < 2 ^ 53"
  shows "d_scaled (double_of_int n) = n * 2 ^ 1074" and "\<not> d_nan (double_of_int n)"
proof -
  have n64: "\<bar>n\<bar> < 2 ^ 64" using assms by simp
  note m = double_of_int_mag [OF n64]
  show "d_scaled (double_of_int n) = n * 2 ^ 1074"
  proof (cases "n = 0")
    case True
    then show ?thesis
      using m by (simp add: d_scaled_mag d_exp_def d_frac_def double_of_nat_def mag_val_def)
  next
    case False
    have b: "0 < nat \<bar>n\<bar>" "nat \<bar>n\<bar> < 2 ^ 53"
      using False assms by (simp_all add: nat_less_iff)
    have "d_scaled (double_of_int n) = (if n < 0 then - int (nat \<bar>n\<bar> * 2 ^ 1074) else int (nat \<bar>n\<bar> * 2 ^ 1074))"
      using double_of_nat_exact(1) [OF b] by (simp only: d_scaled_mag d_exp_def d_frac_def m)
    also have "\<dots> = n * 2 ^ 1074"
      by (simp only: of_nat_mult of_nat_power) simp
    finally show ?thesis .
  qed
  show "\<not> d_nan (double_of_int n)"
  proof (cases "n = 0")
    case True
    then show ?thesis using m by (simp add: d_nan_def d_exp_def double_of_nat_def)
  next
    case False
    have b: "0 < nat \<bar>n\<bar>" "nat \<bar>n\<bar> < 2 ^ 53"
      using False assms by (simp_all add: nat_less_iff)
    then show ?thesis
      using double_of_nat_exact(2) [OF b] by (simp add: d_nan_def d_exp_def m)
  qed
qed

end
