(* ===== verification/CNumbers.thy ===== *)
theory CNumbers
  imports ParseNumber Doubles
begin

text \<open>
  The conversions between numbers and text of the C library that the JSON reader and printer call:
  \<open>strtoll\<close>, \<open>strtoull\<close> (and \<open>strtoul\<close>, the same function where \<open>long\<close> has 64 bits) in base ten,
  \<open>strtod\<close>, and \<open>printf\<close>'s \<open>%.Pg\<close>, which an output stream of precision \<open>P\<close> uses for a
  double.  The text is the list of the bytes before the terminating zero, in the "C" locale.  Each
  \<open>strto\<close> function returns its value, the text behind the number (all of it when there is none)
  and whether \<open>errno\<close> is \<open>ERANGE\<close>.  Conversions to and from doubles round exactly, to nearest and
  ties to even.  The payload of a parsed NaN, which C leaves to the implementation, is zero.
\<close>

section \<open>Character classes\<close>

definition isspace :: "byte \<Rightarrow> bool" where
  "isspace c \<longleftrightarrow> 9 \<le> c \<and> c \<le> 13 \<or> c = 32"

definition isdigit :: "byte \<Rightarrow> bool" where
  "isdigit c \<longleftrightarrow> 48 \<le> c \<and> c \<le> 57"

definition isxdigit :: "byte \<Rightarrow> bool" where
  "isxdigit c \<longleftrightarrow> isdigit c \<or> 97 \<le> c \<and> c \<le> 102 \<or> 65 \<le> c \<and> c \<le> 70"

definition is_nan_char :: "byte \<Rightarrow> bool" where
  "is_nan_char c \<longleftrightarrow> isdigit c \<or> 97 \<le> c \<and> c \<le> 122 \<or> 65 \<le> c \<and> c \<le> 90 \<or> c = 95"

definition lower :: "byte \<Rightarrow> byte" where
  "lower c = (if 65 \<le> c \<and> c \<le> 90 then c + 32 else c)"

definition skip_space :: "byte list \<Rightarrow> byte list" where
  "skip_space s = dropWhile isspace s"

section \<open>Integers\<close>

text \<open>The sign and the magnitude of a decimal integer at the start of a text.\<close>

definition scan_int :: "byte list \<Rightarrow> (bool \<times> nat \<times> byte list) option" where
  "scan_int s =
     (let (neg, t) = extractSign (skip_space s); ds = takeWhile isdigit t
      in if ds = [] then None
         else Some (neg, nat (digits_value 10 0 ds), dropWhile isdigit t))"

definition strtoll :: "byte list \<Rightarrow> int \<times> byte list \<times> bool" where
  "strtoll s =
     (case scan_int s of
        None \<Rightarrow> (0, s, False)
      | Some (neg, n, r) \<Rightarrow>
          if neg then (if n \<le> 2 ^ 63 then (- int n, r, False) else (- (2 ^ 63), r, True))
          else (if n < 2 ^ 63 then (int n, r, False) else (2 ^ 63 - 1, r, True)))"

definition strtoull :: "byte list \<Rightarrow> 64 word \<times> byte list \<times> bool" where
  "strtoull s =
     (case scan_int s of
        None \<Rightarrow> (0, s, False)
      | Some (neg, n, r) \<Rightarrow>
          if n < 2 ^ 64 then (if neg then - of_nat n else of_nat n, r, False)
          else (-1, r, True))"

section \<open>Rounding to a double\<close>

text \<open>The quotient rounded to nearest, ties to even, and whether it was exact.\<close>

definition round_div :: "nat \<Rightarrow> nat \<Rightarrow> nat" where
  "round_div a b =
     (let q = a div b; r = a mod b in if b < 2 * r \<or> 2 * r = b \<and> odd q then Suc q else q)"

text \<open>The largest \<open>k\<close> with \<open>2 ^ k \<le> a / b\<close>.\<close>

definition log2_ratio :: "nat \<Rightarrow> nat \<Rightarrow> int" where
  "log2_ratio a b =
     (let k = int (top_bit a) - int (top_bit b) in
      if (if 0 \<le> k then b * 2 ^ nat k \<le> a else b \<le> a * 2 ^ nat (- k)) then k else k - 1)"

text \<open>
  The magnitude bits of the double nearest to \<open>a / b\<close>, and whether it overflows or is tiny and
  inexact.
\<close>

definition ratio_to_double :: "nat \<Rightarrow> nat \<Rightarrow> nat \<times> bool" where
  "ratio_to_double a b =
     (if a = 0 then (0, False)
      else
        let e = max (log2_ratio a b - 52) (-1074);
            n = (if 0 \<le> e then a else a * 2 ^ nat (- e));
            d = (if 0 \<le> e then b * 2 ^ nat e else b);
            bits = nat (e + 1074) * 2 ^ 52 + round_div n d
        in if 2047 * 2 ^ 52 \<le> bits then (2047 * 2 ^ 52, True)
           else (bits, n mod d \<noteq> 0 \<and> round_div (a * 2 ^ 1075) b < 2 ^ 53))"

section \<open>strtod\<close>

text \<open>An optional exponent: the marker, an optional sign and at least one digit.\<close>

definition scan_exp :: "byte \<Rightarrow> byte list \<Rightarrow> int \<times> byte list" where
  "scan_exp mark s =
     (case s of
        [] \<Rightarrow> (0, s)
      | c # t \<Rightarrow>
          if lower c \<noteq> mark then (0, s)
          else let (neg, u) = extractSign t; ds = takeWhile isdigit u
               in if ds = [] then (0, s)
                  else (if neg then - digits_value 10 0 ds else digits_value 10 0 ds,
                        dropWhile isdigit u))"

text \<open>Digits with an optional point: all digits, the number behind the point, the rest.\<close>

definition scan_mantissa :: "(byte \<Rightarrow> bool) \<Rightarrow> byte list \<Rightarrow> byte list \<times> nat \<times> byte list" where
  "scan_mantissa isd s =
     (let ip = takeWhile isd s; r = dropWhile isd s
      in case r of
           [] \<Rightarrow> (ip, 0, r)
         | c # t \<Rightarrow>
             if c = 46 \<and> (ip \<noteq> [] \<or> takeWhile isd t \<noteq> [])
             then (ip @ takeWhile isd t, length (takeWhile isd t), dropWhile isd t)
             else (ip, 0, r))"

definition scale_ratio :: "nat \<Rightarrow> nat \<Rightarrow> int \<Rightarrow> nat \<times> bool" where
  "scale_ratio m base e =
     (if m = 0 then (0, False)
      else if 0 \<le> e then ratio_to_double (m * base ^ nat e) 1
      else ratio_to_double m (base ^ nat (- e)))"

text \<open>The magnitude of an unsigned number: its bits, the rest, and \<open>ERANGE\<close>.\<close>

definition scan_double :: "byte list \<Rightarrow> (nat \<times> byte list \<times> bool) option" where
  "scan_double s =
     (if map lower (take 3 s) = bs ''inf'' then
        Some (2047 * 2 ^ 52, if map lower (take 8 s) = bs ''infinity'' then drop 8 s else drop 3 s, False)
      else if map lower (take 3 s) = bs ''nan'' then
        let r = drop 3 s
        in Some (2047 * 2 ^ 52 + 2 ^ 51,
             if take 1 r = [40] \<and> take 1 (dropWhile is_nan_char (drop 1 r)) = [41]
             then drop 1 (dropWhile is_nan_char (drop 1 r)) else r, False)
      else
        let hx = drop 2 s; (hds, hfrac, hr) = scan_mantissa isxdigit hx
        in if map lower (take 2 s) = bs ''0x'' \<and> hds \<noteq> [] then
             let (e, r) = scan_exp 112 hr;
                 (bits, er) = scale_ratio (nat (digits_value 16 0 hds)) 2 (e - 4 * int hfrac)
             in Some (bits, r, er)
           else
             let (ds, frac, dr) = scan_mantissa isdigit s
             in if ds = [] then None
                else let (e, r) = scan_exp 101 dr;
                         (bits, er) = scale_ratio (nat (digits_value 10 0 ds)) 10 (e - int frac)
                     in Some (bits, r, er))"

definition strtod :: "byte list \<Rightarrow> 64 word \<times> byte list \<times> bool" where
  "strtod s =
     (let (neg, t) = extractSign (skip_space s)
      in case scan_double t of
           None \<Rightarrow> (0, s, False)
         | Some (bits, r, er) \<Rightarrow> (of_nat (if neg then 2 ^ 63 + bits else bits), r, er))"

section \<open>Printing with a precision\<close>

fun digits_of :: "nat \<Rightarrow> nat" where
  "digits_of n = (if n < 10 then 1 else Suc (digits_of (n div 10)))"

declare digits_of.simps [simp del]

text \<open>The number of factors ten that bring \<open>a / b\<close> to at least one.\<close>

function tens_below :: "nat \<Rightarrow> nat \<Rightarrow> nat" where
  "tens_below a b = (if a = 0 \<or> b \<le> a then 0 else Suc (tens_below (10 * a) b))"
  by pat_completeness auto
termination
  by (relation "measure (\<lambda>(a, b). b - a)") auto

declare tens_below.simps [simp del]

definition log10_ratio :: "nat \<Rightarrow> nat \<Rightarrow> int" where
  "log10_ratio a b = (if b \<le> a then int (digits_of (a div b)) - 1 else - int (tens_below a b))"

text \<open>The \<open>P\<close> significant digits of \<open>a / b\<close> and its decimal exponent after rounding.\<close>

definition sci_digits :: "nat \<Rightarrow> nat \<Rightarrow> nat \<Rightarrow> nat \<times> int" where
  "sci_digits P a b =
     (let x = log10_ratio a b;
          s = int P - 1 - x;
          d = (if 0 \<le> s then round_div (a * 10 ^ nat s) b else round_div a (b * 10 ^ nat (- s)))
      in if d = 10 ^ P then (10 ^ (P - 1), x + 1) else (d, x))"

fun pad_zeros :: "nat \<Rightarrow> byte list \<Rightarrow> byte list" where
  "pad_zeros k s = replicate (k - length s) 48 @ s"

definition strip_zeros :: "byte list \<Rightarrow> byte list" where
  "strip_zeros s = rev (dropWhile (\<lambda>c. c = 48) (rev s))"

text \<open>An integer part and the digits behind the point, which is dropped with trailing zeros.\<close>

definition with_point :: "byte list \<Rightarrow> byte list \<Rightarrow> byte list" where
  "with_point ip frac = (let f = strip_zeros frac in if f = [] then ip else ip @ 46 # f)"

definition fmt_mag :: "nat \<Rightarrow> nat \<Rightarrow> nat \<Rightarrow> byte list" where
  "fmt_mag P a b =
     (let (d, x) = sci_digits P a b
      in if -4 \<le> x \<and> x < int P then
           let k = nat (int P - 1 - x)
           in with_point (dec_nat (d div 10 ^ k)) (if k = 0 then [] else pad_zeros k (dec_nat (d mod 10 ^ k)))
         else
           with_point (dec_nat (d div 10 ^ (P - 1)))
             (if P = 1 then [] else pad_zeros (P - 1) (dec_nat (d mod 10 ^ (P - 1)))) @
           101 # (if x < 0 then 45 else 43) # pad_zeros 2 (dec_nat (nat \<bar>x\<bar>)))"

definition fmt_g :: "nat \<Rightarrow> 64 word \<Rightarrow> byte list" where
  "fmt_g P w =
     (let m = nat \<bar>d_scaled w\<bar>;
          body = (if d_nan w then bs ''nan'' else if \<not> d_finite w then bs ''inf''
                  else if m = 0 then [48] else fmt_mag P m (2 ^ 1074))
      in if d_neg w then 45 # body else body)"

section \<open>Integers print as their digits\<close>

lemma digits_of_bounds: "0 < n \<Longrightarrow> 10 ^ (digits_of n - 1) \<le> n \<and> n < 10 ^ digits_of n"
proof (induction n rule: digits_of.induct)
  case (1 n)
  show ?case
  proof (cases "n < 10")
    case True
    with 1 show ?thesis by (simp add: digits_of.simps [of n])
  next
    case False
    let ?q = "n div 10"
    have q: "10 ^ (digits_of ?q - 1) \<le> ?q" "?q < 10 ^ digits_of ?q"
      using 1 False by auto
    have pos: "0 < digits_of ?q" by (subst digits_of.simps) simp
    have "10 * 10 ^ (digits_of ?q - 1) = (10 :: nat) ^ digits_of ?q"
      using pos by (metis Suc_pred power_Suc diff_Suc_1 Suc_diff_1)
    with q have "10 ^ digits_of ?q \<le> 10 * ?q" by linarith
    moreover have "10 * (?q + 1) \<le> 10 * 10 ^ digits_of ?q"
      using q(2) by (intro mult_le_mono) auto
    moreover have "10 * ?q \<le> n" "n < 10 * (?q + 1)"
      by simp_all
    ultimately show ?thesis
      using False by (simp add: digits_of.simps [of n])
  qed
qed

lemma digits_of_le:
  assumes "0 < n" "n < 10 ^ k"
  shows "digits_of n \<le> k"
proof -
  have "(10 :: nat) ^ (digits_of n - 1) < 10 ^ k"
    using digits_of_bounds [OF assms(1)] assms(2) by linarith
  then show ?thesis by (simp add: power_less_imp_less_exp)
qed

lemma round_div_exact: "0 < b \<Longrightarrow> round_div (q * b) b = q"
  by (simp add: round_div_def)

lemma strip_pad_zeros: "0 < k \<Longrightarrow> strip_zeros (pad_zeros k (dec_nat 0)) = []"
  by (auto simp: strip_zeros_def dec_nat.simps [of 0] digit_byte_def)

lemma strip_zeros_Nil [simp]: "strip_zeros [] = []"
  by (simp add: strip_zeros_def)

lemma digits_of_pos: "0 < digits_of n"
  by (subst digits_of.simps) simp

lemma fmt_mag_int:
  assumes "0 < b" "0 < m" "m < 10 ^ P"
  shows "fmt_mag P (m * b) b = dec_nat m"
proof -
  let ?k = "P - digits_of m"
  have le: "digits_of m \<le> P"
    using assms by (intro digits_of_le)
  have pos: "0 < digits_of m" by (rule digits_of_pos)
  have x: "log10_ratio (m * b) b = int (digits_of m) - 1"
    using assms by (simp add: log10_ratio_def)
  have s: "int P - 1 - (int (digits_of m) - 1) = int ?k"
    using le by simp
  have "m * 10 ^ ?k < 10 ^ digits_of m * 10 ^ ?k"
    using digits_of_bounds [of m] assms by simp
  also have "\<dots> = 10 ^ P"
    using le by (simp flip: power_add)
  finally have less: "m * 10 ^ ?k < 10 ^ P" .
  have "m * b * 10 ^ ?k = m * 10 ^ ?k * b" by simp
  then have "round_div (m * b * 10 ^ ?k) b = m * 10 ^ ?k"
    using round_div_exact [OF assms(1)] by metis
  with less have d: "sci_digits P (m * b) b = (m * 10 ^ ?k, int (digits_of m) - 1)"
    unfolding sci_digits_def Let_def x s by simp
  have k: "nat (int P - int (digits_of m)) = ?k" by simp
  show ?thesis
    using le pos assms(3)
    by (auto simp: fmt_mag_def d k with_point_def strip_pad_zeros Let_def
        simp del: pad_zeros.simps)
qed

lemma double_of_int_finite:
  assumes "\<bar>n\<bar> < 2 ^ 53"
  shows "d_finite (double_of_int n)"
proof (cases "n = 0")
  case True
  then show ?thesis by (simp add: d_finite_def d_exp_def d_mag_def double_of_int_def double_of_nat_def)
next
  case False
  have n64: "\<bar>n\<bar> < 2 ^ 64" using assms by simp
  from False show ?thesis
    unfolding d_finite_def d_exp_def double_of_int_mag [OF n64]
    using assms by (intro double_of_nat_exact) auto
qed

lemma fmt_g_int:
  assumes "\<bar>n\<bar> < 2 ^ 53"
  shows "fmt_g 16 (double_of_int n) = dec_int n"
proof -
  define B :: nat where "B = 2 ^ 1074"
  have B: "0 < B" "(2 :: int) ^ 1074 = int B" by (simp_all add: B_def)
  have n64: "\<bar>n\<bar> < 2 ^ 64" using assms by simp
  have sc: "d_scaled (double_of_int n) = n * int B" "\<not> d_nan (double_of_int n)"
    using d_scaled_double_of_int [OF assms] B by simp_all
  have neg: "d_neg (double_of_int n) \<longleftrightarrow> n < 0"
    by (rule double_of_int_mag [OF n64])
  have fin: "d_finite (double_of_int n)"
    using assms by (rule double_of_int_finite)
  have m: "nat \<bar>n * int B\<bar> = nat \<bar>n\<bar> * B"
    by (simp add: abs_mult nat_mult_distrib)
  have m0: "nat \<bar>n\<bar> * B = 0 \<longleftrightarrow> n = 0" using B by simp
  have fm: "fmt_mag 16 (nat \<bar>n\<bar> * B) B = dec_nat (nat \<bar>n\<bar>)" if "n \<noteq> 0"
    using that assms B by (intro fmt_mag_int) auto
  show ?thesis
    unfolding fmt_g_def Let_def sc(1) m B_def [symmetric]
    using sc(2) neg fin fm m0 by (auto simp: dec_int_def dec_nat.simps [of 0] digit_byte_def)
qed

section \<open>Reading an integer\<close>

lemma isdigit_dec_nat: "c \<in> set (dec_nat n) \<Longrightarrow> isdigit c"
  using dec_nat_range [of c n] by (simp add: isdigit_def)

lemma takeWhile_dec_nat:
  assumes "\<not> isdigit c"
  shows "takeWhile isdigit (dec_nat n @ c # r) = dec_nat n"
    and "dropWhile isdigit (dec_nat n @ c # r) = c # r"
  using assms by (simp_all add: takeWhile_append2 dropWhile_append2 isdigit_dec_nat)

lemma dec_nat_hd: obtains c t where "dec_nat n = c # t" "isdigit c"
  using isdigit_dec_nat [of _ n] dec_nat_nonempty [of n]
  by (metis list.exhaust list.set_intros(1))

lemma digit_not_sign_space:
  assumes "isdigit c"
  shows "c \<noteq> 45" "c \<noteq> 43" "\<not> isspace c"
  using assms by (auto simp: isdigit_def isspace_def word_le_nat_alt)

lemma skip_space_dec_int: "skip_space (dec_int n @ r) = dec_int n @ r"
proof (cases "n < 0")
  case True
  then show ?thesis by (simp add: skip_space_def dec_int_def isspace_def)
next
  case False
  obtain c t where "dec_nat (nat n) = c # t" "isdigit c" by (rule dec_nat_hd)
  with False show ?thesis
    by (simp add: skip_space_def dec_int_def digit_not_sign_space)
qed

lemma extractSign_dec_int: "extractSign (dec_int n @ r) = (n < 0, dec_nat (nat \<bar>n\<bar>) @ r)"
proof (cases "n < 0")
  case True
  then show ?thesis by (simp add: extractSign_def dec_int_def)
next
  case False
  obtain c t where "dec_nat (nat n) = c # t" "isdigit c" by (rule dec_nat_hd)
  with False show ?thesis
    by (simp add: extractSign_def dec_int_def digit_not_sign_space)
qed

lemma scan_int_dec_int:
  assumes "\<not> isdigit c"
  shows "scan_int (dec_int n @ c # r) = Some (n < 0, nat \<bar>n\<bar>, c # r)"
  using digits_dec_nat [of "nat \<bar>n\<bar>"]
  by (simp add: scan_int_def skip_space_dec_int extractSign_dec_int takeWhile_dec_nat [OF assms])

lemma scan_int_skip: "isspace c \<Longrightarrow> scan_int (c # s) = scan_int s"
  by (simp add: scan_int_def skip_space_def)

lemma strtoll_dec_int:
  assumes "\<not> isdigit c" "- (2 ^ 63) \<le> n" "n < 2 ^ 63"
  shows "strtoll (dec_int n @ c # r) = (n, c # r, False)"
  using assms by (auto simp: strtoll_def scan_int_dec_int nat_le_iff nat_less_iff)

lemma strtoll_dec_int_end:
  assumes "- (2 ^ 63) \<le> n" "n < 2 ^ 63"
  shows "strtoll (dec_int n) = (n, [], False)"
proof -
  have tw: "takeWhile isdigit (dec_nat m) = dec_nat m" "dropWhile isdigit (dec_nat m) = []" for m
    using isdigit_dec_nat by (auto simp: takeWhile_eq_all_conv)
  have "scan_int (dec_int n) = Some (n < 0, nat \<bar>n\<bar>, [])"
    using digits_dec_nat [of "nat \<bar>n\<bar>"] skip_space_dec_int [of n "[]"] extractSign_dec_int [of n "[]"]
    by (simp add: scan_int_def tw)
  then show ?thesis using assms by (auto simp: strtoll_def nat_le_iff nat_less_iff)
qed

lemma strtoull_dec_nat:
  assumes "\<not> isdigit c" "n < 2 ^ 64"
  shows "strtoull (dec_nat n @ c # r) = (of_nat n, c # r, False)"
  using scan_int_dec_int [OF assms(1), of "int n" r] assms(2)
  by (simp add: strtoull_def dec_int_def)

text \<open>Characters that end an integer for \<open>strtod\<close> too: not a digit, a point, \<open>e\<close>, \<open>E\<close>, \<open>x\<close> or \<open>X\<close>.\<close>

definition ends_number :: "byte \<Rightarrow> bool" where
  "ends_number c \<longleftrightarrow> \<not> isdigit c \<and> c \<noteq> 46 \<and> lower c \<noteq> 101 \<and> lower c \<noteq> 120"

lemma ratio_to_double_nat:
  assumes "m < 2 ^ 64"
  shows "\<not> snd (ratio_to_double m 1)"
proof (cases "m = 0")
  case False
  define k where "k = top_bit m"
  define B :: nat where "B = 2 ^ 1074"
  have k: "k < 64" "2 ^ k \<le> m" "m < 2 ^ Suc k"
    using top_bit_less [of m 64] top_bit_bounds [of m] False assms by (auto simp: k_def)
  have t1: "top_bit (Suc 0) = 0" by (simp add: top_bit.simps)
  have l: "log2_ratio m 1 = int k"
    using k by (simp add: log2_ratio_def Let_def k_def [symmetric] t1)
  define e where "e = int k - 52"
  have e: "max (int k - 52) (-1074) = e" "-52 \<le> e" "e \<le> 11"
    using k by (auto simp: e_def)
  have q: "round_div (if 0 \<le> e then m else m * 2 ^ nat (- e)) (if 0 \<le> e then 1 * 2 ^ nat e else 1) \<le> 2 ^ 53"
  proof (cases "0 \<le> e")
    case True
    have "m div 2 ^ nat e < 2 ^ 53"
    proof (rule less_mult_imp_div_less)
      have "Suc k = 53 + nat e" using True by (simp add: e_def)
      then have "(2 :: nat) ^ Suc k = 2 ^ 53 * 2 ^ nat e"
        by (simp only: power_add)
      then show "m < 2 ^ 53 * 2 ^ nat e" using k by simp
    qed
    then show ?thesis using True by (simp add: round_div_def Let_def)
  next
    case False
    have "m * 2 ^ nat (- e) \<le> 2 ^ Suc k * 2 ^ nat (- e)"
      using k by (intro mult_le_mono) auto
    also have "\<dots> = 2 ^ (Suc k + nat (- e))" by (simp add: power_add)
    also have "Suc k + nat (- e) = 53" using False by (simp add: e_def)
    finally show ?thesis using False by (simp add: round_div_def Let_def)
  qed
  have "nat (e + 1074) \<le> 1085" using e by simp
  then have "nat (e + 1074) * 2 ^ 52 \<le> 1085 * 2 ^ 52" by simp
  have sum: "a \<le> 1085 * 2 ^ 52 \<Longrightarrow> b \<le> 2 ^ 53 \<Longrightarrow> a + b < 2047 * 2 ^ 52" for a b :: nat
    by simp
  have b: "nat (e + 1074) * 2 ^ 52 + round_div (if 0 \<le> e then m else m * 2 ^ nat (- e))
      (if 0 \<le> e then 1 * 2 ^ nat e else 1) < 2047 * 2 ^ 52"
    by (rule sum) fact+
  have t: "\<not> round_div (m * 2 ^ 1075) 1 < 2 ^ 53"
  proof -
    have "(2 :: nat) ^ 53 \<le> 2 ^ 1075" by (rule power_increasing) auto
    also have "\<dots> \<le> m * 2 ^ 1075" using False by simp
    finally show ?thesis unfolding round_div_def Let_def by simp
  qed
  show ?thesis
    unfolding ratio_to_double_def l e(1) Let_def
    using b t False by simp
qed (simp add: ratio_to_double_def)

lemma strtod_dec_int:
  assumes "ends_number c" "\<bar>n\<bar> < 2 ^ 64"
  shows "\<exists>d. strtod (dec_int n @ c # r) = (d, c # r, False)"
proof -
  let ?ds = "dec_nat (nat \<bar>n\<bar>)"
  have c: "\<not> isdigit c" "c \<noteq> 46" "lower c \<noteq> 101" "lower c \<noteq> 120"
    using assms(1) by (auto simp: ends_number_def)
  obtain h t where h: "?ds = h # t" "isdigit h" by (rule dec_nat_hd)
  have lh: "lower h = h" "h \<noteq> 105" "h \<noteq> 110"
    using h(2) by (auto simp: lower_def isdigit_def word_le_nat_alt)
  have lx: "lower y \<noteq> 120" if "isdigit y" for y
    using that by (auto simp: lower_def isdigit_def word_le_nat_alt)
  have notx: "map lower (take 2 (?ds @ c # r)) \<noteq> bs ''0x''"
    using h c lx isdigit_dec_nat [of _ "nat \<bar>n\<bar>"] by (cases t) (auto)
  have noti: "map lower (take 3 (?ds @ c # r)) \<noteq> bs ''inf''" "map lower (take 3 (?ds @ c # r)) \<noteq> bs ''nan''"
    using h lh by (auto simp: numeral_3_eq_3)
  have man: "scan_mantissa isdigit (?ds @ c # r) = (?ds, 0, c # r)"
    using c by (simp add: scan_mantissa_def takeWhile_dec_nat [OF c(1)])
  have ex: "scan_exp 101 (c # r) = (0, c # r)"
    using c by (simp add: scan_exp_def)
  have "nat \<bar>n\<bar> < 2 ^ 64" using assms(2) by (simp add: nat_less_iff)
  then have "\<not> snd (scale_ratio (nat \<bar>n\<bar>) 10 0)"
    using ratio_to_double_nat [of "nat \<bar>n\<bar>"] by (simp add: scale_ratio_def)
  then obtain bits where sr: "scale_ratio (nat \<bar>n\<bar>) 10 0 = (bits, False)"
    by (cases "scale_ratio (nat \<bar>n\<bar>) 10 0") auto
  have "scan_double (?ds @ c # r) = Some (bits, c # r, False)"
    unfolding scan_double_def Let_def
    using notx noti man ex sr digits_dec_nat [of "nat \<bar>n\<bar>"]
    by (simp split: prod.splits)
  then show ?thesis
    by (simp add: strtod_def skip_space_dec_int extractSign_dec_int)
qed

lemma strtod_skip: "isspace c \<Longrightarrow> scan_double (snd (extractSign (skip_space s))) \<noteq> None \<Longrightarrow> strtod (c # s) = strtod s"
  by (auto simp: strtod_def skip_space_def split: prod.splits option.splits)

end
