(* ===== verification/StringUtils.thy ===== *)
theory StringUtils
  imports CNumbers
begin

text \<open>
  The string functions of \<open>util/stringutils.cpp\<close> and \<open>util/stringutils.h\<close>: splitting and joining, and
  the comparison that orders the digits of a name by their numeric value (\<open>LexNumCmp\<close>), with the
  theorem that it is a total preorder.
\<close>

section \<open>Splitting and joining\<close>

text \<open>The loop over \<open>str.find(delim, beg)\<close>, on the part of the string from \<open>beg\<close>.\<close>

function split_loop :: "byte \<Rightarrow> byte list \<Rightarrow> byte list list" where
  "split_loop delim s =
     (case split_at delim s of None \<Rightarrow> [s] | Some (l, r) \<Rightarrow> l # split_loop delim r)"
  by pat_completeness auto
termination
  by (relation "measure (\<lambda>(d, s). length s)") (auto dest: split_at_length)

declare split_loop.simps [simp del]

definition splitStringDelim :: "byte list \<Rightarrow> byte \<Rightarrow> byte list list" where
  "splitStringDelim str delim = (if str = [] then [] else split_loop delim str)"

fun joinStringDelim :: "byte list list \<Rightarrow> byte \<Rightarrow> byte list" where
  "joinStringDelim [] delim = []"
| "joinStringDelim [x] delim = x"
| "joinStringDelim (x # y # xs) delim = x @ [delim] @ joinStringDelim (y # xs) delim"

definition tolowerString :: "byte list \<Rightarrow> byte list" where
  "tolowerString s = takeWhile (\<lambda>c. c \<noteq> 0) (map lower s)"

section \<open>Comparison by words and numbers\<close>

text \<open>What is left of a string from its first digit, the leading zeros of a word skipped.\<close>

definition number_start :: "bool \<Rightarrow> byte list \<Rightarrow> byte list" where
  "number_start startWord s = (if startWord then dropWhile (\<lambda>c. c = 48) s else s)"

definition after_number :: "bool \<Rightarrow> byte list \<Rightarrow> byte list" where
  "after_number startWord s = dropWhile isdigit (number_start startWord s)"

definition number_digits :: "bool \<Rightarrow> byte list \<Rightarrow> byte list" where
  "number_digits startWord s = takeWhile isdigit (number_start startWord s)"

lemma after_number_shorter: "isdigit a \<Longrightarrow> length (after_number sw (a # t)) < Suc (length t)"
proof (cases "sw \<and> a = 48")
  case True
  have "length (dropWhile isdigit (dropWhile (\<lambda>c. c = 48) t)) \<le> length t"
    using length_dropWhile_le le_trans by blast
  with True show ?thesis by (simp add: after_number_def number_start_def)
next
  case False
  assume "isdigit a"
  with False have "after_number sw (a # t) = dropWhile isdigit t"
    by (auto simp: after_number_def number_start_def)
  then show ?thesis using length_dropWhile_le [of isdigit t] by simp
qed

text \<open>
  \<open>LexNumCmp::cmp\<close> on what is left of the two strings.  \<open>strncmp\<close> on two runs of digits of the
  same length compares their bytes.
\<close>

function lexnum_loop :: "bool \<Rightarrow> bool \<Rightarrow> byte list \<Rightarrow> byte list \<Rightarrow> int" where
  "lexnum_loop lexOnly startWord (a # t1) (b # t2) =
     (if a = 46 \<and> b \<noteq> 46 then -1
      else if b = 46 \<and> a \<noteq> 46 then 1
      else if a = 46 \<and> b = 46 then lexnum_loop lexOnly True t1 t2
      else if a = 255 \<and> b \<noteq> 255 then 1
      else if b = 255 \<and> a \<noteq> 255 then -1
      else if \<not> lexOnly \<and> isdigit a \<and> isdigit b then
        (if length (number_digits startWord (a # t1)) > length (number_digits startWord (b # t2)) then 1
         else if length (number_digits startWord (b # t2)) > length (number_digits startWord (a # t1)) then -1
         else if bytes_cmp (number_digits startWord (a # t1)) (number_digits startWord (b # t2)) \<noteq> 0
           then bytes_cmp (number_digits startWord (a # t1)) (number_digits startWord (b # t2))
         else lexnum_loop lexOnly False (after_number startWord (a # t1)) (after_number startWord (b # t2)))
      else if \<not> lexOnly \<and> isdigit a then 1
      else if \<not> lexOnly \<and> isdigit b then -1
      else if sint a > sint b then 1
      else if sint b > sint a then -1
      else lexnum_loop lexOnly False t1 t2)"
| "lexnum_loop lexOnly startWord [] s2 = (if s2 \<noteq> [] \<and> hd s2 \<noteq> 0 then -1 else 0)"
| "lexnum_loop lexOnly startWord (a # t1) [] = (if a \<noteq> 0 then 1 else 0)"
  by pat_completeness auto
termination
  by (relation "measure (\<lambda>(lexOnly, startWord, s1, s2). length s1)") (auto simp only: in_measure split_conv list.size wf_measure after_number_shorter add_Suc_right add_0_right)

declare lexnum_loop.simps(1) [simp del]

definition LexNumCmp_cmp :: "byte list \<Rightarrow> byte list \<Rightarrow> bool \<Rightarrow> int" where
  "LexNumCmp_cmp s1 s2 lexOnly = lexnum_loop lexOnly True s1 s2"

definition LexNumCmp_less :: "bool \<Rightarrow> byte list \<Rightarrow> byte list \<Rightarrow> bool" where
  "LexNumCmp_less lexOnly s1 s2 = (LexNumCmp_cmp s1 s2 lexOnly < 0)"

text \<open>\<open>strncmp\<close> on strings given by their bytes, a zero ending both.\<close>

fun strncmp_eq :: "byte list \<Rightarrow> byte list \<Rightarrow> nat \<Rightarrow> bool" where
  "strncmp_eq l r 0 = True"
| "strncmp_eq (a # l) (b # r) (Suc n) = (a = b \<and> (a = 0 \<or> strncmp_eq l r n))"
| "strncmp_eq _ _ (Suc n) = False"

definition versionCmp :: "byte list \<Rightarrow> byte list \<Rightarrow> int" where
  "versionCmp rhs lhs =
     (if rhs = lhs then 0
      else if length rhs < length lhs \<and> strncmp_eq rhs lhs (length rhs) \<and> lhs ! length rhs = 45 then 1
      else if length rhs > length lhs \<and> strncmp_eq rhs lhs (length lhs) \<and> rhs ! length lhs = 45 then -1
      else LexNumCmp_cmp rhs lhs False)"

section \<open>Dotted names\<close>

datatype FieldCompareResult = LEFT_SUBFIELD | LEFT_BEFORE | SAME | RIGHT_BEFORE | RIGHT_SUBFIELD

text \<open>
  \<open>compareDottedFieldNames\<close> on what is left of the two names: the part before the next dot and what
  follows it.  A dot at the very end leaves nothing.  The parts are passed on as C strings.
\<close>

definition next_part :: "byte list \<Rightarrow> byte list \<times> byte list" where
  "next_part s = (case split_at 46 s of None \<Rightarrow> (s, []) | Some (c, rest) \<Rightarrow> (c, rest))"

fun compareDotted_loop ::
  "(byte list \<Rightarrow> byte list \<Rightarrow> int) \<Rightarrow> nat \<Rightarrow> byte list \<Rightarrow> byte list \<Rightarrow> FieldCompareResult res" where
  "compareDotted_loop cmp 0 l r = Inl VerifyFailed"
| "compareDotted_loop cmp (Suc loops) l r =
     (let (c, l') = next_part l;
          (d, r') = next_part r;
          x = cmp (takeWhile (\<lambda>b. b \<noteq> 0) c) (takeWhile (\<lambda>b. b \<noteq> 0) d)
      in if x < 0 then Inr LEFT_BEFORE
         else if x > 0 then Inr RIGHT_BEFORE
         else if l' = [] then Inr (if r' = [] then SAME else RIGHT_SUBFIELD)
         else if r' = [] then Inr LEFT_SUBFIELD
         else compareDotted_loop cmp loops l' r')"

definition maxLoops :: nat where
  "maxLoops = 1024 * 1024"

definition compareDottedFieldNames :: "byte list \<Rightarrow> byte list \<Rightarrow> bool \<Rightarrow> FieldCompareResult res" where
  "compareDottedFieldNames l r lexOnly =
     compareDotted_loop (\<lambda>c d. LexNumCmp_cmp c d lexOnly) maxLoops l r"

section \<open>Splitting and joining are inverse\<close>

lemma split_loop_not_Nil [simp]: "split_loop delim s \<noteq> []"
  by (subst split_loop.simps) (simp split: option.splits prod.splits)

lemma join_Cons: "xs \<noteq> [] \<Longrightarrow> joinStringDelim (x # xs) delim = x @ delim # joinStringDelim xs delim"
  by (cases xs) simp_all

lemma join_split_loop: "joinStringDelim (split_loop delim s) delim = s"
proof (induction delim s rule: split_loop.induct)
  case (1 delim s)
  show ?case
  proof (cases "split_at delim s")
    case None
    then show ?thesis by (simp add: split_loop.simps [of delim s])
  next
    case (Some lr)
    obtain l r where lr: "lr = (l, r)" by (cases lr)
    then have "s = l @ delim # r" using Some split_at_Some by blast
    moreover have "joinStringDelim (split_loop delim r) delim = r" using 1 Some lr by blast
    moreover have "split_loop delim s = l # split_loop delim r"
      using Some lr by (simp add: split_loop.simps [of delim s])
    ultimately show ?thesis by (simp add: join_Cons)
  qed
qed

lemma split_at_absent: "c \<notin> set l \<Longrightarrow> split_at c (l @ c # r) = Some (l, r)" "c \<notin> set l \<Longrightarrow> split_at c l = None"
  by (induction l) auto

lemma split_loop_join:
  assumes "xs \<noteq> []" "\<forall>x \<in> set xs. delim \<notin> set x"
  shows "split_loop delim (joinStringDelim xs delim) = xs"
  using assms
proof (induction xs)
  case (Cons x xs)
  show ?case
  proof (cases "xs = []")
    case True
    then show ?thesis using Cons.prems by (simp add: split_loop.simps [of delim x] split_at_absent)
  next
    case False
    then show ?thesis
      using Cons split_loop.simps [of delim "joinStringDelim (x # xs) delim"] by (simp add: join_Cons split_at_absent)
  qed
qed simp

section \<open>The comparison is a total preorder\<close>

text \<open>The tokens of a string, as keys whose lexicographic order is that of \<open>LexNumCmp\<close>.\<close>

function lex_tokens :: "bool \<Rightarrow> bool \<Rightarrow> byte list \<Rightarrow> int list list" where
  "lex_tokens lexOnly startWord [] = []"
| "lex_tokens lexOnly startWord (a # t) =
     (if a = 46 then [0] # lex_tokens lexOnly True t
      else if a = 255 then [3] # lex_tokens lexOnly False t
      else if \<not> lexOnly \<and> isdigit a then
        (2 # int (length (number_digits startWord (a # t))) # map uint (number_digits startWord (a # t))) #
          lex_tokens lexOnly False (after_number startWord (a # t))
      else [1, sint a] # lex_tokens lexOnly False t)"
  by pat_completeness auto
termination
  by (relation "measure (\<lambda>(lexOnly, startWord, s). length s)")
     (auto simp only: in_measure split_conv list.size wf_measure after_number_shorter add_Suc_right add_0_right)

declare lex_tokens.simps(2) [simp del]

abbreviation int_cmp :: "int \<Rightarrow> int \<Rightarrow> int" where
  "int_cmp \<equiv> cmp_key (\<lambda>n. n)"

abbreviation token_cmp :: "int list \<Rightarrow> int list \<Rightarrow> int" where
  "token_cmp \<equiv> lex_cmp int_cmp"

interpretation token_order: weak_cmp "lex_cmp token_cmp"
  by (rule weak_cmp_lex, rule weak_cmp_lex, rule by_key.weak_cmp_axioms)

lemma int_cmp_simps [simp]:
  "int_cmp x x = 0" "x < y \<Longrightarrow> int_cmp x y = -1" "y < x \<Longrightarrow> int_cmp x y = 1"
  by (simp_all add: cmp_key_def)

lemma lex_cmp_map: "lex_cmp c (map f xs) (map f ys) = lex_cmp (\<lambda>x y. c (f x) (f y)) xs ys"
proof (induction xs arbitrary: ys)
  case Nil
  then show ?case by (cases ys) simp_all
next
  case (Cons x xs)
  then show ?case by (cases ys) simp_all
qed

lemma bytes_cmp_uint: "token_cmp (map uint xs) (map uint ys) = bytes_cmp xs ys"
proof -
  have "int_cmp (uint a) (uint b) = byte_cmp a b" for a b :: byte
  proof -
    have "uint a = int (unat a)" "uint b = int (unat b)" by simp_all
    then have "uint a < uint b \<longleftrightarrow> unat a < unat b" "uint a = uint b \<longleftrightarrow> unat a = unat b" by linarith+
    then show ?thesis unfolding byte_cmp_def cmp_key_def by simp
  qed
  then show ?thesis by (simp add: lex_cmp_map bytes_cmp_def)
qed

lemma isdigit_special: "\<not> isdigit 46" "\<not> isdigit 255"
  by (simp_all add: isdigit_def)

lemma token_cases:
  "lex_tokens lo sw (46 # t) = [0] # lex_tokens lo True t"
  "lex_tokens lo sw (255 # t) = [3] # lex_tokens lo False t"
  "\<not> lo \<Longrightarrow> isdigit a \<Longrightarrow> lex_tokens lo sw (a # t) =
     (2 # int (length (number_digits sw (a # t))) # map uint (number_digits sw (a # t))) #
      lex_tokens lo False (after_number sw (a # t))"
  "a \<noteq> 46 \<Longrightarrow> a \<noteq> 255 \<Longrightarrow> lo \<or> \<not> isdigit a \<Longrightarrow> lex_tokens lo sw (a # t) = [1, sint a] # lex_tokens lo False t"
  using isdigit_special by (auto simp: lex_tokens.simps(2))

lemma token_head:
  obtains (dot) xs where "a = 46" "lex_tokens lo sw (a # t) = [0] # xs"
  | (top) "a = 255" "lex_tokens lo sw (a # t) = [3] # lex_tokens lo False t"
  | (num) ks xs where "a \<noteq> 46" "a \<noteq> 255" "\<not> lo" "isdigit a" "lex_tokens lo sw (a # t) = (2 # ks) # xs"
  | (chr) "a \<noteq> 46" "a \<noteq> 255" "lo \<or> \<not> isdigit a"
      "lex_tokens lo sw (a # t) = [1, sint a] # lex_tokens lo False t"
proof -
  consider "a = 46" | "a = 255" | "a \<noteq> 46" "a \<noteq> 255" "\<not> lo" "isdigit a" | "a \<noteq> 46" "a \<noteq> 255" "lo \<or> \<not> isdigit a"
    by blast
  then show thesis
    by cases (use token_cases that in simp_all)
qed

lemma token_cmp_numbers:
  "token_cmp (2 # int (length xs) # map uint xs) (2 # int (length ys) # map uint ys) =
     (if length xs > length ys then 1 else if length ys > length xs then -1 else bytes_cmp xs ys)"
  by (cases "length xs" "length ys" rule: linorder_cases) (simp_all add: bytes_cmp_uint)

lemma nul_free_after_number: "nul_free s \<Longrightarrow> nul_free (after_number sw s)"
  unfolding nul_free_def after_number_def number_start_def by (auto dest!: set_dropWhileD split: if_splits)

lemma lexnum_head:
  assumes "a \<noteq> 46 \<or> b \<noteq> 46" "\<not> (\<not> lo \<and> isdigit a \<and> isdigit b)"
    and "a = b \<Longrightarrow> sgn (lexnum_loop lo False t1 t2) = sgn (lex_cmp token_cmp (lex_tokens lo False t1) (lex_tokens lo False t2))"
  shows "sgn (lexnum_loop lo sw (a # t1) (b # t2)) =
    sgn (lex_cmp token_cmp (lex_tokens lo sw (a # t1)) (lex_tokens lo sw (b # t2)))"
proof -
  have l: "lexnum_loop lo sw (a # t1) (b # t2) =
    (if a = 46 then -1 else if b = 46 then 1
     else if a = 255 \<and> b \<noteq> 255 then 1 else if b = 255 \<and> a \<noteq> 255 then -1
     else if \<not> lo \<and> isdigit a then 1 else if \<not> lo \<and> isdigit b then -1
     else if sint a > sint b then 1 else if sint b > sint a then -1
     else lexnum_loop lo False t1 t2)"
  proof (cases "a = 46 \<or> b = 46")
    case True
    then show ?thesis using assms(1) by (subst lexnum_loop.simps(1)) (elim disjE, simp_all)
  next
    case False
    then show ?thesis using assms(2) by (subst lexnum_loop.simps(1)) (simp only: de_Morgan_disj simp_thms if_False if_True)
  qed
  show ?thesis
  proof (cases "a \<noteq> 46 \<and> b \<noteq> 46 \<and> a \<noteq> 255 \<and> b \<noteq> 255 \<and> (lo \<or> \<not> isdigit a) \<and> (lo \<or> \<not> isdigit b)")
    case True
    then have "(a = 46) = False" "(b = 46) = False" "(a = 255) = False" "(b = 255) = False"
      "(\<not> lo \<and> isdigit a) = False" "(\<not> lo \<and> isdigit b) = False"
      by blast+
    then have l': "lexnum_loop lo sw (a # t1) (b # t2) =
        (if sint a > sint b then 1 else if sint b > sint a then -1 else lexnum_loop lo False t1 t2)"
      unfolding l by (simp only: if_False simp_thms)
    have t: "lex_tokens lo sw (a # t1) = [1, sint a] # lex_tokens lo False t1"
      "lex_tokens lo sw (b # t2) = [1, sint b] # lex_tokens lo False t2"
      using True by (simp_all add: token_cases(4))
    show ?thesis
    proof (cases "sint a" "sint b" rule: linorder_cases)
      case equal
      then have "a = b" by (rule signed_word_eqI)
      then show ?thesis using l' t assms(3) by simp
    qed (simp_all add: l' t)
  next
    case False
    show ?thesis
    proof (cases rule: token_head [of a lo sw t1])
      case a: dot
      show ?thesis using assms(1,2) a unfolding l by (cases rule: token_head [of b lo sw t2]) simp_all
    next
      case a: (top)
      show ?thesis using assms a isdigit_special unfolding l by (cases rule: token_head [of b lo sw t2]) simp_all
    next
      case a: (num)
      show ?thesis using assms(1,2) a unfolding l by (cases rule: token_head [of b lo sw t2]) simp_all
    next
      case a: (chr)
      show ?thesis using False assms(1,2) a unfolding l by (cases rule: token_head [of b lo sw t2]) simp_all
    qed
  qed
qed

lemma choose_sgn:
  fixes l1 l2 :: nat and c r r' :: int
  assumes "x = (if l1 > l2 then 1 else if l2 > l1 then -1 else if c \<noteq> 0 then c else r)"
    and "t = (if l1 > l2 then 1 else if l2 > l1 then -1 else c)" "sgn r = sgn r'"
  shows "sgn x = sgn (if t \<noteq> 0 then t else r')"
  using assms by auto

lemma lexnum_tokens:
  "nul_free s1 \<Longrightarrow> nul_free s2 \<Longrightarrow>
    sgn (lexnum_loop lo sw s1 s2) = sgn (lex_cmp token_cmp (lex_tokens lo sw s1) (lex_tokens lo sw s2))"
proof (induction "length s1" arbitrary: s1 s2 sw rule: less_induct)
  case less
  show ?case
  proof (cases s1; cases s2)
    fix b t
    assume "s1 = []" "s2 = b # t"
    with less.prems show ?thesis by (cases rule: token_head [of b lo sw t]) simp_all
  next
    fix a t
    assume "s1 = a # t" "s2 = []"
    with less.prems show ?thesis by (cases rule: token_head [of a lo sw t]) simp_all
  next
    fix a t1 b t2
    assume s: "s1 = a # t1" "s2 = b # t2"
    have nt: "nul_free t1" "nul_free t2" using less.prems s by simp_all
    consider (dots) "a = 46" "b = 46" | (num) "\<not> lo" "isdigit a" "isdigit b"
      | (other) "a \<noteq> 46 \<or> b \<noteq> 46" "\<not> (\<not> lo \<and> isdigit a \<and> isdigit b)" by blast
    then show ?thesis
    proof cases
      case dots
      have "lexnum_loop lo sw s1 s2 = lexnum_loop lo True t1 t2"
        unfolding s using dots by (subst lexnum_loop.simps(1)) simp
      then show ?thesis
        using less.hyps [of t1 t2 True] nt s dots by (simp add: token_cases(1))
    next
      case num
      have e: "a \<noteq> 46" "a \<noteq> 255" "b \<noteq> 46" "b \<noteq> 255" using num isdigit_special by auto
      have ih: "sgn (lexnum_loop lo False (after_number sw s1) (after_number sw s2)) =
          sgn (lex_cmp token_cmp (lex_tokens lo False (after_number sw s1)) (lex_tokens lo False (after_number sw s2)))"
        using after_number_shorter [OF num(2), of sw t1] less.prems s
        by (intro less.hyps nul_free_after_number) simp_all
      have "lexnum_loop lo sw s1 s2 =
        (if length (number_digits sw s1) > length (number_digits sw s2) then 1
         else if length (number_digits sw s2) > length (number_digits sw s1) then -1
         else if bytes_cmp (number_digits sw s1) (number_digits sw s2) \<noteq> 0 then bytes_cmp (number_digits sw s1) (number_digits sw s2)
         else lexnum_loop lo False (after_number sw s1) (after_number sw s2))"
        unfolding s using num e by (subst lexnum_loop.simps(1)) (simp only: simp_thms if_True if_False)
      from choose_sgn [OF this token_cmp_numbers ih] show ?thesis
        using token_cases(3) [OF num(1,2), of sw t1] token_cases(3) [OF num(1,3), of sw t2]
        unfolding s [symmetric] by (simp only: lex_cmp.simps(4) [of token_cmp])
    next
      case other
      then show ?thesis unfolding s using less.hyps [of t1 t2 False] nt s by (intro lexnum_head) simp_all
    qed
  qed simp
qed

lemma LexNumCmp_tokens:
  assumes "nul_free s1" "nul_free s2"
  shows "sgn (LexNumCmp_cmp s1 s2 lo) = sgn (lex_cmp token_cmp (lex_tokens lo True s1) (lex_tokens lo True s2))"
  unfolding LexNumCmp_cmp_def using assms by (rule lexnum_tokens)

section \<open>Numbers compare by their value\<close>

lemma digit_value_digit:
  fixes c :: byte
  shows "isdigit c \<Longrightarrow> digitValue c = uint c - 48 \<and> 48 \<le> uint c \<and> uint c \<le> 57"
  by (simp add: isdigit_def digitValue_def word_le_def)

lemma digits_value_acc: "digits_value 10 n s = n * 10 ^ length s + digits_value 10 0 s"
proof (induction s arbitrary: n)
  case (Cons c s)
  from Cons [of "n * 10 + digitValue c"] Cons [of "digitValue c"] show ?case by (simp add: algebra_simps)
qed simp

lemma digits_value_less:
  assumes "\<forall>c \<in> set s. isdigit c"
  shows "0 \<le> digits_value 10 0 s \<and> digits_value 10 0 s < 10 ^ length s"
  using assms
proof (induction s)
  case (Cons c s)
  then have "digitValue c \<le> 9" "0 \<le> digitValue c" using digit_value_digit [of c] by auto
  moreover have "digits_value 10 0 (c # s) = digitValue c * 10 ^ length s + digits_value 10 0 s"
    using digits_value_acc [of "digitValue c" s] by simp
  moreover have "digitValue c * 10 ^ length s \<le> 9 * 10 ^ length s"
    using calculation(1) by (intro mult_right_mono) simp_all
  moreover have "0 \<le> digitValue c * 10 ^ length s" using calculation(2) by simp
  moreover have "0 \<le> digits_value 10 0 s \<and> digits_value 10 0 s < 10 ^ length s" using Cons by simp
  moreover have "(10::int) ^ length (c # s) = 9 * 10 ^ length s + 10 ^ length s" by simp
  ultimately show ?case by linarith
qed simp

lemma bytes_cmp_digits:
  assumes "length xs = length ys" "\<forall>c \<in> set xs. isdigit c" "\<forall>c \<in> set ys. isdigit c"
  shows "sgn (bytes_cmp xs ys) = sgn (digits_value 10 0 xs - digits_value 10 0 ys)"
  using assms
proof (induction xs ys rule: list_induct2)
  case (Cons x xs y ys)
  have v: "digits_value 10 0 (x # xs) - digits_value 10 0 (y # ys) =
      (digitValue x - digitValue y) * 10 ^ length ys + (digits_value 10 0 xs - digits_value 10 0 ys)"
    using digits_value_acc [of "digitValue x" xs] digits_value_acc [of "digitValue y" ys] Cons.hyps
    by (simp add: algebra_simps)
  have b: "\<bar>digits_value 10 0 xs - digits_value 10 0 ys\<bar> < 10 ^ length ys"
    using digits_value_less [of xs] digits_value_less [of ys] Cons.prems Cons.hyps by (auto simp: abs_if)
  have dx: "digitValue x = uint x - 48" "digitValue y = uint y - 48"
    using Cons.prems digit_value_digit by auto
  consider (eq) "x = y" | (less) "uint x < uint y" | (greater) "uint y < uint x"
    using word_uint_eq_iff [of x y] by linarith
  then show ?case
  proof cases
    case eq
    then show ?thesis using Cons v by simp
  next
    case less
    then have "(digitValue x - digitValue y) * 10 ^ length ys \<le> (-1) * 10 ^ length ys"
      unfolding dx by (intro mult_right_mono) simp_all
    then have "digits_value 10 0 (x # xs) - digits_value 10 0 (y # ys) < 0" using v b by linarith
    moreover have "bytes_cmp (x # xs) (y # ys) = -1"
      using less by (simp flip: bytes_cmp_uint)
    ultimately show ?thesis by simp
  next
    case greater
    then have "1 * 10 ^ length ys \<le> (digitValue x - digitValue y) * 10 ^ length ys"
      unfolding dx by (intro mult_right_mono) simp_all
    then have "digits_value 10 0 (x # xs) - digits_value 10 0 (y # ys) > 0" using v b by linarith
    moreover have "bytes_cmp (x # xs) (y # ys) = 1"
      using greater by (simp flip: bytes_cmp_uint)
    ultimately show ?thesis by simp
  qed
qed simp

lemma skip_zeros_value: "digits_value 10 0 (dropWhile (\<lambda>c. c = 48) s) = digits_value 10 0 s"
  by (induction s) (simp_all add: digitValue_def)

lemma digits_value_ge:
  assumes "s \<noteq> []" "hd s \<noteq> 48" "\<forall>c \<in> set s. isdigit c"
  shows "10 ^ (length s - 1) \<le> digits_value 10 0 s"
proof -
  obtain c t where s: "s = c # t" using assms(1) by (cases s) auto
  have "uint c \<noteq> 48" using assms(2) s word_uint_eq_iff [of c 48] by simp
  then have "1 \<le> digitValue c" using digit_value_digit [of c] assms(3) s by auto
  then have "1 * 10 ^ length t \<le> digitValue c * 10 ^ length t" by (intro mult_right_mono) simp_all
  moreover have "digits_value 10 0 s = digitValue c * 10 ^ length t + digits_value 10 0 t"
    using digits_value_acc [of "digitValue c" t] s by simp
  moreover have "0 \<le> digits_value 10 0 t" using digits_value_less [of t] assms(3) s by simp
  moreover have "length s - 1 = length t" using s by simp
  ultimately show ?thesis by (simp only: mult_1)
qed

lemma shorter_number_less:
  assumes "length ys < length xs" "hd xs \<noteq> 48" "\<forall>c \<in> set xs. isdigit c" "\<forall>c \<in> set ys. isdigit c"
  shows "digits_value 10 0 ys < digits_value 10 0 xs"
proof -
  have "digits_value 10 0 ys < 10 ^ length ys" using digits_value_less [OF assms(4)] by simp
  also have "\<dots> \<le> 10 ^ (length xs - 1)" using assms(1) by (intro power_increasing) simp_all
  also have "\<dots> \<le> digits_value 10 0 xs" using assms by (intro digits_value_ge) auto
  finally show ?thesis .
qed

lemma lexnum_numbers:
  assumes "\<forall>c \<in> set xs. isdigit c" "\<forall>c \<in> set ys. isdigit c" "xs \<noteq> []" "ys \<noteq> []"
  shows "sgn (LexNumCmp_cmp xs ys False) = sgn (digits_value 10 0 xs - digits_value 10 0 ys)"
proof -
  let ?x = "number_digits True xs" and ?y = "number_digits True ys"
  have nd: "number_digits True s = dropWhile (\<lambda>c. c = 48) s" "after_number True s = []" if "\<forall>c \<in> set s. isdigit c" for s
    using that set_dropWhileD [of _ "\<lambda>c. c = 48" s]
    by (auto simp: number_digits_def after_number_def number_start_def takeWhile_eq_all_conv dropWhile_eq_Nil_conv)
  have val: "digits_value 10 0 ?x = digits_value 10 0 xs" "digits_value 10 0 ?y = digits_value 10 0 ys"
    using nd(1) assms(1,2) by (simp_all add: skip_zeros_value)
  have dig: "\<forall>c \<in> set ?x. isdigit c" "\<forall>c \<in> set ?y. isdigit c"
    by (auto simp: number_digits_def dest: set_takeWhileD)
  have hd: "?x \<noteq> [] \<Longrightarrow> hd ?x \<noteq> 48" "?y \<noteq> [] \<Longrightarrow> hd ?y \<noteq> 48"
    using nd(1) assms(1,2) hd_dropWhile [of "\<lambda>c. c = 48"] by simp_all
  obtain a t1 b t2 where s: "xs = a # t1" "ys = b # t2" using assms(3,4) by (cases xs; cases ys) auto
  then have num: "isdigit a" "isdigit b" using assms(1,2) by simp_all
  then have e: "a \<noteq> 46" "a \<noteq> 255" "b \<noteq> 46" "b \<noteq> 255" using isdigit_special by auto
  have "LexNumCmp_cmp xs ys False =
      (if length ?x > length ?y then 1 else if length ?y > length ?x then -1
       else if bytes_cmp ?x ?y \<noteq> 0 then bytes_cmp ?x ?y
       else lexnum_loop False False (after_number True xs) (after_number True ys))"
    unfolding LexNumCmp_cmp_def s using num e by (subst lexnum_loop.simps(1)) (simp only: simp_thms if_True if_False)
  then have l: "LexNumCmp_cmp xs ys False =
      (if length ?x > length ?y then 1 else if length ?y > length ?x then -1 else bytes_cmp ?x ?y)"
    using nd(2) assms(1,2) by simp
  show ?thesis
  proof (cases "length ?x" "length ?y" rule: linorder_cases)
    case less
    then have "?y \<noteq> []" by auto
    then show ?thesis using less l shorter_number_less [OF less hd(2) dig(2,1)] val by simp
  next
    case equal
    then show ?thesis using l bytes_cmp_digits [OF equal dig] val by simp
  next
    case greater
    then have "?x \<noteq> []" by auto
    then show ?thesis using greater l shorter_number_less [OF greater hd(1) dig] val by simp
  qed
qed

section \<open>Dotted names compare part by part\<close>

text \<open>The parts of a dotted name; an empty part after the last dot does not count.\<close>

definition name_parts :: "byte list \<Rightarrow> byte list list" where
  "name_parts s =
     (let ps = split_loop 46 s in if 1 < length ps \<and> last ps = [] then butlast ps else ps)"

fun compare_parts :: "(byte list \<Rightarrow> byte list \<Rightarrow> int) \<Rightarrow> byte list list \<Rightarrow> byte list list \<Rightarrow> FieldCompareResult" where
  "compare_parts cmp (c # cs) (d # ds) =
     (let x = cmp (takeWhile (\<lambda>b. b \<noteq> 0) c) (takeWhile (\<lambda>b. b \<noteq> 0) d)
      in if x < 0 then LEFT_BEFORE else if x > 0 then RIGHT_BEFORE
         else if cs = [] \<or> ds = [] then (if cs = [] \<and> ds = [] then SAME else if cs = [] then RIGHT_SUBFIELD else LEFT_SUBFIELD)
         else compare_parts cmp cs ds)"
| "compare_parts cmp _ _ = SAME"

lemma name_parts_next:
  assumes "next_part s = (c, t)"
  shows "name_parts s = c # (if t = [] then [] else name_parts t)" "t = [] \<or> length t < length s"
proof -
  show "t = [] \<or> length t < length s"
    using assms by (auto simp: next_part_def dest: split_at_length split: option.splits)
  show "name_parts s = c # (if t = [] then [] else name_parts t)"
  proof (cases "split_at 46 s")
    case None
    then have "c = s" "t = []" using assms by (simp_all add: next_part_def)
    moreover have "split_loop 46 s = [s]" using None by (subst split_loop.simps) simp
    ultimately show ?thesis by (simp add: name_parts_def)
  next
    case (Some ct)
    then have "split_loop 46 s = c # split_loop 46 t"
      using assms by (simp add: next_part_def split_loop.simps [of 46 s])
    moreover have "split_loop 46 [] = [[]]" by (simp add: split_loop.simps)
    moreover have "split_loop 46 t = [[]] \<Longrightarrow> t = []" using join_split_loop [of 46 t] by simp
    moreover have "\<not> 1 < length xs \<Longrightarrow> xs = [] \<or> xs = [last xs]" for xs :: "byte list list"
      by (cases xs) auto
    moreover have "split_loop 46 t \<noteq> []" by (subst split_loop.simps) (simp split: option.splits)
    ultimately show ?thesis
      by (cases "t = []"; cases "1 < length (split_loop 46 t)") (fastforce simp: name_parts_def Let_def)+
  qed
qed

lemma compareDotted_parts:
  "length l < n \<Longrightarrow> compareDotted_loop cmp n l r = Inr (compare_parts cmp (name_parts l) (name_parts r))"
proof (induction n arbitrary: l r)
  case (Suc n)
  obtain c l' d r' where p: "next_part l = (c, l')" "next_part r = (d, r')" by (cases "next_part l"; cases "next_part r")
  note n = name_parts_next [OF p(1)] name_parts_next [OF p(2)]
  have ne: "name_parts s \<noteq> []" for s
    using name_parts_next(1) [of s "fst (next_part s)" "snd (next_part s)"] by simp
  show ?case
  proof (cases "l' = [] \<or> r' = []")
    case True
    then show ?thesis using ne by (auto simp: p n Let_def)
  next
    case False
    then have "length l' < n" using n(2) Suc.prems by simp
    from Suc.IH [OF this] False show ?thesis using ne by (simp add: p n Let_def)
  qed
qed simp

section \<open>Properties\<close>

text \<open>Splitting and joining are inverse to each other.\<close>

lemma split_join:
  "joinStringDelim (splitStringDelim s delim) delim = s \<and>
   (xs \<noteq> [] \<longrightarrow> xs \<noteq> [[]] \<longrightarrow> (\<forall>x \<in> set xs. delim \<notin> set x) \<longrightarrow>
      splitStringDelim (joinStringDelim xs delim) delim = xs)"
proof -
  have "joinStringDelim xs delim = [] \<Longrightarrow> xs = [] \<or> xs = [[]]" for xs
    by (induction xs delim rule: joinStringDelim.induct) auto
  then show ?thesis
    by (auto simp: splitStringDelim_def join_split_loop split_loop_join)
qed

text \<open>
  C30: \<open>LexNumCmp\<close> is a total preorder on strings without a zero byte: swapping the arguments flips the
  sign, \<open>\<le>\<close> is transitive, and with it equivalence.
\<close>

theorem LexNumCmp_preorder:
  assumes "nul_free x" "nul_free y" "nul_free z"
  shows "sgn (LexNumCmp_cmp y x lexOnly) = - sgn (LexNumCmp_cmp x y lexOnly) \<and>
    (LexNumCmp_cmp x y lexOnly \<le> 0 \<longrightarrow> LexNumCmp_cmp y z lexOnly \<le> 0 \<longrightarrow> LexNumCmp_cmp x z lexOnly \<le> 0)"
proof -
  let ?t = "lex_tokens lexOnly True"
  have le: "LexNumCmp_cmp u v lexOnly \<le> 0 \<longleftrightarrow> lex_cmp token_cmp (?t u) (?t v) \<le> 0" if "nul_free u" "nul_free v" for u v
    using LexNumCmp_tokens [OF that, of lexOnly] by (simp add: sgn_if split: if_splits)
  show ?thesis
    using assms token_order.cmp_swap [of "?t y" "?t x"] token_order.cmp_le_trans [of "?t x" "?t y" "?t z"]
    by (simp add: le LexNumCmp_tokens)
qed

theorem LexNumCmp_preorder_witness:
  "sgn (LexNumCmp_cmp (bs ''a10'') (bs ''a9'') False) = - sgn (LexNumCmp_cmp (bs ''a9'') (bs ''a10'') False)"
  using LexNumCmp_preorder [of "bs ''a9''" "bs ''a10''" "bs ''a''" False] by simp



text \<open>
  C29: \<open>compareDottedFieldNames\<close> computes the comparison of the two lists of parts, one part at a time:
  within its bound on the number of parts the scan over the characters gives the same result as
  splitting both names first.
\<close>

theorem compareDotted_equiv:
  assumes "length l < maxLoops"
  shows "compareDottedFieldNames l r lexOnly =
    Inr (compare_parts (\<lambda>c d. LexNumCmp_cmp c d lexOnly) (name_parts l) (name_parts r))"
  unfolding compareDottedFieldNames_def using assms by (rule compareDotted_parts)

theorem compareDotted_equiv_witness:
  "compareDottedFieldNames (bs ''a.b'') (bs ''a'') False =
    Inr (compare_parts (\<lambda>c d. LexNumCmp_cmp c d False) (name_parts (bs ''a.b'')) (name_parts (bs ''a'')))"
  by (rule compareDotted_equiv) (simp add: maxLoops_def)

end
