(* ===== verification/BsonTypes.thy ===== *)
theory BsonTypes
  imports Prelude
begin

text \<open>
  The element types of BSON (\<open>bson/bsontypes.h\<close>): the enumeration \<open>BSONType\<close> with its numeric
  codes, the name of each type (\<open>typeName\<close> of \<open>db/jsobj.cpp\<close>) and the position of each type in
  the sort order (\<open>canonicalizeBSONType\<close>).  A type byte that is none of the enumerators is kept as
  \<open>BadType\<close> with its value, because the source casts the byte without a check.
\<close>

datatype BSONType =
    MinKey
  | EOO
  | NumberDouble
  | String
  | Object
  | Array
  | BinData
  | Undefined
  | jstOID
  | Bool
  | Date
  | jstNULL
  | RegEx
  | DBRef
  | Code
  | Symbol
  | CodeWScope
  | NumberInt
  | Timestamp
  | NumberLong
  | MaxKey
  | BadType int

fun type_code :: "BSONType \<Rightarrow> int" where
  "type_code MinKey = -1"
| "type_code EOO = 0"
| "type_code NumberDouble = 1"
| "type_code String = 2"
| "type_code Object = 3"
| "type_code Array = 4"
| "type_code BinData = 5"
| "type_code Undefined = 6"
| "type_code jstOID = 7"
| "type_code Bool = 8"
| "type_code Date = 9"
| "type_code jstNULL = 10"
| "type_code RegEx = 11"
| "type_code DBRef = 12"
| "type_code Code = 13"
| "type_code Symbol = 14"
| "type_code CodeWScope = 15"
| "type_code NumberInt = 16"
| "type_code Timestamp = 17"
| "type_code NumberLong = 18"
| "type_code MaxKey = 127"
| "type_code (BadType n) = n"

text \<open>The cast of a number to the enumeration.\<close>

definition type_of_code :: "int \<Rightarrow> BSONType" where
  "type_of_code n =
     (if n = -1 then MinKey
      else if n = 0 then EOO
      else if n = 1 then NumberDouble
      else if n = 2 then String
      else if n = 3 then Object
      else if n = 4 then Array
      else if n = 5 then BinData
      else if n = 6 then Undefined
      else if n = 7 then jstOID
      else if n = 8 then Bool
      else if n = 9 then Date
      else if n = 10 then jstNULL
      else if n = 11 then RegEx
      else if n = 12 then DBRef
      else if n = 13 then Code
      else if n = 14 then Symbol
      else if n = 15 then CodeWScope
      else if n = 16 then NumberInt
      else if n = 17 then Timestamp
      else if n = 18 then NumberLong
      else if n = 127 then MaxKey
      else BadType n)"

text \<open>The byte \<open>(char) t\<close> a builder writes for a type.\<close>

definition type_byte :: "BSONType \<Rightarrow> byte" where
  "type_byte t = word_of_int (type_code t)"

fun valid_type :: "BSONType \<Rightarrow> bool" where
  "valid_type (BadType n) = False"
| "valid_type t = True"

fun canonicalizeBSONType :: "BSONType \<Rightarrow> int res" where
  "canonicalizeBSONType MinKey = Inr (-1)"
| "canonicalizeBSONType MaxKey = Inr 127"
| "canonicalizeBSONType EOO = Inr 0"
| "canonicalizeBSONType Undefined = Inr 0"
| "canonicalizeBSONType jstNULL = Inr 5"
| "canonicalizeBSONType NumberDouble = Inr 10"
| "canonicalizeBSONType NumberInt = Inr 10"
| "canonicalizeBSONType NumberLong = Inr 10"
| "canonicalizeBSONType String = Inr 15"
| "canonicalizeBSONType Symbol = Inr 15"
| "canonicalizeBSONType Object = Inr 20"
| "canonicalizeBSONType Array = Inr 25"
| "canonicalizeBSONType BinData = Inr 30"
| "canonicalizeBSONType jstOID = Inr 35"
| "canonicalizeBSONType Bool = Inr 40"
| "canonicalizeBSONType Date = Inr 45"
| "canonicalizeBSONType Timestamp = Inr 45"
| "canonicalizeBSONType RegEx = Inr 50"
| "canonicalizeBSONType DBRef = Inr 55"
| "canonicalizeBSONType Code = Inr 60"
| "canonicalizeBSONType CodeWScope = Inr 65"
| "canonicalizeBSONType (BadType n) = Inl VerifyFailed"

fun typeName :: "BSONType \<Rightarrow> string" where
  "typeName MinKey = ''MinKey''"
| "typeName EOO = ''EOO''"
| "typeName NumberDouble = ''NumberDouble''"
| "typeName String = ''String''"
| "typeName Object = ''Object''"
| "typeName Array = ''Array''"
| "typeName BinData = ''BinaryData''"
| "typeName Undefined = ''Undefined''"
| "typeName jstOID = ''OID''"
| "typeName Bool = ''Bool''"
| "typeName Date = ''Date''"
| "typeName jstNULL = ''NULL''"
| "typeName RegEx = ''RegEx''"
| "typeName DBRef = ''DBRef''"
| "typeName Code = ''Code''"
| "typeName Symbol = ''Symbol''"
| "typeName CodeWScope = ''CodeWScope''"
| "typeName NumberInt = ''NumberInt32''"
| "typeName Timestamp = ''Timestamp''"
| "typeName NumberLong = ''NumberLong64''"
| "typeName MaxKey = ''MaxKey''"
| "typeName (BadType n) = ''Invalid''"

lemma type_of_code_code [simp]: "valid_type t \<Longrightarrow> type_of_code (type_code t) = t"
  by (cases t) (simp_all add: type_of_code_def)

lemma type_code_of_code [simp]: "type_code (type_of_code n) = n"
  by (simp add: type_of_code_def)

lemma type_code_range: "valid_type t \<Longrightarrow> -1 \<le> type_code t \<and> type_code t \<le> 127"
  by (cases t) simp_all

lemma sint_type_byte [simp]: "valid_type t \<Longrightarrow> sint (type_byte t) = type_code t"
  by (cases t) (simp_all add: type_byte_def)

lemma type_byte_0 [simp]: "valid_type t \<Longrightarrow> type_byte t = 0 \<longleftrightarrow> t = EOO"
  by (cases t) (simp_all add: type_byte_def)

lemma canonicalize_valid: "(\<exists>c. canonicalizeBSONType t = Inr c) \<longleftrightarrow> valid_type t"
  by (cases t) simp_all

end
