(* ===== verification/BsonElement.thy ===== *)
theory BsonElement
  imports CString Doubles BsonTypes
begin

text \<open>
  \<open>BSONElement\<close> (\<open>bson/bsonelement.h\<close> and the inline bodies in \<open>bson/bson-inl.h\<close>): an element is
  the pointer to its type byte.  The cached \<open>fieldNameSize_\<close> and \<open>totalSize\<close> of the class are
  recomputed at each use; the constructors' special case for the end-of-object element (name size 0,
  total size 1) is kept.  Sizes are C \<open>int\<close>s: 32 bit words, read as signed numbers where a pointer
  moves by them.
\<close>

section \<open>Pointers moved by a C int\<close>

definition ptr_addi :: "mem \<Rightarrow> int \<Rightarrow> mem res" where
  "ptr_addi m n = (if 0 \<le> n then ptr_add m (nat n) else Inl BadRead)"

definition get8 :: "mem \<Rightarrow> byte res" where
  "get8 m = (case m of [] \<Rightarrow> Inl BadRead | b # _ \<Rightarrow> Inr b)"

lemma get8_Cons [simp]: "get8 (b # m) = Inr b"
  by (simp add: get8_def)

section \<open>Type, name and value\<close>

definition elem_type :: "mem \<Rightarrow> BSONType res" where
  "elem_type e = rmap (\<lambda>b. type_of_code (sint b)) (get8 e)"

definition canonicalType :: "mem \<Rightarrow> int res" where
  "canonicalType e = rbind (elem_type e) canonicalizeBSONType"

definition eoo :: "mem \<Rightarrow> bool res" where
  "eoo e = rmap (\<lambda>t. t = EOO) (elem_type e)"

text \<open>\<open>BSONElement()\<close>, the empty element.\<close>

definition eooElement :: mem where
  "eooElement = [0]"

definition fieldName :: "mem \<Rightarrow> mem res" where
  "fieldName e = rbind (eoo e) (\<lambda>z. if z then Inr [0] else ptr_add e 1)"

definition fieldNameSize :: "mem \<Rightarrow> (32 word) res" where
  "fieldNameSize e =
     rbind (eoo e) (\<lambda>z. if z then Inr 0
       else rbind (fieldName e) (\<lambda>p. rmap (\<lambda>n. int32 n + 1) (strlen p)))"

definition elem_value :: "mem \<Rightarrow> mem res" where
  "elem_value e = rbind (fieldNameSize e) (\<lambda>n. ptr_addi e (sint (n + 1)))"

definition valuestrsize :: "mem \<Rightarrow> (32 word) res" where
  "valuestrsize e = rbind (elem_value e) get32"

definition elem_objsize :: "mem \<Rightarrow> (32 word) res" where
  "elem_objsize e = rbind (elem_value e) get32"

definition valuestr :: "mem \<Rightarrow> mem res" where
  "valuestr e = rbind (elem_value e) (\<lambda>p. ptr_add p 4)"

section \<open>Size of an element\<close>

definition value_size :: "mem \<Rightarrow> BSONType \<Rightarrow> (32 word) res" where
  "value_size e t =
     (case t of
        EOO \<Rightarrow> Inr 0
      | Undefined \<Rightarrow> Inr 0
      | jstNULL \<Rightarrow> Inr 0
      | MaxKey \<Rightarrow> Inr 0
      | MinKey \<Rightarrow> Inr 0
      | Bool \<Rightarrow> Inr 1
      | NumberInt \<Rightarrow> Inr 4
      | Timestamp \<Rightarrow> Inr 8
      | Date \<Rightarrow> Inr 8
      | NumberDouble \<Rightarrow> Inr 8
      | NumberLong \<Rightarrow> Inr 8
      | jstOID \<Rightarrow> Inr 12
      | Symbol \<Rightarrow> rmap (\<lambda>n. n + 4) (valuestrsize e)
      | Code \<Rightarrow> rmap (\<lambda>n. n + 4) (valuestrsize e)
      | String \<Rightarrow> rmap (\<lambda>n. n + 4) (valuestrsize e)
      | DBRef \<Rightarrow> rmap (\<lambda>n. n + 4 + 12) (valuestrsize e)
      | CodeWScope \<Rightarrow> elem_objsize e
      | Object \<Rightarrow> elem_objsize e
      | Array \<Rightarrow> elem_objsize e
      | BinData \<Rightarrow> rmap (\<lambda>n. n + 4 + 1) (valuestrsize e)
      | RegEx \<Rightarrow>
          rbind (elem_value e) (\<lambda>p. rbind (strlen p) (\<lambda>len1.
            rbind (ptr_add p (len1 + 1)) (\<lambda>q. rmap (\<lambda>len2. int32 (len1 + 1 + len2 + 1)) (strlen q))))
      | BadType n \<Rightarrow> Inl (MsgAssert 10320))"

definition elem_size :: "mem \<Rightarrow> (32 word) res" where
  "elem_size e =
     rbind (elem_type e) (\<lambda>t. if t = EOO then Inr 1
       else rbind (value_size e t) (\<lambda>x. rmap (\<lambda>n. x + n + 1) (fieldNameSize e)))"

definition valuesize :: "mem \<Rightarrow> (32 word) res" where
  "valuesize e = rbind (elem_size e) (\<lambda>s. rmap (\<lambda>n. s - n - 1) (fieldNameSize e))"

text \<open>
  \<open>BSONElement(d, maxLen)\<close> followed by \<open>size(maxLen)\<close>: the bounded computation the checked
  iterator uses.  The limit -1 stands for no limit.  A string that is not terminated within the
  limit makes \<open>strnlen\<close> return -1, which the source stores in a \<open>size_t\<close>.
\<close>

definition fieldNameSize_max :: "mem \<Rightarrow> int \<Rightarrow> (32 word) res" where
  "fieldNameSize_max e maxLen =
     (if maxLen = -1 then fieldNameSize e
      else rbind (fieldName e) (\<lambda>p. rbind (strnlen p (nat (maxLen - 1))) (\<lambda>r.
        case r of None \<Rightarrow> Inl (UserAssert 10333) | Some n \<Rightarrow> Inr (int32 n + 1))))"

definition strnlen64 :: "mem \<Rightarrow> int \<Rightarrow> (64 word) res" where
  "strnlen64 p n =
     rmap (\<lambda>r. case r of None \<Rightarrow> -1 | Some k \<Rightarrow> of_nat k) (strnlen p (nat n))"

definition regex_size_max :: "mem \<Rightarrow> int \<Rightarrow> int \<Rightarrow> (32 word) res" where
  "regex_size_max p maxLen remain =
     rbind (if maxLen = -1 then rmap of_nat (strlen p) else strnlen64 p remain)
       (\<lambda>len1 :: 64 word. rbind (ptr_addi p (uint (len1 + 1))) (\<lambda>q.
          rbind
            (if maxLen = -1 then rmap of_nat (strlen q)
             else (let x = (word_of_int remain :: 64 word) - len1 - 1 in
                   verify (unat x \<le> 0x7fffffff) (strnlen64 q (uint x))))
            (\<lambda>len2 :: 64 word. Inr (ucast (len1 + 1 + len2 + 1)))))"

definition elem_size_max :: "mem \<Rightarrow> int \<Rightarrow> (32 word) res" where
  "elem_size_max e maxLen =
     rbind (elem_type e) (\<lambda>t. if t = EOO then Inr 1
       else rbind (fieldNameSize_max e maxLen) (\<lambda>fns.
         let remain = maxLen - sint fns - 1;
             enough = (maxLen = -1 \<or> remain > 3)
         in rbind
           (case t of
              EOO \<Rightarrow> Inr 0
            | Undefined \<Rightarrow> Inr 0
            | jstNULL \<Rightarrow> Inr 0
            | MaxKey \<Rightarrow> Inr 0
            | MinKey \<Rightarrow> Inr 0
            | Bool \<Rightarrow> Inr 1
            | NumberInt \<Rightarrow> Inr 4
            | Timestamp \<Rightarrow> Inr 8
            | Date \<Rightarrow> Inr 8
            | NumberDouble \<Rightarrow> Inr 8
            | NumberLong \<Rightarrow> Inr 8
            | jstOID \<Rightarrow> Inr 12
            | Symbol \<Rightarrow> massert 10313 enough (rmap (\<lambda>n. n + 4) (valuestrsize e))
            | Code \<Rightarrow> massert 10313 enough (rmap (\<lambda>n. n + 4) (valuestrsize e))
            | String \<Rightarrow> massert 10313 enough (rmap (\<lambda>n. n + 4) (valuestrsize e))
            | CodeWScope \<Rightarrow> massert 10314 enough (elem_objsize e)
            | DBRef \<Rightarrow> massert 10315 enough (rmap (\<lambda>n. n + 4 + 12) (valuestrsize e))
            | Object \<Rightarrow> massert 10316 enough (elem_objsize e)
            | Array \<Rightarrow> massert 10316 enough (elem_objsize e)
            | BinData \<Rightarrow> massert 10317 enough (rmap (\<lambda>n. n + 4 + 1) (valuestrsize e))
            | RegEx \<Rightarrow> rbind (elem_value e) (\<lambda>p. regex_size_max p maxLen remain)
            | BadType n \<Rightarrow> Inl (MsgAssert 13655))
           (\<lambda>x. Inr (x + fns + 1))))"

section \<open>Scalar accessors\<close>

definition boolean :: "mem \<Rightarrow> bool res" where
  "boolean e = rbind (elem_value e) (\<lambda>p. rmap (\<lambda>b. b \<noteq> 0) (get8 p))"

definition numberInt_raw :: "mem \<Rightarrow> (32 word) res" where
  "numberInt_raw e = rbind (elem_value e) get32"

definition numberLong_raw :: "mem \<Rightarrow> (64 word) res" where
  "numberLong_raw e = rbind (elem_value e) get64"

definition numberDouble_raw :: "mem \<Rightarrow> (64 word) res" where
  "numberDouble_raw e = rbind (elem_value e) get64"

definition date :: "mem \<Rightarrow> (64 word) res" where
  "date e = rbind (elem_value e) get64"

definition chk :: "mem \<Rightarrow> BSONType \<Rightarrow> mem res" where
  "chk e t = rbind (elem_type e) (\<lambda>t'. if t \<noteq> t' then Inl (MsgAssert 13111) else Inr e)"

definition Date_checked :: "mem \<Rightarrow> (64 word) res" where
  "Date_checked e = rbind (chk e Date) date"

fun isNumber_type :: "BSONType \<Rightarrow> bool" where
  "isNumber_type NumberLong = True"
| "isNumber_type NumberDouble = True"
| "isNumber_type NumberInt = True"
| "isNumber_type _ = False"

definition isNumber :: "mem \<Rightarrow> bool res" where
  "isNumber e = rmap isNumber_type (elem_type e)"

fun isSimpleType_type :: "BSONType \<Rightarrow> bool" where
  "isSimpleType_type NumberLong = True"
| "isSimpleType_type NumberDouble = True"
| "isSimpleType_type NumberInt = True"
| "isSimpleType_type String = True"
| "isSimpleType_type Bool = True"
| "isSimpleType_type Date = True"
| "isSimpleType_type jstOID = True"
| "isSimpleType_type _ = False"

definition isSimpleType :: "mem \<Rightarrow> bool res" where
  "isSimpleType e = rmap isSimpleType_type (elem_type e)"

fun isABSONObj_type :: "BSONType \<Rightarrow> bool" where
  "isABSONObj_type Object = True"
| "isABSONObj_type Array = True"
| "isABSONObj_type _ = False"

definition isABSONObj :: "mem \<Rightarrow> bool res" where
  "isABSONObj e = rmap isABSONObj_type (elem_type e)"

fun mayEncapsulate_type :: "BSONType \<Rightarrow> bool" where
  "mayEncapsulate_type Object = True"
| "mayEncapsulate_type Array = True"
| "mayEncapsulate_type CodeWScope = True"
| "mayEncapsulate_type _ = False"

definition mayEncapsulate :: "mem \<Rightarrow> bool res" where
  "mayEncapsulate e = rmap mayEncapsulate_type (elem_type e)"

definition trueValue :: "mem \<Rightarrow> bool res" where
  "trueValue e =
     rbind (elem_type e) (\<lambda>t.
       case t of
         NumberLong \<Rightarrow> rmap (\<lambda>n. n \<noteq> 0) (numberLong_raw e)
       | NumberDouble \<Rightarrow> rmap (\<lambda>d. \<not> d_eq d 0) (numberDouble_raw e)
       | NumberInt \<Rightarrow> rmap (\<lambda>n. n \<noteq> 0) (numberInt_raw e)
       | Bool \<Rightarrow> boolean e
       | EOO \<Rightarrow> Inr False
       | jstNULL \<Rightarrow> Inr False
       | Undefined \<Rightarrow> Inr False
       | _ \<Rightarrow> Inr True)"

definition numberDouble :: "mem \<Rightarrow> (64 word) res" where
  "numberDouble e =
     rbind (elem_type e) (\<lambda>t.
       case t of
         NumberDouble \<Rightarrow> numberDouble_raw e
       | NumberInt \<Rightarrow> rmap (\<lambda>n. double_of_int (sint n)) (numberInt_raw e)
       | NumberLong \<Rightarrow> rmap (\<lambda>n. double_of_int (sint n)) (numberLong_raw e)
       | _ \<Rightarrow> Inr 0)"

definition numberInt :: "mem \<Rightarrow> (32 word) res" where
  "numberInt e =
     rbind (elem_type e) (\<lambda>t.
       case t of
         NumberDouble \<Rightarrow>
           rbind (numberDouble_raw e) (\<lambda>d. rmap word_of_int (d_to_int (- (2 ^ 31)) (2 ^ 31 - 1) d))
       | NumberInt \<Rightarrow> numberInt_raw e
       | NumberLong \<Rightarrow> rmap ucast (numberLong_raw e)
       | _ \<Rightarrow> Inr 0)"

definition numberLong :: "mem \<Rightarrow> (64 word) res" where
  "numberLong e =
     rbind (elem_type e) (\<lambda>t.
       case t of
         NumberDouble \<Rightarrow>
           rbind (numberDouble_raw e) (\<lambda>d. rmap word_of_int (d_to_int (- (2 ^ 63)) (2 ^ 63 - 1) d))
       | NumberInt \<Rightarrow> rmap scast (numberInt_raw e)
       | NumberLong \<Rightarrow> numberLong_raw e
       | _ \<Rightarrow> Inr 0)"

definition safeNumberLong :: "mem \<Rightarrow> (64 word) res" where
  "safeNumberLong e =
     rbind (elem_type e) (\<lambda>t.
       case t of
         NumberDouble \<Rightarrow>
           rbind (numberDouble e) (\<lambda>d.
             if is_NaN d then Inr 0
             else if d_lt (double_of_int (2 ^ 63 - 1)) d then Inr (word_of_int (2 ^ 63 - 1))
             else if d_lt d (double_of_int (- (2 ^ 63))) then Inr (word_of_int (- (2 ^ 63)))
             else numberLong e)
       | _ \<Rightarrow> numberLong e)"

section \<open>Structured values\<close>

definition elem_regex :: "mem \<Rightarrow> mem res" where
  "elem_regex e = rbind (elem_type e) (\<lambda>t. verify (t = RegEx) (elem_value e))"

definition elem_regexFlags :: "mem \<Rightarrow> mem res" where
  "elem_regexFlags e =
     rbind (elem_regex e) (\<lambda>p. rbind (strlen p) (\<lambda>n. ptr_add p (n + 1)))"

definition codeWScopeCode :: "mem \<Rightarrow> mem res" where
  "codeWScopeCode e =
     rbind (elem_type e) (\<lambda>t. massert 16177 (t = CodeWScope)
       (rbind (elem_value e) (\<lambda>p. ptr_add p (4 + 4))))"

definition codeWScopeCodeLen :: "mem \<Rightarrow> (32 word) res" where
  "codeWScopeCodeLen e =
     rbind (elem_type e) (\<lambda>t. massert 16178 (t = CodeWScope)
       (rbind (elem_value e) (\<lambda>p. rbind (ptr_add p 4) get32)))"

definition codeWScopeScopeDataUnsafe :: "mem \<Rightarrow> mem res" where
  "codeWScopeScopeDataUnsafe e =
     rbind (codeWScopeCode e) (\<lambda>p. rbind (strlen p) (\<lambda>n. ptr_add p (n + 1)))"

definition codeWScopeScopeData :: "mem \<Rightarrow> mem res" where
  "codeWScopeScopeData e =
     rbind (codeWScopeCode e) (\<lambda>p. rbind (codeWScopeCodeLen e) (\<lambda>n. ptr_addi p (sint n)))"

definition binDataType :: "mem \<Rightarrow> byte res" where
  "binDataType e =
     rbind (elem_type e) (\<lambda>t. verify (t = BinData)
       (rbind (elem_value e) (\<lambda>p. rbind (ptr_add p 4) get8)))"

definition binData :: "mem \<Rightarrow> ((32 word) \<times> mem) res" where
  "binData e =
     rbind (elem_type e) (\<lambda>t. verify (t = BinData)
       (rbind (valuestrsize e) (\<lambda>len. rbind (elem_value e) (\<lambda>p. rmap (Pair len) (ptr_add p 5)))))"

definition binDataClean :: "mem \<Rightarrow> ((32 word) \<times> mem) res" where
  "binDataClean e =
     rbind (binDataType e) (\<lambda>st.
       if st \<noteq> 2 then binData e
       else rbind (valuestrsize e) (\<lambda>len.
         rbind (elem_value e) (\<lambda>p. rmap (Pair (len - 4)) (ptr_add p (5 + 4)))))"

definition dbrefNS :: "mem \<Rightarrow> mem res" where
  "dbrefNS e =
     rbind (elem_type e) (\<lambda>t. uassert 10063 (t = DBRef)
       (rbind (elem_value e) (\<lambda>p. ptr_add p 4)))"

definition dbrefOID :: "mem \<Rightarrow> byte list res" where
  "dbrefOID e =
     rbind (elem_type e) (\<lambda>t. uassert 10064 (t = DBRef)
       (rbind (elem_value e) (\<lambda>p. rbind (get32 p) (\<lambda>n.
          rbind (ptr_addi p (sint (4 + n))) (\<lambda>q. read_bytes q 12)))))"

definition elem_oid :: "mem \<Rightarrow> byte list res" where
  "elem_oid e = rbind (elem_value e) (\<lambda>p. read_bytes p 12)"

definition timestampTime :: "mem \<Rightarrow> (64 word) res" where
  "timestampTime e =
     rbind (elem_value e) (\<lambda>p. rbind (ptr_add p 4) (\<lambda>q.
       rmap (\<lambda>t :: 32 word. (ucast t :: 64 word) * 1000) (get32 q)))"

definition timestampInc :: "mem \<Rightarrow> (32 word) res" where
  "timestampInc e = rbind (elem_value e) get32"

text \<open>\<open>validate\<close>: the checks \<open>toString\<close> makes on an element.\<close>

definition BSONObjMaxUserSize :: nat where
  "BSONObjMaxUserSize = 16 * 1024 * 1024"

definition BSONObjMaxInternalSize :: nat where
  "BSONObjMaxInternalSize = BSONObjMaxUserSize + (16 * 1024)"

definition validate_string :: "mem \<Rightarrow> unit res" where
  "validate_string e =
     rbind (valuestrsize e) (\<lambda>x.
       if 0 < x \<and> unat x < BSONObjMaxInternalSize
       then rbind (valuestr e) (\<lambda>p. rbind (ptr_add p (unat x - 1)) (\<lambda>q. rbind (get8 q) (\<lambda>b.
              if b = 0 then Inr () else Inl (MsgAssert 10321))))
       else Inl (MsgAssert 10321))"

definition validate_codeWScope :: "mem \<Rightarrow> unit res" where
  "validate_codeWScope e =
     rbind (elem_value e) (\<lambda>p. rbind (get32 p) (\<lambda>totalSize.
       massert 10322 (8 \<le> sint totalSize)
       (rbind (ptr_add p 4) (\<lambda>p4. rbind (get32 p4) (\<lambda>strSizeWNull.
         massert 10323 (sint (strSizeWNull + 4 + 4) \<le> sint totalSize)
         (if 0 < sint strSizeWNull
          then rbind (codeWScopeCode e) (\<lambda>c. rbind (strnlen c (nat (sint strSizeWNull))) (\<lambda>r.
            massert 10324 (r = Some (nat (sint strSizeWNull) - 1))
            (massert 10325 (sint (strSizeWNull + 4 + 4 + 4) \<le> sint totalSize)
             (rbind (ptr_addi p (4 + 4 + sint strSizeWNull)) (\<lambda>q. rbind (get32 q) (\<lambda>objSize.
               massert 10326 (totalSize = 4 + 4 + strSizeWNull + objSize) (Inr ())))))))
          else Inl (MsgAssert 10324)))))))"

definition elem_validate :: "mem \<Rightarrow> unit res" where
  "elem_validate e =
     rbind (elem_type e) (\<lambda>t.
       case t of
         DBRef \<Rightarrow> validate_string e
       | Code \<Rightarrow> validate_string e
       | Symbol \<Rightarrow> validate_string e
       | String \<Rightarrow> validate_string e
       | CodeWScope \<Rightarrow> validate_codeWScope e
       | _ \<Rightarrow> Inr ())"

end
