(* ===== verification/BsonObj.thy ===== *)
theory BsonObj
  imports BsonElement
begin

text \<open>
  \<open>BSONObj\<close> and \<open>BSONObjIterator\<close> (\<open>bson/bsonobj.h\<close>, \<open>bson/bsonobjiterator.h\<close>,
  \<open>bson/bson-inl.h\<close>).  An object is the pointer to its length field.  An iterator keeps the object
  and the two positions of the class, as offsets from the start of the object.

  A loop over an iterator is \<open>for_each\<close>: the loop's condition, its step, a body that continues with
  a new state (\<open>Go\<close>) or returns (\<open>Ret\<close>), and fuel.  The iterator of an object moves within the
  bytes of the object's buffer, so a run of more steps than the buffer has positions has visited a
  position twice and does not end; the fuel given to every loop is that number, and running out of
  it is the error \<open>NoReturn\<close>.
\<close>

section \<open>Loops over a source of elements\<close>

datatype ('s, 'r) flow = Go 's | Ret 'r

fun for_each ::
  "('i \<Rightarrow> bool) \<Rightarrow> ('i \<Rightarrow> (mem \<times> 'i) res) \<Rightarrow> nat \<Rightarrow> 'i \<Rightarrow> ('s \<Rightarrow> mem \<Rightarrow> ('s, 'r) flow res) \<Rightarrow> 's
     \<Rightarrow> ('s, 'r) flow res" where
  "for_each more nxt 0 i body s = Inl NoReturn"
| "for_each more nxt (Suc k) i body s =
     (if more i
      then rbind (nxt i) (\<lambda>(e, i'). rbind (body s e) (\<lambda>f.
        case f of Ret r \<Rightarrow> Inr (Ret r) | Go s' \<Rightarrow> for_each more nxt k i' body s'))
      else Inr (Go s))"

text \<open>The same loop over a list of elements.\<close>

fun each :: "('s \<Rightarrow> mem \<Rightarrow> ('s, 'r) flow res) \<Rightarrow> 's \<Rightarrow> mem list \<Rightarrow> ('s, 'r) flow res" where
  "each body s [] = Inr (Go s)"
| "each body s (e # es) =
     rbind (body s e) (\<lambda>f. case f of Ret r \<Rightarrow> Inr (Ret r) | Go s' \<Rightarrow> each body s' es)"

definition ret_or :: "('s \<Rightarrow> 'r res) \<Rightarrow> ('s, 'r) flow res \<Rightarrow> 'r res" where
  "ret_or k m = rbind m (\<lambda>f. case f of Ret r \<Rightarrow> Inr r | Go s \<Rightarrow> k s)"

lemma ret_or_simps [simp]:
  "ret_or k (Inl e) = Inl e"
  "ret_or k (Inr (Ret r)) = Inr r"
  "ret_or k (Inr (Go s)) = k s"
  by (simp_all add: ret_or_def)

text \<open>
  What a loop needs of a source of elements: a relation between the state of the source and the
  elements still to come.
\<close>

locale elem_source =
  fixes more :: "'i \<Rightarrow> bool"
    and nxt :: "'i \<Rightarrow> (mem \<times> 'i) res"
    and view :: "'i \<Rightarrow> mem list \<Rightarrow> bool"
  assumes view_Nil: "view i [] \<Longrightarrow> \<not> more i"
    and view_Cons: "view i (e # es) \<Longrightarrow> more i \<and> (\<exists>i'. nxt i = Inr (e, i') \<and> view i' es)"
begin

lemma for_each_view:
  "view i es \<Longrightarrow> length es < k \<Longrightarrow> for_each more nxt k i body s = each body s es"
proof (induction es arbitrary: i s k)
  case Nil
  then show ?case using view_Nil by (cases k) auto
next
  case (Cons e es)
  from Cons.prems(2) obtain k' where k: "k = Suc k'" "length es < k'" by (cases k) auto
  from view_Cons [OF Cons.prems(1)] obtain i' where
    i: "more i" "nxt i = Inr (e, i')" "view i' es" by blast
  have "for_each more nxt k' i' body = (\<lambda>s'. each body s' es)"
    using Cons.IH [OF i(3) k(2)] by blast
  then show ?case by (simp add: k(1) i)
qed

end

section \<open>Objects\<close>

definition objsize :: "mem \<Rightarrow> (32 word) res" where
  "objsize ob = get32 ob"

definition isValid :: "mem \<Rightarrow> bool res" where
  "isValid ob = rmap (\<lambda>x. 0 < sint x \<and> sint x \<le> int BSONObjMaxInternalSize) (objsize ob)"

text \<open>\<open>BSONObj(const char*)\<close>: \<open>init\<close> and \<open>_assertInvalid\<close>.\<close>

definition bson_obj :: "mem \<Rightarrow> mem res" where
  "bson_obj m = rbind (isValid m) (\<lambda>ok. massert 10334 ok (Inr m))"

definition emptyObj :: mem where
  "emptyObj = [5, 0, 0, 0, 0]"

definition isEmpty :: "mem \<Rightarrow> bool res" where
  "isEmpty ob = rmap (\<lambda>x. sint x \<le> 5) (objsize ob)"

definition embeddedObject :: "mem \<Rightarrow> mem res" where
  "embeddedObject e = rbind (isABSONObj e) (\<lambda>b. verify b (rbind (elem_value e) bson_obj))"

definition embeddedObjectUserCheck :: "mem \<Rightarrow> mem res" where
  "embeddedObjectUserCheck e =
     rbind (isABSONObj e) (\<lambda>b. if b then rbind (elem_value e) bson_obj else Inl (UserAssert 10065))"

definition codeWScopeObject :: "mem \<Rightarrow> mem res" where
  "codeWScopeObject e =
     rbind (elem_type e) (\<lambda>t. verify (t = CodeWScope)
       (rbind (elem_value e) (\<lambda>p. rbind (ptr_add p 4) (\<lambda>p4. rbind (get32 p4) (\<lambda>n.
         rbind (ptr_addi p (4 + 4 + sint n)) bson_obj)))))"

text \<open>\<open>copy\<close>: the bytes of the object, in a buffer of their own.\<close>

definition copy_obj :: "mem \<Rightarrow> mem res" where
  "copy_obj ob = rbind (objsize ob) (\<lambda>n.
     if sint n < 0 then Inl BadRead else rbind (read_bytes ob (nat (sint n))) bson_obj)"

definition firstElement :: "mem \<Rightarrow> mem res" where
  "firstElement ob = ptr_add ob 4"

definition firstElementFieldName :: "mem \<Rightarrow> mem res" where
  "firstElementFieldName ob =
     rbind (ptr_add ob 4) (\<lambda>p. rbind (get8 p) (\<lambda>b. if b = 0 then Inr [0] else ptr_add p 1))"

definition firstElementType :: "mem \<Rightarrow> BSONType res" where
  "firstElementType ob = rbind (ptr_add ob 4) (\<lambda>p. rmap (\<lambda>b. type_of_code (sint b)) (get8 p))"

definition binaryEqual :: "mem \<Rightarrow> mem \<Rightarrow> bool res" where
  "binaryEqual l r =
     rbind (objsize l) (\<lambda>os. rbind (objsize r) (\<lambda>rs.
       if os = rs
       then if os = 0 then Inr True
            else rmap (\<lambda>c. c = 0) (memcmp l r (unat (scast os :: 64 word)))
       else Inr False))"

definition hash_step :: "32 word \<Rightarrow> byte \<Rightarrow> 32 word" where
  "hash_step x c = x * 131 + scast c"

definition hash :: "mem \<Rightarrow> (32 word) res" where
  "hash ob =
     rbind (objsize ob) (\<lambda>n. rmap
       (\<lambda>cs. or (and (foldl hash_step 0 cs) 0x7fffffff) 0x8000000)
       (read_bytes ob (nat (sint n))))"

section \<open>The iterator\<close>

record bson_iter =
  it_obj :: mem
  it_pos :: int
  it_end :: int

definition iter_of :: "mem \<Rightarrow> bson_iter res" where
  "iter_of ob =
     rmap (\<lambda>sz. if sz = 0 then \<lparr>it_obj = [], it_pos = 0, it_end = 0\<rparr>
                else \<lparr>it_obj = ob, it_pos = 4, it_end = sint sz - 1\<rparr>) (objsize ob)"

text \<open>The constructor from two pointers, the second given by its distance from the first.\<close>

definition iter_range :: "mem \<Rightarrow> int \<Rightarrow> bson_iter" where
  "iter_range start len = \<lparr>it_obj = start, it_pos = 4, it_end = len - 1\<rparr>"

definition more :: "bson_iter \<Rightarrow> bool" where
  "more i = (it_pos i < it_end i)"

definition moreWithEOO :: "bson_iter \<Rightarrow> bool" where
  "moreWithEOO i = (it_pos i \<le> it_end i)"

definition it_deref :: "bson_iter \<Rightarrow> mem res" where
  "it_deref i = verify (it_pos i \<le> it_end i) (ptr_addi (it_obj i) (it_pos i))"

definition next_elem :: "bson_iter \<Rightarrow> (mem \<times> bson_iter) res" where
  "next_elem i =
     verify (it_pos i \<le> it_end i)
       (rbind (ptr_addi (it_obj i) (it_pos i)) (\<lambda>e.
         rmap (\<lambda>n. (e, i\<lparr>it_pos := it_pos i + sint n\<rparr>)) (elem_size e)))"

definition next_checked :: "bson_iter \<Rightarrow> (mem \<times> bson_iter) res" where
  "next_checked i =
     verify (it_pos i \<le> it_end i)
       (let maxLen = it_end i + 1 - it_pos i in
        verify (0 < maxLen)
          (rbind (ptr_addi (it_obj i) (it_pos i)) (\<lambda>e.
            rbind (elem_size_max e maxLen) (\<lambda>esize.
              massert 16446 (0 < sint esize) (Inr (e, i\<lparr>it_pos := it_pos i + sint esize\<rparr>))))))"

definition it_fuel :: "bson_iter \<Rightarrow> nat" where
  "it_fuel i = length (it_obj i) + 2"

text \<open>\<open>while (i.more()) { e = i.next(); ... }\<close> and the variant with \<open>moreWithEOO\<close>.\<close>

definition while_more ::
  "bson_iter \<Rightarrow> ('s \<Rightarrow> mem \<Rightarrow> ('s, 'r) flow res) \<Rightarrow> 's \<Rightarrow> ('s, 'r) flow res" where
  "while_more i body s = for_each more next_elem (it_fuel i) i body s"

definition while_moreWithEOO ::
  "bson_iter \<Rightarrow> ('s \<Rightarrow> mem \<Rightarrow> ('s, 'r) flow res) \<Rightarrow> 's \<Rightarrow> ('s, 'r) flow res" where
  "while_moreWithEOO i body s = for_each moreWithEOO next_elem (it_fuel i) i body s"

section \<open>Operations that read an object\<close>

definition field_is :: "byte list \<Rightarrow> mem \<Rightarrow> bool res" where
  "field_is name e = rbind (fieldName e) (\<lambda>p. rmap (\<lambda>s. name = s) (cstr p))"

definition getField :: "mem \<Rightarrow> byte list \<Rightarrow> mem res" where
  "getField ob name =
     rbind (iter_of ob) (\<lambda>i. ret_or (\<lambda>_. Inr eooElement)
       (while_more i (\<lambda>_ e. rmap (\<lambda>b. if b then Ret e else Go ()) (field_is name e)) ()))"

definition hasField :: "mem \<Rightarrow> byte list \<Rightarrow> bool res" where
  "hasField ob name = rbind (getField ob name) (\<lambda>e. rmap Not (eoo e))"

text \<open>\<open>getFields\<close>: the slot of the first requested name an element matches is overwritten.\<close>

fun match_slot :: "mem \<Rightarrow> byte list list \<Rightarrow> mem list \<Rightarrow> mem \<Rightarrow> mem list res" where
  "match_slot p (n # ns) (f # fs) e =
     rbind (strcmp p (n @ [0])) (\<lambda>c.
       if c = 0 then Inr (e # fs) else rmap ((#) f) (match_slot p ns fs e))"
| "match_slot p _ fs e = Inr fs"

definition getFields :: "mem \<Rightarrow> byte list list \<Rightarrow> mem list \<Rightarrow> mem list res" where
  "getFields ob names slots =
     rbind (iter_of ob) (\<lambda>i. ret_or Inr
       (while_more i (\<lambda>fs e. rbind (fieldName e) (\<lambda>p. rmap Go (match_slot p names fs e))) slots))"

definition getIntField :: "mem \<Rightarrow> byte list \<Rightarrow> int res" where
  "getIntField ob name =
     rbind (getField ob name) (\<lambda>e. rbind (isNumber e) (\<lambda>b.
       if b then rbind (numberDouble e) (d_to_int (- (2 ^ 31)) (2 ^ 31 - 1))
       else Inr (- (2 ^ 31))))"

definition getBoolField :: "mem \<Rightarrow> byte list \<Rightarrow> bool res" where
  "getBoolField ob name =
     rbind (getField ob name) (\<lambda>e. rbind (elem_type e) (\<lambda>t.
       if t = Bool then boolean e else Inr False))"

definition getStringField :: "mem \<Rightarrow> byte list \<Rightarrow> mem res" where
  "getStringField ob name =
     rbind (getField ob name) (\<lambda>e. rbind (elem_type e) (\<lambda>t.
       if t = String then valuestr e else Inr [0]))"

definition getObjectID :: "mem \<Rightarrow> mem option res" where
  "getObjectID ob =
     rbind (getField ob (bs ''_id'')) (\<lambda>f. rmap (\<lambda>z. if z then None else Some f) (eoo f))"

definition getObjectField :: "mem \<Rightarrow> byte list \<Rightarrow> mem res" where
  "getObjectField ob name =
     rbind (getField ob name) (\<lambda>e. rbind (elem_type e) (\<lambda>t.
       if t = Object \<or> t = Array then embeddedObject e else Inr emptyObj))"

lemma split_at_shorter: "split_at c s = Some (l, r) \<Longrightarrow> length r < length s"
  using split_at_length by fastforce

function getFieldDotted :: "mem \<Rightarrow> byte list \<Rightarrow> mem res" where
  "getFieldDotted ob name =
     rbind (getField ob name) (\<lambda>e. rbind (eoo e) (\<lambda>z.
       if z then
         (case split_at 46 name of
            None \<Rightarrow> Inr e
          | Some (left, right) \<Rightarrow>
              rbind (getObjectField ob left) (\<lambda>sub. rbind (isEmpty sub) (\<lambda>em.
                if em then Inr eooElement else getFieldDotted sub right)))
       else Inr e))"
  by pat_completeness auto
termination
  by (relation "measure (\<lambda>(ob, name). length name)") (auto dest: split_at_shorter)

declare getFieldDotted.simps [simp del]

definition nFields :: "mem \<Rightarrow> (32 word) res" where
  "nFields ob =
     rbind (iter_of ob) (\<lambda>i. ret_or Inr
       (while_moreWithEOO i (\<lambda>n e. rmap (\<lambda>z. if z then Ret n else Go (n + 1)) (eoo e)) 0))"

definition elems :: "mem \<Rightarrow> mem list res" where
  "elems ob =
     rbind (iter_of ob) (\<lambda>i. ret_or Inr (while_more i (\<lambda>v e. Inr (Go (v @ [e]))) []))"

text \<open>
  \<open>std::map<std::string, BSONElement>\<close> as the list of its entries in the order of the keys, and the
  assignment to an entry.
\<close>

fun map_put :: "byte list \<Rightarrow> 'a \<Rightarrow> (byte list \<times> 'a) list \<Rightarrow> (byte list \<times> 'a) list" where
  "map_put k v [] = [(k, v)]"
| "map_put k v ((k', v') # m) =
     (if bytes_cmp k k' < 0 then (k, v) # (k', v') # m
      else if bytes_cmp k k' = 0 then (k, v) # m
      else (k', v') # map_put k v m)"

definition bson2map :: "mem \<Rightarrow> (byte list \<times> mem) list res" where
  "bson2map ob =
     rbind (iter_of ob) (\<lambda>i. ret_or Inr
       (while_more i (\<lambda>m e. rbind (fieldName e) (\<lambda>p. rmap (\<lambda>s. Go (map_put s e m)) (cstr p))) []))"

lemmas loop_defs = while_more_def while_moreWithEOO_def

end
