(* ===== verification/BsonFormat.thy ===== *)
theory BsonFormat
  imports BsonObj
begin

text \<open>
  The abstract side of the refinement: a BSON document as a list of named values, and its encoding as
  bytes, after the description of the format in \<open>bson/bsonobj.h\<close>.  The lemmas say what the element
  accessors and the iterator read from an encoded document.
\<close>

section \<open>Documents and their encoding\<close>

datatype bval =
    VDouble "64 word"
  | VString "byte list"
  | VObject "(byte list \<times> bval) list"
  | VArray "(byte list \<times> bval) list"
  | VBinData byte "byte list"
  | VUndefined
  | VOID "byte list"
  | VBool byte
  | VDate "64 word"
  | VNull
  | VRegEx "byte list" "byte list"
  | VDBRef "byte list" "byte list"
  | VCode "byte list"
  | VSymbol "byte list"
  | VCodeWScope "byte list" "(byte list \<times> bval) list"
  | VInt "32 word"
  | VTimestamp "64 word"
  | VLong "64 word"
  | VMinKey
  | VMaxKey

type_synonym bdoc = "(byte list \<times> bval) list"

fun vtype :: "bval \<Rightarrow> BSONType" where
  "vtype (VDouble w) = NumberDouble"
| "vtype (VString s) = String"
| "vtype (VObject d) = Object"
| "vtype (VArray d) = Array"
| "vtype (VBinData t b) = BinData"
| "vtype VUndefined = Undefined"
| "vtype (VOID x) = jstOID"
| "vtype (VBool b) = Bool"
| "vtype (VDate w) = Date"
| "vtype VNull = jstNULL"
| "vtype (VRegEx p f) = RegEx"
| "vtype (VDBRef n x) = DBRef"
| "vtype (VCode c) = Code"
| "vtype (VSymbol s) = Symbol"
| "vtype (VCodeWScope c d) = CodeWScope"
| "vtype (VInt n) = NumberInt"
| "vtype (VTimestamp w) = Timestamp"
| "vtype (VLong n) = NumberLong"
| "vtype VMinKey = MinKey"
| "vtype VMaxKey = MaxKey"

text \<open>A string with its length prefix, and a document around the bytes of its elements.\<close>

definition enc_str :: "byte list \<Rightarrow> byte list" where
  "enc_str s = put32 (int32 (length s + 1)) @ s @ [0]"

definition enc_frame :: "byte list \<Rightarrow> byte list" where
  "enc_frame es = put32 (int32 (length es + 5)) @ es @ [0]"

fun enc_value :: "bval \<Rightarrow> byte list"
and enc_elems :: "(byte list \<times> bval) list \<Rightarrow> byte list" where
  "enc_value (VDouble w) = put64 w"
| "enc_value (VString s) = enc_str s"
| "enc_value (VObject d) = enc_frame (enc_elems d)"
| "enc_value (VArray d) = enc_frame (enc_elems d)"
| "enc_value (VBinData t b) = put32 (int32 (length b)) @ t # b"
| "enc_value VUndefined = []"
| "enc_value (VOID x) = x"
| "enc_value (VBool b) = [b]"
| "enc_value (VDate w) = put64 w"
| "enc_value VNull = []"
| "enc_value (VRegEx p f) = p @ 0 # f @ [0]"
| "enc_value (VDBRef n x) = enc_str n @ x"
| "enc_value (VCode c) = enc_str c"
| "enc_value (VSymbol s) = enc_str s"
| "enc_value (VCodeWScope c d) =
     put32 (int32 (length (enc_str c) + length (enc_frame (enc_elems d)) + 4)) @
     enc_str c @ enc_frame (enc_elems d)"
| "enc_value (VInt n) = put32 n"
| "enc_value (VTimestamp w) = put64 w"
| "enc_value (VLong n) = put64 n"
| "enc_value VMinKey = []"
| "enc_value VMaxKey = []"
| "enc_elems [] = []"
| "enc_elems ((n, v) # d) = type_byte (vtype v) # n @ 0 # enc_value v @ enc_elems d"

definition enc_elem :: "byte list \<Rightarrow> bval \<Rightarrow> byte list" where
  "enc_elem n v = type_byte (vtype v) # n @ 0 # enc_value v"

definition encode :: "bdoc \<Rightarrow> byte list" where
  "encode d = enc_frame (enc_elems d)"

text \<open>
  The documents the format can express: names and regular expressions hold no zero byte, an object
  identifier has twelve bytes.  The size limit is that of the top-level document.
\<close>

fun wf_value :: "bval \<Rightarrow> bool"
and wf_elems :: "(byte list \<times> bval) list \<Rightarrow> bool" where
  "wf_value (VObject d) = wf_elems d"
| "wf_value (VArray d) = wf_elems d"
| "wf_value (VCodeWScope c d) = wf_elems d"
| "wf_value (VOID x) = (length x = 12)"
| "wf_value (VDBRef n x) = (length x = 12)"
| "wf_value (VRegEx p f) = (nul_free p \<and> nul_free f)"
| "wf_value (VDouble w) = True"
| "wf_value (VString s) = True"
| "wf_value (VBinData t b) = True"
| "wf_value VUndefined = True"
| "wf_value (VBool b) = True"
| "wf_value (VDate w) = True"
| "wf_value VNull = True"
| "wf_value (VCode c) = True"
| "wf_value (VSymbol s) = True"
| "wf_value (VInt n) = True"
| "wf_value (VTimestamp w) = True"
| "wf_value (VLong n) = True"
| "wf_value VMinKey = True"
| "wf_value VMaxKey = True"
| "wf_elems [] = True"
| "wf_elems ((n, v) # d) = (nul_free n \<and> wf_value v \<and> wf_elems d)"

definition wf_doc :: "bdoc \<Rightarrow> bool" where
  "wf_doc d = (wf_elems d \<and> length (encode d) \<le> BSONObjMaxInternalSize)"

text \<open>The pointers to the elements of a document that is followed by the bytes \<open>r\<close>.\<close>

fun elem_ptrs :: "bdoc \<Rightarrow> mem \<Rightarrow> mem list" where
  "elem_ptrs [] r = []"
| "elem_ptrs ((n, v) # d) r = (enc_elem n v @ enc_elems d @ r) # elem_ptrs d r"

section \<open>Sizes\<close>

lemma enc_elems_Cons: "enc_elems ((n, v) # d) = enc_elem n v @ enc_elems d"
  by (simp add: enc_elem_def)

lemma enc_elems_append [simp]: "enc_elems (d @ e) = enc_elems d @ enc_elems e"
  by (induction d) auto

lemma wf_elems_append [simp]: "wf_elems (d @ e) \<longleftrightarrow> wf_elems d \<and> wf_elems e"
  by (induction d) auto

lemma wf_elems_iff: "wf_elems d \<longleftrightarrow> (\<forall>(n, v) \<in> set d. nul_free n \<and> wf_value v)"
  by (induction d) auto

lemma length_put32 [simp]: "length (put32 w) = 4"
  by (rule i32.length_put)

lemma length_put64 [simp]: "length (put64 w) = 8"
  by (rule i64.length_put)

lemma length_enc_str [simp]: "length (enc_str s) = length s + 5"
  by (simp add: enc_str_def)

lemma length_enc_frame [simp]: "length (enc_frame es) = length es + 5"
  by (simp add: enc_frame_def)

lemma length_encode: "length (encode d) = length (enc_elems d) + 5"
  by (simp add: encode_def)

lemma length_enc_elem: "length (enc_elem n v) = length n + 2 + length (enc_value v)"
  by (simp add: enc_elem_def)

lemma valid_vtype [simp]: "valid_type (vtype v)"
  by (cases v) simp_all

lemma vtype_not_EOO [simp]: "vtype v \<noteq> EOO"
  by (cases v) simp_all

lemma enc_elem_nonempty [simp]: "enc_elem n v \<noteq> []"
  by (simp add: enc_elem_def)

lemma enc_elems_nonempty: "d \<noteq> [] \<Longrightarrow> enc_elems d \<noteq> []"
  by (cases d) auto

lemma length_elem_ptrs [simp]: "length (elem_ptrs d r) = length d"
  by (induction d r rule: elem_ptrs.induct) auto

lemma length_enc_elems: "length d \<le> length (enc_elems d)"
  by (induction d) auto

section \<open>Reading an encoded element\<close>

text \<open>An element of the document and what follows it; \<open>small\<close> bounds its size by a C \<open>int\<close>.\<close>

definition small :: "byte list \<Rightarrow> bool" where
  "small m = (length m < 2 ^ 31)"

lemma put32_expand:
  "put32 w = [of_nat (unat w mod 256), of_nat (unat w div 256 mod 256),
     of_nat (unat w div 256 div 256 mod 256), of_nat (unat w div 256 div 256 div 256 mod 256)]"
proof -
  have "(4 :: nat) = Suc (Suc (Suc (Suc 0)))" by simp
  then show ?thesis
    unfolding put32_def by (simp only: le_bytes.simps)
qed

lemma get32_put32 [simp, read_simps]: "get32 (put32 w @ m) = Inr w"
  by (rule i32.get_put)

lemma get64_put64 [simp, read_simps]: "get64 (put64 w @ m) = Inr w"
  by (rule i64.get_put)

lemma get32_put32_nil [simp]: "get32 (put32 w) = Inr w"
  using i32.get_put [of w "[]"] by simp

lemma get64_put64_nil [simp]: "get64 (put64 w) = Inr w"
  using i64.get_put [of w "[]"] by simp

lemma elem_type_enc [simp]: "elem_type (enc_elem n v @ m) = Inr (vtype v)"
  by (simp add: elem_type_def enc_elem_def)

lemma eoo_enc [simp]: "eoo (enc_elem n v @ m) = Inr False"
  by (simp add: eoo_def)

lemma elem_type_EOO [simp]: "elem_type (0 # m) = Inr EOO"
  by (simp add: elem_type_def type_of_code_def)

lemma eoo_EOO [simp]: "eoo (0 # m) = Inr True"
  by (simp add: eoo_def)

lemma elem_size_EOO [simp]: "elem_size (0 # m) = Inr 1"
  by (simp add: elem_size_def)

lemma eooElement_simps [simp]:
  "elem_type eooElement = Inr EOO"
  "eoo eooElement = Inr True"
  "fieldName eooElement = Inr [0]"
  by (simp_all add: eooElement_def fieldName_def)

lemma fieldName_enc [simp]: "fieldName (enc_elem n v @ m) = Inr (n @ 0 # enc_value v @ m)"
  by (simp add: fieldName_def enc_elem_def eoo_def elem_type_def ptr_add_def)

lemma fieldNameSize_enc:
  "nul_free n \<Longrightarrow> fieldNameSize (enc_elem n v @ m) = Inr (int32 (length n + 1))"
  by (simp add: fieldNameSize_def strlen_nul int32_add int32_def)

lemma elem_value_enc:
  assumes "nul_free n" "length n + 2 < 2 ^ 31"
  shows "elem_value (enc_elem n v @ m) = Inr (enc_value v @ m)"
proof -
  have "int32 (length n + 1) + 1 = int32 (length n + 2)"
    by (simp add: int32_def)
  moreover have "sint (int32 (length n + 2)) = int (length n + 2)"
    by (rule sint_int32) (use assms in simp)
  moreover have "drop (length n + 2) (enc_elem n v @ m) = enc_value v @ m"
    by (simp add: enc_elem_def)
  ultimately show ?thesis
    using assms(1)
    by (simp add: elem_value_def fieldNameSize_enc ptr_addi_def ptr_add_def length_enc_elem nat_add_distrib)
qed


definition elem_ok :: "byte list \<Rightarrow> bval \<Rightarrow> bool" where
  "elem_ok n v = (nul_free n \<and> wf_value v \<and> small (enc_elem n v))"

lemma elem_okD:
  assumes "elem_ok n v"
  shows "nul_free n" "wf_value v" "length n + 2 + length (enc_value v) < 2 ^ 31"
  using assms by (simp_all add: elem_ok_def small_def length_enc_elem)

lemma elem_value_ok [simp]: "elem_ok n v \<Longrightarrow> elem_value (enc_elem n v @ m) = Inr (enc_value v @ m)"
  using elem_okD [of n v] by (intro elem_value_enc) simp_all

lemma fieldNameSize_ok [simp]:
  "elem_ok n v \<Longrightarrow> fieldNameSize (enc_elem n v @ m) = Inr (int32 (length n + 1))"
  by (simp add: fieldNameSize_enc elem_okD(1))

lemma field_is_ok [simp]: "elem_ok n v \<Longrightarrow> field_is name (enc_elem n v @ m) = Inr (name = n)"
  by (simp add: field_is_def cstr_nul elem_okD(1))

lemma get32_enc_str [simp]: "get32 (enc_str s @ m) = Inr (int32 (length s + 1))"
  by (simp add: enc_str_def)

lemma get32_enc_frame [simp]: "get32 (enc_frame es @ m) = Inr (int32 (length es + 5))"
  by (simp add: enc_frame_def)

lemma ptr_add_enc_str [simp]: "ptr_add (enc_str s @ m) 4 = Inr (s @ 0 # m)"
  by (simp add: enc_str_def ptr_add_def)

lemma int32_arith:
  "int32 a + numeral k = int32 (a + numeral k)"
  "int32 a + 1 = int32 (a + 1)"
  "int32 a + int32 b = int32 (a + b)"
  by (simp_all add: int32_def)

lemma regex_value_size:
  assumes "elem_ok n (VRegEx p f)"
  shows "value_size (enc_elem n (VRegEx p f) @ m) RegEx = Inr (int32 (length p + length f + 2))"
proof -
  have "nul_free p" "nul_free f"
    using elem_okD(2) [OF assms] by simp_all
  then show ?thesis
    using assms by (simp add: value_size_def strlen_nul ptr_add_def)
qed

lemma value_size_enc:
  assumes "elem_ok n v"
  shows "value_size (enc_elem n v @ m) (vtype v) = Inr (int32 (length (enc_value v)))"
proof (cases v)
  case (VRegEx p f)
  then show ?thesis using regex_value_size assms by simp
next
  case (VOID x)
  then show ?thesis using elem_okD(2) [OF assms] by (simp add: value_size_def int32_def)
next
  case (VDBRef ns x)
  then show ?thesis
    using assms elem_okD(2) [OF assms]
    by (simp add: value_size_def int32_def valuestrsize_def)
qed (use assms in \<open>simp_all add: value_size_def int32_arith valuestrsize_def elem_objsize_def\<close>,
     simp_all add: int32_def)

lemma elem_size_enc [simp]:
  assumes "elem_ok n v"
  shows "elem_size (enc_elem n v @ m) = Inr (int32 (length (enc_elem n v)))"
proof -
  have "int32 (length (enc_value v)) + int32 (length n + 1) + 1 = int32 (length (enc_elem n v))"
    by (simp add: int32_def length_enc_elem)
  then show ?thesis
    using assms by (simp add: elem_size_def value_size_enc)
qed

lemma sint_elem_size:
  "elem_ok n v \<Longrightarrow> sint (int32 (length (enc_elem n v))) = int (length (enc_elem n v))"
  by (rule sint_int32) (simp add: elem_ok_def small_def)

lemma valuesize_enc:
  assumes "elem_ok n v"
  shows "valuesize (enc_elem n v @ m) = Inr (int32 (length (enc_value v)))"
  using assms by (simp add: valuesize_def length_enc_elem int32_def)

section \<open>Iterating over an encoded document\<close>

text \<open>
  The iterator stands before the elements \<open>d\<close> of a document: the bytes from its position are their
  encoding and the terminating zero, and its end is the position of that zero.
\<close>

definition it_at :: "bson_iter \<Rightarrow> bdoc \<Rightarrow> mem \<Rightarrow> bool" where
  "it_at i d r =
     (0 \<le> it_pos i \<and> nat (it_pos i) \<le> length (it_obj i) \<and>
      drop (nat (it_pos i)) (it_obj i) = enc_elems d @ 0 # r \<and>
      it_end i = it_pos i + int (length (enc_elems d)) \<and>
      wf_elems d \<and> small (enc_elems d))"

definition obj_view :: "bson_iter \<Rightarrow> mem list \<Rightarrow> bool" where
  "obj_view i es = (\<exists>d r. it_at i d r \<and> es = elem_ptrs d (0 # r))"

lemma it_at_ptr: "it_at i d r \<Longrightarrow> ptr_addi (it_obj i) (it_pos i) = Inr (enc_elems d @ 0 # r)"
  by (simp add: it_at_def ptr_addi_def ptr_add_def)

lemma it_at_more: "it_at i d r \<Longrightarrow> more i \<longleftrightarrow> d \<noteq> []"
  using enc_elems_nonempty [of d] by (auto simp: it_at_def more_def)

lemma it_at_moreWithEOO: "it_at i d r \<Longrightarrow> moreWithEOO i"
  by (simp add: it_at_def moreWithEOO_def)

lemma small_append: "small (a @ b) \<Longrightarrow> small a \<and> small b"
  by (simp add: small_def)

lemma it_at_elem_ok:
  assumes "it_at i ((n, v) # d) r"
  shows "elem_ok n v"
  using assms small_append [of "enc_elem n v" "enc_elems d"]
  by (auto simp: it_at_def elem_ok_def enc_elem_def simp del: enc_elems.simps)
     (simp add: small_def)

lemma it_at_step:
  assumes "it_at i ((n, v) # d) r"
  shows "it_at (i\<lparr>it_pos := it_pos i + int (length (enc_elem n v))\<rparr>) d r"
proof -
  let ?p = "nat (it_pos i)" and ?k = "length (enc_elem n v)"
  have e: "drop ?p (it_obj i) = enc_elem n v @ enc_elems d @ 0 # r" and p: "0 \<le> it_pos i"
    using assms by (simp_all add: it_at_def enc_elem_def)
  have np: "nat (it_pos i + int ?k) = ?k + ?p"
    using p by (simp add: nat_add_distrib)
  have "drop (?k + ?p) (it_obj i) = enc_elems d @ 0 # r"
    by (simp flip: drop_drop add: e)
  moreover from this have "?k + ?p \<le> length (it_obj i)"
    by (metis append_is_Nil_conv drop_all linorder_le_cases list.distinct(1))
  ultimately show ?thesis
    using assms p unfolding it_at_def enc_elems_Cons wf_elems.simps
    by (simp add: np small_def)
qed

lemma it_at_next:
  assumes "it_at i ((n, v) # d) r"
  shows "next_elem i = Inr (enc_elem n v @ enc_elems d @ 0 # r,
           i\<lparr>it_pos := it_pos i + int (length (enc_elem n v))\<rparr>)"
proof -
  have "it_pos i \<le> it_end i"
    using assms by (simp add: it_at_def)
  moreover have "ptr_addi (it_obj i) (it_pos i) = Inr (enc_elem n v @ enc_elems d @ 0 # r)"
    using it_at_ptr [OF assms] by (simp add: enc_elem_def)
  moreover have "elem_ok n v"
    using assms by (rule it_at_elem_ok)
  ultimately show ?thesis
    by (simp add: next_elem_def sint_elem_size)
qed

lemma it_at_next_EOO:
  assumes "it_at i [] r"
  shows "next_elem i = Inr (0 # r, i\<lparr>it_pos := it_pos i + 1\<rparr>)"
  using assms it_at_ptr [OF assms] by (simp add: next_elem_def it_at_def)

interpretation obj_iter: elem_source more next_elem obj_view
proof
  fix i :: bson_iter
  assume "obj_view i []"
  then obtain d r where "it_at i d r" "elem_ptrs d (0 # r) = []"
    by (auto simp: obj_view_def)
  then show "\<not> more i"
    by (cases d) (auto simp: it_at_more)
next
  fix i :: bson_iter and e es
  assume "obj_view i (e # es)"
  then obtain d r where v: "it_at i d r" "elem_ptrs d (0 # r) = e # es"
    by (auto simp: obj_view_def)
  then obtain n w d' where d: "d = (n, w) # d'"
    by (cases d) auto
  then show "more i \<and> (\<exists>i'. next_elem i = Inr (e, i') \<and> obj_view i' es)"
    using v it_at_more it_at_next it_at_step unfolding obj_view_def d elem_ptrs.simps by blast
qed

text \<open>With \<open>moreWithEOO\<close> the terminating zero is an element of its own.\<close>

definition obj_view_eoo :: "bson_iter \<Rightarrow> mem list \<Rightarrow> bool" where
  "obj_view_eoo i es =
     ((\<exists>d r. it_at i d r \<and> es = elem_ptrs d (0 # r) @ [0 # r]) \<or> (es = [] \<and> it_end i < it_pos i))"

interpretation obj_iter_eoo: elem_source moreWithEOO next_elem obj_view_eoo
proof
  fix i :: bson_iter
  assume "obj_view_eoo i []"
  then show "\<not> moreWithEOO i"
    by (auto simp: obj_view_eoo_def moreWithEOO_def)
next
  fix i :: bson_iter and e es
  assume "obj_view_eoo i (e # es)"
  then obtain d r where v: "it_at i d r" "elem_ptrs d (0 # r) @ [0 # r] = e # es"
    by (auto simp: obj_view_eoo_def)
  show "moreWithEOO i \<and> (\<exists>i'. next_elem i = Inr (e, i') \<and> obj_view_eoo i' es)"
  proof (cases d)
    case Nil
    then have "next_elem i = Inr (e, i\<lparr>it_pos := it_pos i + 1\<rparr>)" "es = []" "it_end i = it_pos i"
      using v it_at_next_EOO by (auto simp: it_at_def)
    then show ?thesis
      using it_at_moreWithEOO [OF v(1)] by (simp add: obj_view_eoo_def)
  next
    case (Cons a d')
    obtain n w where a: "a = (n, w)" by (cases a) auto
    from v(2) have "e = enc_elem n w @ enc_elems d' @ 0 # r" "es = elem_ptrs d' (0 # r) @ [0 # r]"
      by (simp_all add: Cons a)
    then show ?thesis
      using it_at_moreWithEOO [OF v(1)] it_at_next it_at_step v(1)
      unfolding Cons a obj_view_eoo_def by blast
  qed
qed


text \<open>The iterator \<open>BSONObjIterator(obj)\<close> creates on an encoded document.\<close>

definition enc_iter :: "bdoc \<Rightarrow> mem \<Rightarrow> bson_iter" where
  "enc_iter d r = \<lparr>it_obj = encode d @ r, it_pos = 4, it_end = 4 + int (length (enc_elems d))\<rparr>"

definition elems_ok :: "bdoc \<Rightarrow> bool" where
  "elems_ok d = (\<forall>(n, v) \<in> set d. elem_ok n v)"

lemma elems_ok_simps [simp]:
  "elems_ok []"
  "elems_ok ((n, v) # d) \<longleftrightarrow> elem_ok n v \<and> elems_ok d"
  by (auto simp: elems_ok_def)

lemma elems_okI: "wf_elems d \<Longrightarrow> small (enc_elems d) \<Longrightarrow> elems_ok d"
  by (induction d) (auto simp: elem_ok_def enc_elem_def small_def)

lemma wf_docD:
  assumes "wf_doc d"
  shows "wf_elems d" "small (enc_elems d)" "length (encode d) \<le> 16793600" "elems_ok d"
  using assms elems_okI [of d]
  by (auto simp: wf_doc_def small_def length_encode BSONObjMaxInternalSize_def BSONObjMaxUserSize_def)

lemma wf_doc_iff: "wf_doc d \<longleftrightarrow> wf_elems d \<and> length (enc_elems d) \<le> 16793595"
  by (simp add: wf_doc_def length_encode BSONObjMaxInternalSize_def BSONObjMaxUserSize_def)

lemma objsize_encode [simp]: "objsize (encode d @ r) = Inr (int32 (length (encode d)))"
  by (simp add: objsize_def encode_def)

lemma sint_encode: "wf_doc d \<Longrightarrow> sint (int32 (length (encode d))) = int (length (encode d))"
  using wf_docD(3) by (intro sint_int32) fastforce

lemma sint_encode_elems:
  "wf_doc d \<Longrightarrow> sint (int32 (length (enc_elems d) + 5)) = int (length (enc_elems d)) + 5"
  using sint_encode by (simp add: length_encode)

lemma iter_of_encode [simp]:
  assumes "wf_doc d"
  shows "iter_of (encode d @ r) = Inr (enc_iter d r)"
proof -
  have "int32 (length (encode d)) \<noteq> 0"
    using sint_encode [OF assms] by (auto simp: length_encode)
  then show ?thesis
    by (simp add: iter_of_def enc_iter_def sint_encode assms) (simp add: length_encode)
qed

lemma drop_encode: "drop 4 (encode d @ r) = enc_elems d @ 0 # r"
  by (simp add: encode_def enc_frame_def)

lemma it_at_enc_iter: "wf_doc d \<Longrightarrow> it_at (enc_iter d r) d r"
  using wf_docD [of d]
  by (simp add: it_at_def enc_iter_def drop_encode length_encode del: drop_append)

lemma fuel_enc_iter: "length d + 2 \<le> it_fuel (enc_iter d r)"
  using length_enc_elems [of d] by (simp add: it_fuel_def enc_iter_def length_encode)

lemma while_more_enc [simp]:
  assumes "wf_doc d"
  shows "while_more (enc_iter d r) body s = each body s (elem_ptrs d (0 # r))"
  unfolding while_more_def
proof (rule obj_iter.for_each_view)
  show "obj_view (enc_iter d r) (elem_ptrs d (0 # r))"
    using it_at_enc_iter [OF assms] by (auto simp: obj_view_def)
  show "length (elem_ptrs d (0 # r)) < it_fuel (enc_iter d r)"
    using fuel_enc_iter [of d r] by simp
qed

lemma while_moreWithEOO_enc [simp]:
  assumes "wf_doc d"
  shows "while_moreWithEOO (enc_iter d r) body s = each body s (elem_ptrs d (0 # r) @ [0 # r])"
  unfolding while_moreWithEOO_def
proof (rule obj_iter_eoo.for_each_view)
  show "obj_view_eoo (enc_iter d r) (elem_ptrs d (0 # r) @ [0 # r])"
    using it_at_enc_iter [OF assms] by (auto simp: obj_view_eoo_def)
  show "length (elem_ptrs d (0 # r) @ [0 # r]) < it_fuel (enc_iter d r)"
    using fuel_enc_iter [of d r] by simp
qed

section \<open>Loops on documents\<close>

text \<open>A loop whose body reads only the current element is a loop over the abstract document.\<close>

fun each_doc :: "('s \<Rightarrow> byte list \<Rightarrow> bval \<Rightarrow> ('s, 'r) flow res) \<Rightarrow> 's \<Rightarrow> bdoc \<Rightarrow> ('s, 'r) flow res" where
  "each_doc g s [] = Inr (Go s)"
| "each_doc g s ((n, v) # d) =
     rbind (g s n v) (\<lambda>f. case f of Ret r \<Rightarrow> Inr (Ret r) | Go s' \<Rightarrow> each_doc g s' d)"

lemma flow_case_cong:
  "(\<And>s. k s = k' s) \<Longrightarrow>
   (case f of Ret r \<Rightarrow> Inr (Ret r) | Go s \<Rightarrow> k s) = (case f of Ret r \<Rightarrow> Inr (Ret r) | Go s \<Rightarrow> k' s)"
  by (cases f) auto

lemma each_elem_ptrs:
  assumes "\<And>s n v m. (n, v) \<in> set d \<Longrightarrow> body s (enc_elem n v @ m) = g s n v"
  shows "each body s (elem_ptrs d r) = each_doc g s d"
  using assms
proof (induction d arbitrary: s)
  case Nil
  then show ?case by simp
next
  case (Cons a d)
  obtain n v where a: "a = (n, v)" by (cases a) auto
  have "(\<lambda>s. each body s (elem_ptrs d r)) = (\<lambda>s. each_doc g s d)"
    using Cons by (intro ext) simp
  then show ?case
    using Cons.prems by (simp add: a)
qed

lemma each_doc_fold:
  "(\<And>s n v. (n, v) \<in> set d \<Longrightarrow> g s n v = Inr (Go (f s n v))) \<Longrightarrow>
   each_doc g s d = Inr (Go (foldl (\<lambda>s (n, v). f s n v) s d))"
  by (induction d arbitrary: s) auto

lemma each_append:
  "each body s (es @ fs) =
     rbind (each body s es) (\<lambda>f. case f of Ret r \<Rightarrow> Inr (Ret r) | Go s' \<Rightarrow> each body s' fs)"
proof (induction es arbitrary: s)
  case (Cons e es)
  show ?case
    by (cases "body s e") (auto simp: Cons split: flow.splits)
qed simp

lemma each_fold: "each (\<lambda>s e. Inr (Go (f s e))) s es = Inr (Go (foldl f s es))"
  by (induction es arbitrary: s) auto

end
