(* ===== verification/ObjRefine.thy ===== *)
theory ObjRefine
  imports BsonFormat
begin

text \<open>
  The operations of \<open>BsonObj\<close> implement the operations on abstract documents: on the encoding of a
  well-formed document each returns what its specification says, whatever bytes follow the document.
\<close>

section \<open>Specifications\<close>

text \<open>The element pointer \<open>e\<close> holds the value of a field, or is the empty element.\<close>

definition denotes :: "mem \<Rightarrow> byte list \<Rightarrow> bval option \<Rightarrow> bool" where
  "denotes e name ov =
     (case ov of None \<Rightarrow> e = eooElement | Some v \<Rightarrow> elem_ok name v \<and> (\<exists>t. e = enc_elem name v @ t))"

text \<open>The sub-document of a value, empty for values that are no documents.\<close>

fun subdoc :: "bval option \<Rightarrow> bdoc" where
  "subdoc (Some (VObject d)) = d"
| "subdoc (Some (VArray d)) = d"
| "subdoc _ = []"

text \<open>Lookup of a dotted path: the whole name first, then the part before the first dot.\<close>

function lookup_dotted :: "bdoc \<Rightarrow> byte list \<Rightarrow> bval option" where
  "lookup_dotted d name =
     (case map_of d name of
        Some v \<Rightarrow> Some v
      | None \<Rightarrow>
          (case split_at 46 name of
             None \<Rightarrow> None
           | Some (left, right) \<Rightarrow> lookup_dotted (subdoc (map_of d left)) right))"
  by pat_completeness auto
termination
  by (relation "measure (\<lambda>(d, name). length name)") (auto dest: split_at_shorter)

declare lookup_dotted.simps [simp del]

section \<open>Single fields\<close>

lemma denotes_type:
  "denotes e name ov \<Longrightarrow> elem_type e = Inr (case ov of None \<Rightarrow> EOO | Some v \<Rightarrow> vtype v)"
  by (auto simp: denotes_def split: option.splits)

lemma denotes_eoo: "denotes e name ov \<Longrightarrow> eoo e = Inr (ov = None)"
  by (auto simp: denotes_def split: option.splits)

lemma each_getField:
  assumes "elems_ok d"
  shows "\<exists>e. ret_or (\<lambda>_. Inr eooElement)
      (each (\<lambda>_ e. rmap (\<lambda>b. if b then Ret e else Go ()) (field_is name e)) () (elem_ptrs d r)) = Inr e
    \<and> denotes e name (map_of d name)"
  using assms
proof (induction d)
  case Nil
  then show ?case by (simp add: denotes_def)
next
  case (Cons a d)
  obtain n v where "a = (n, v)" by (cases a) auto
  with Cons show ?case by (cases "n = name") (auto simp: denotes_def)
qed

lemma getField_denotes:
  assumes "wf_doc d"
  shows "\<exists>e. getField (encode d @ r) name = Inr e \<and> denotes e name (map_of d name)"
  using each_getField [OF wf_docD(4) [OF assms]] assms by (simp add: getField_def)

lemma getField_denotesE:
  assumes "wf_doc d"
  obtains e where "getField (encode d @ r) name = Inr e" "denotes e name (map_of d name)"
  using getField_denotes [OF assms] by blast

lemma wf_doc_sub:
  assumes "elem_ok n v" "v = VObject d \<or> v = VArray d" "length (enc_value v) \<le> BSONObjMaxInternalSize"
  shows "wf_doc d"
  using assms elem_okD(2) [OF assms(1)] by (auto simp: wf_doc_def length_encode)

lemma enc_value_in_elems:
  "(n, v) \<in> set d \<Longrightarrow> length (enc_value v) \<le> length (enc_elems d)"
  by (induction d) auto

lemma enc_value_bound:
  assumes "wf_doc d" "(n, v) \<in> set d"
  shows "length (enc_value v) \<le> BSONObjMaxInternalSize" "wf_value v"
  using assms enc_value_in_elems [OF assms(2)]
  by (auto simp: wf_doc_def length_encode wf_elems_iff)

lemma wf_doc_value:
  assumes "wf_doc d" "map_of d name = Some v"
  shows "elem_ok name v" "length (enc_value v) \<le> BSONObjMaxInternalSize"
proof -
  have m: "(name, v) \<in> set d"
    using assms(2) by (rule map_of_SomeD)
  then show "elem_ok name v"
    using wf_docD(4) [OF assms(1)] by (auto simp: elems_ok_def)
  show "length (enc_value v) \<le> BSONObjMaxInternalSize"
    using enc_value_in_elems [OF m] assms(1) by (simp add: wf_doc_def length_encode)
qed

lemma wf_doc_Nil [simp]: "wf_doc []"
  by (simp add: wf_doc_def length_encode BSONObjMaxInternalSize_def BSONObjMaxUserSize_def)

lemma wf_doc_subdoc: "wf_doc d \<Longrightarrow> wf_doc (subdoc (map_of d name))"
  using wf_doc_value [of d name] wf_doc_sub
  by (cases "map_of d name" rule: subdoc.cases) auto

lemma emptyObj_encode: "emptyObj = encode []"
  by code_simp

lemma bson_obj_encode:
  assumes "wf_doc d"
  shows "bson_obj (encode d @ r) = Inr (encode d @ r)"
  using assms wf_docD(3) [OF assms]
  by (simp add: bson_obj_def isValid_def sint_encode_elems BSONObjMaxInternalSize_def
      BSONObjMaxUserSize_def length_encode)

lemma isEmpty_encode: "wf_doc d \<Longrightarrow> isEmpty (encode d @ r) = Inr (d = [])"
  using enc_elems_nonempty [of d] by (auto simp: isEmpty_def sint_encode_elems length_encode)

lemma embeddedObject_enc:
  assumes "elem_ok n v" "wf_doc d" "v = VObject d \<or> v = VArray d"
  shows "embeddedObject (enc_elem n v @ t) = Inr (encode d @ t)"
  using assms
  by (auto simp: embeddedObject_def isABSONObj_def bson_obj_encode encode_def [symmetric])

lemma getObjectField_enc:
  assumes "wf_doc d"
  shows "\<exists>t. getObjectField (encode d @ r) name = Inr (encode (subdoc (map_of d name)) @ t)"
proof -
  obtain e where e: "getField (encode d @ r) name = Inr e" "denotes e name (map_of d name)"
    using assms by (rule getField_denotesE)
  have wf: "wf_doc (subdoc (map_of d name))"
    using assms by (rule wf_doc_subdoc)
  show ?thesis
  proof (cases "map_of d name")
    case None
    then show ?thesis
      using e denotes_type [OF e(2)] by (auto simp: getObjectField_def emptyObj_encode)
  next
    case (Some v)
    then obtain t where t: "elem_ok name v" "e = enc_elem name v @ t"
      using e(2) by (auto simp: denotes_def)
    show ?thesis
    proof (cases "isABSONObj_type (vtype v)")
      case True
      then obtain s where s: "v = VObject s \<or> v = VArray s" "subdoc (Some v) = s"
        "vtype v = Object \<or> vtype v = Array"
        by (cases v) auto
      then have "embeddedObject e = Inr (encode s @ t)"
        using wf Some t by (auto intro!: embeddedObject_enc)
      with s e(1) Some t show ?thesis
        by (auto simp: getObjectField_def)
    next
      case False
      then have "subdoc (Some v) = []" "vtype v \<noteq> Object" "vtype v \<noteq> Array"
        by (cases v; simp)+
      with e(1) Some t show ?thesis
        by (auto simp: getObjectField_def emptyObj_encode)
    qed
  qed
qed

section \<open>Dotted paths\<close>

lemma lookup_dotted_Nil [simp]: "lookup_dotted [] name = None"
proof (induction "length name" arbitrary: name rule: less_induct)
  case less
  show ?case
  proof (cases "split_at 46 name")
    case (Some lr)
    obtain left right where lr: "lr = (left, right)" by (cases lr) auto
    then have "lookup_dotted [] right = None"
      using less Some split_at_shorter by blast
    then show ?thesis
      by (subst lookup_dotted.simps) (simp add: Some lr)
  qed (subst lookup_dotted.simps, simp)
qed

lemma getFieldDotted_denotes:
  assumes "wf_doc d"
  shows "\<exists>e n. getFieldDotted (encode d @ r) name = Inr e \<and> denotes e n (lookup_dotted d name)"
  using assms
proof (induction "length name" arbitrary: name d r rule: less_induct)
  case less
  obtain e where e: "getField (encode d @ r) name = Inr e" "denotes e name (map_of d name)"
    using less.prems by (rule getField_denotesE)
  note ez = denotes_eoo [OF e(2)]
  show ?case
  proof (cases "map_of d name")
    case (Some v)
    then have "getFieldDotted (encode d @ r) name = Inr e" "lookup_dotted d name = Some v"
      using e ez by (simp_all add: getFieldDotted.simps [of "encode d @ r"] lookup_dotted.simps [of d])
    then show ?thesis using e Some by auto
  next
    case None
    show ?thesis
    proof (cases "split_at 46 name")
      case None': None
      then have "getFieldDotted (encode d @ r) name = Inr e" "lookup_dotted d name = None"
        using e ez None by (simp_all add: getFieldDotted.simps [of "encode d @ r"] lookup_dotted.simps [of d])
      then show ?thesis using e None by auto
    next
      case (Some lr)
      obtain left right where lr: "lr = (left, right)" by (cases lr) auto
      let ?s = "subdoc (map_of d left)"
      have wf: "wf_doc ?s" using less.prems by (rule wf_doc_subdoc)
      obtain t where t: "getObjectField (encode d @ r) left = Inr (encode ?s @ t)"
        using getObjectField_enc [OF less.prems] by blast
      have "getFieldDotted (encode d @ r) name =
          (if ?s = [] then Inr eooElement else getFieldDotted (encode ?s @ t) right)"
        using e ez None Some t isEmpty_encode [OF wf]
        by (simp add: getFieldDotted.simps [of "encode d @ r"] lr)
      moreover have "lookup_dotted d name = lookup_dotted ?s right"
        using None Some by (simp add: lookup_dotted.simps [of d] lr)
      moreover have "\<exists>e n. getFieldDotted (encode ?s @ t) right = Inr e
          \<and> denotes e n (lookup_dotted ?s right)"
        using less.hyps wf Some lr split_at_shorter by blast
      ultimately show ?thesis
        by (auto simp: denotes_def)
    qed
  qed
qed

section \<open>Whole objects\<close>

lemma each_nFields:
  assumes "elems_ok d"
  shows "each (\<lambda>n e. rmap (\<lambda>z. if z then Ret n else Go (n + 1)) (eoo e)) (k :: 32 word)
     (elem_ptrs d (0 # r) @ [0 # r]) = Inr (Ret (k + of_nat (length d)))"
  using assms by (induction d arbitrary: k) (auto simp: algebra_simps)

lemma nFields_enc: "wf_doc d \<Longrightarrow> nFields (encode d @ r) = Inr (of_nat (length d))"
  by (simp add: nFields_def each_nFields wf_docD)

lemma elems_enc: "wf_doc d \<Longrightarrow> elems (encode d @ r) = Inr (elem_ptrs d (0 # r))"
proof -
  have "foldl (\<lambda>v e. v @ [e]) v es = v @ es" for v and es :: "mem list"
    by (induction es arbitrary: v) auto
  then show "wf_doc d \<Longrightarrow> ?thesis"
    by (simp add: elems_def each_fold)
qed


text \<open>The size of an object, converted to \<open>size_t\<close>.\<close>

lemma size_t_encode:
  assumes "wf_doc d"
  shows "unat (scast (int32 (length (encode d))) :: 64 word) = length (encode d)"
proof -
  have "scast (int32 (length (encode d))) = (of_nat (length (encode d)) :: 64 word)"
    by (simp add: scast_eq sint_encode [OF assms])
  then show ?thesis
    using wf_docD(3) [OF assms] by (simp add: unat_of_nat)
qed

lemma binaryEqual_enc:
  assumes "wf_doc d" "wf_doc d'"
  shows "binaryEqual (encode d @ r) (encode d' @ r') = Inr (encode d = encode d')"
proof (cases "length (encode d) = length (encode d')")
  case True
  let ?n = "length (encode d)"
  have s: "sint (int32 ?n) = int ?n"
    using assms(1) by (rule sint_encode)
  then have "int32 ?n \<noteq> 0"
    by (auto simp: length_encode)
  moreover note size_t_encode [OF assms(1)]
  moreover have "memcmp (encode d @ r) (encode d' @ r') ?n = Inr (bytes_cmp (encode d) (encode d'))"
    using True by (simp add: memcmp_def)
  ultimately show ?thesis
    using True by (simp add: binaryEqual_def)
next
  case False
  then have "int32 (length (encode d)) \<noteq> int32 (length (encode d'))"
    using sint_encode [OF assms(1)] sint_encode [OF assms(2)] by (metis of_nat_eq_iff)
  with False show ?thesis
    by (auto simp: binaryEqual_def)
qed

definition hash_bytes :: "byte list \<Rightarrow> 32 word" where
  "hash_bytes cs = or (and (foldl hash_step 0 cs) 0x7fffffff) 0x8000000"

lemma hash_enc: "wf_doc d \<Longrightarrow> hash (encode d @ r) = Inr (hash_bytes (encode d))"
  by (simp add: hash_def sint_encode read_bytes_def hash_bytes_def)

end
