(* ===== verification/Builder.thy ===== *)
theory Builder
  imports ObjRefine ParseNumber
begin

text \<open>
  The growing buffer \<open>_BufBuilder\<close> (\<open>bson/util/builder.h\<close>) and the builders on top of it:
  \<open>BSONObjBuilder\<close> and \<open>BSONArrayBuilder\<close> (\<open>bson/bsonobjbuilder.h\<close>, \<open>bson/bson-inl.h\<close>,
  \<open>bson/bson_db.h\<close>).  A buffer is the bytes written so far and the size allocated; bytes a caller
  skips hold zero until they are written.  A nested builder works on its parent's buffer and hands it
  back.  The stream interface (\<open><<\<close>) and the size tracker are not part of the state.
\<close>

section \<open>The buffer\<close>

definition BufferMaxSize :: nat where
  "BufferMaxSize = 64 * 1024 * 1024"

record BufBuilder =
  bb_data :: "byte list"
  bb_size :: nat

definition bb_new :: "nat \<Rightarrow> BufBuilder" where
  "bb_new initsize = \<lparr>bb_data = [], bb_size = initsize\<rparr>"

definition bb_len :: "BufBuilder \<Rightarrow> nat" where
  "bb_len b = length (bb_data b)"

text \<open>\<open>while (a < newLen) a = a * 2\<close>.\<close>

function double_until :: "nat \<Rightarrow> nat \<Rightarrow> nat" where
  "double_until a n = (if 0 < a \<and> a < n then double_until (a * 2) n else a)"
  by pat_completeness auto
termination
  by (relation "measure (\<lambda>(a, n). n - a)") auto

declare double_until.simps [simp del]

text \<open>
  The doubled value is an \<open>int\<close>: past \<open>2^30\<close> it overflows to a negative number and then to zero,
  and the loop does not end.
\<close>

definition grow_reallocate :: "BufBuilder \<Rightarrow> nat \<Rightarrow> BufBuilder res" where
  "grow_reallocate b newLen =
     (if newLen > 2 ^ 30 then Inl NoReturn
      else let a = double_until 64 newLen in
        if a > BufferMaxSize then Inl (MsgAssert 13548) else Inr (b\<lparr>bb_size := a\<rparr>))"

definition bb_grow :: "BufBuilder \<Rightarrow> nat \<Rightarrow> BufBuilder res" where
  "bb_grow b by =
     (let newLen = bb_len b + by in
      if newLen > bb_size b then grow_reallocate b newLen else Inr b)"

text \<open>Writing at the position \<open>grow\<close> returns: the \<open>appendNum\<close>s, \<open>appendStr\<close> and \<open>appendBuf\<close>.\<close>

definition bb_append :: "BufBuilder \<Rightarrow> byte list \<Rightarrow> BufBuilder res" where
  "bb_append b cs = rmap (\<lambda>b. b\<lparr>bb_data := bb_data b @ cs\<rparr>) (bb_grow b (length cs))"

definition bb_appendBuf :: "BufBuilder \<Rightarrow> mem \<Rightarrow> 32 word \<Rightarrow> BufBuilder res" where
  "bb_appendBuf b src len =
     (if sint len < 0 then Inl BadRead
      else rbind (bb_grow b (nat (sint len))) (\<lambda>b'.
        rmap (\<lambda>cs. b'\<lparr>bb_data := bb_data b' @ cs\<rparr>) (read_bytes src (nat (sint len)))))"

definition bb_skip :: "BufBuilder \<Rightarrow> nat \<Rightarrow> BufBuilder res" where
  "bb_skip b n = bb_append b (replicate n 0)"

definition bb_setlen :: "BufBuilder \<Rightarrow> nat \<Rightarrow> BufBuilder" where
  "bb_setlen b n = b\<lparr>bb_data := take n (bb_data b)\<rparr>"

definition bb_reset :: "BufBuilder \<Rightarrow> nat \<Rightarrow> BufBuilder" where
  "bb_reset b maxSize =
     b\<lparr>bb_data := [], bb_size := (if maxSize \<noteq> 0 \<and> bb_size b > maxSize then maxSize else bb_size b)\<rparr>"

text \<open>A store into the buffer.\<close>

definition overwrite :: "nat \<Rightarrow> byte list \<Rightarrow> byte list \<Rightarrow> byte list" where
  "overwrite off cs m = take off m @ cs @ drop (off + length cs) m"

section \<open>The object builder\<close>

record BSONObjBuilder =
  bob_b :: BufBuilder
  bob_offset :: nat
  bob_owned :: bool
  bob_doneCalled :: bool

definition bob_new :: "nat \<Rightarrow> BSONObjBuilder res" where
  "bob_new initsize =
     rbind (bb_append (bb_new (initsize + 4)) (put32 0)) (\<lambda>b. rbind (bb_skip b 4) (\<lambda>b.
       Inr \<lparr>bob_b = b, bob_offset = 4, bob_owned = True, bob_doneCalled = False\<rparr>))"

definition bob_sub :: "BufBuilder \<Rightarrow> BSONObjBuilder res" where
  "bob_sub base =
     rmap (\<lambda>b. \<lparr>bob_b = b, bob_offset = bb_len base, bob_owned = False, bob_doneCalled = False\<rparr>)
       (bb_skip base 4)"

definition bob_put :: "BSONObjBuilder \<Rightarrow> byte list \<Rightarrow> BSONObjBuilder res" where
  "bob_put b cs = rmap (\<lambda>bb. b\<lparr>bob_b := bb\<rparr>) (bb_append (bob_b b) cs)"

definition bob_putBuf :: "BSONObjBuilder \<Rightarrow> mem \<Rightarrow> 32 word \<Rightarrow> BSONObjBuilder res" where
  "bob_putBuf b src len = rmap (\<lambda>bb. b\<lparr>bob_b := bb\<rparr>) (bb_appendBuf (bob_b b) src len)"

text \<open>\<open>_b.appendNum((char) type); _b.appendStr(fieldName);\<close>\<close>

definition bob_header :: "BSONObjBuilder \<Rightarrow> BSONType \<Rightarrow> byte list \<Rightarrow> BSONObjBuilder res" where
  "bob_header b t name =
     rbind (bob_put b [type_byte t]) (\<lambda>b. bob_put b (name @ [0]))"

definition append_elem :: "BSONObjBuilder \<Rightarrow> mem \<Rightarrow> BSONObjBuilder res" where
  "append_elem b e =
     rbind (eoo e) (\<lambda>z. verify (\<not> z) (rbind (elem_size e) (\<lambda>n. bob_putBuf b e n)))"

definition appendAs :: "BSONObjBuilder \<Rightarrow> mem \<Rightarrow> byte list \<Rightarrow> BSONObjBuilder res" where
  "appendAs b e name =
     rbind (elem_type e) (\<lambda>t. verify (t \<noteq> EOO)
       (rbind (bob_header b t name) (\<lambda>b. rbind (elem_value e) (\<lambda>v. rbind (valuesize e) (\<lambda>n.
         bob_putBuf b v n)))))"

definition append_obj :: "BSONObjBuilder \<Rightarrow> byte list \<Rightarrow> mem \<Rightarrow> BSONObjBuilder res" where
  "append_obj b name subObj =
     rbind (bob_header b Object name) (\<lambda>b. rbind (objsize subObj) (\<lambda>n. bob_putBuf b subObj n))"

definition appendObject :: "BSONObjBuilder \<Rightarrow> byte list \<Rightarrow> mem \<Rightarrow> 32 word \<Rightarrow> BSONObjBuilder res" where
  "appendObject b name objdata sz =
     rbind (if sz = 0 then get32 objdata else Inr sz) (\<lambda>n.
       verify (4 < sint n \<and> sint n < 100000000)
         (rbind (bob_header b Object name) (\<lambda>b. bob_putBuf b objdata n)))"

definition appendArray :: "BSONObjBuilder \<Rightarrow> byte list \<Rightarrow> mem \<Rightarrow> BSONObjBuilder res" where
  "appendArray b name subObj =
     rbind (bob_header b Array name) (\<lambda>b. rbind (objsize subObj) (\<lambda>n. bob_putBuf b subObj n))"

definition subobjStart :: "BSONObjBuilder \<Rightarrow> byte list \<Rightarrow> BSONObjBuilder res" where
  "subobjStart b name = bob_header b Object name"

definition subarrayStart :: "BSONObjBuilder \<Rightarrow> byte list \<Rightarrow> BSONObjBuilder res" where
  "subarrayStart b name = bob_header b Array name"

definition appendBool :: "BSONObjBuilder \<Rightarrow> byte list \<Rightarrow> bool \<Rightarrow> BSONObjBuilder res" where
  "appendBool b name v =
     rbind (bob_header b Bool name) (\<lambda>b. bob_put b [if v then 1 else 0])"

definition append_int :: "BSONObjBuilder \<Rightarrow> byte list \<Rightarrow> 32 word \<Rightarrow> BSONObjBuilder res" where
  "append_int b name n = rbind (bob_header b NumberInt name) (\<lambda>b. bob_put b (put32 n))"

definition append_long :: "BSONObjBuilder \<Rightarrow> byte list \<Rightarrow> 64 word \<Rightarrow> BSONObjBuilder res" where
  "append_long b name n = rbind (bob_header b NumberLong name) (\<lambda>b. bob_put b (put64 n))"

definition append_double :: "BSONObjBuilder \<Rightarrow> byte list \<Rightarrow> 64 word \<Rightarrow> BSONObjBuilder res" where
  "append_double b name n = rbind (bob_header b NumberDouble name) (\<lambda>b. bob_put b (put64 n))"

definition appendIntOrLL :: "BSONObjBuilder \<Rightarrow> byte list \<Rightarrow> 64 word \<Rightarrow> BSONObjBuilder res" where
  "appendIntOrLL b name n =
     (let x = (if sint n < 0 then n * -1 else n) in
      if sint x < (2 ^ 31 - 1) div 2 then append_int b name (ucast n) else append_long b name n)"

definition appendNumber_size_t :: "BSONObjBuilder \<Rightarrow> byte list \<Rightarrow> 64 word \<Rightarrow> BSONObjBuilder res" where
  "appendNumber_size_t b name n =
     (if unat n < 2 ^ 30 then append_int b name (ucast n) else append_long b name n)"

definition appendNumber_ll :: "BSONObjBuilder \<Rightarrow> byte list \<Rightarrow> 64 word \<Rightarrow> BSONObjBuilder res" where
  "appendNumber_ll b name n =
     (let nonNegative = (if 0 \<le> sint n then n else - n) in
      if sint nonNegative < 2 ^ 30 then append_int b name (ucast n)
      else if sint nonNegative < 2 ^ 40 then append_double b name (double_of_int (sint n))
      else append_long b name n)"

definition append_oid :: "BSONObjBuilder \<Rightarrow> byte list \<Rightarrow> byte list \<Rightarrow> BSONObjBuilder res" where
  "append_oid b name oid = rbind (bob_header b jstOID name) (\<lambda>b. bob_putBuf b oid 12)"

text \<open>\<open>appendOID\<close> without a generated identifier: a missing one is all zero.\<close>

definition appendOID :: "BSONObjBuilder \<Rightarrow> byte list \<Rightarrow> byte list option \<Rightarrow> BSONObjBuilder res" where
  "appendOID b name oid =
     rbind (bob_header b jstOID name) (\<lambda>b.
       bob_putBuf b (case oid of Some x \<Rightarrow> x | None \<Rightarrow> replicate 12 0) 12)"

definition appendDate :: "BSONObjBuilder \<Rightarrow> byte list \<Rightarrow> 64 word \<Rightarrow> BSONObjBuilder res" where
  "appendDate b name dt = rbind (bob_header b Date name) (\<lambda>b. bob_put b (put64 dt))"

definition appendTimeT :: "BSONObjBuilder \<Rightarrow> byte list \<Rightarrow> 64 word \<Rightarrow> BSONObjBuilder res" where
  "appendTimeT b name dt = rbind (bob_header b Date name) (\<lambda>b. bob_put b (put64 (dt * 1000)))"

definition appendRegex ::
  "BSONObjBuilder \<Rightarrow> byte list \<Rightarrow> byte list \<Rightarrow> byte list \<Rightarrow> BSONObjBuilder res" where
  "appendRegex b name regex options =
     rbind (bob_header b RegEx name) (\<lambda>b. rbind (bob_put b (regex @ [0])) (\<lambda>b.
       bob_put b (options @ [0])))"

text \<open>A length and a terminated string, as \<open>appendCode\<close>, \<open>appendSymbol\<close> and \<open>append\<close> write them.\<close>

definition bob_putStr :: "BSONObjBuilder \<Rightarrow> byte list \<Rightarrow> BSONObjBuilder res" where
  "bob_putStr b s =
     rbind (bob_put b (put32 (int32 (length s) + 1))) (\<lambda>b. bob_put b (s @ [0]))"

definition appendCode :: "BSONObjBuilder \<Rightarrow> byte list \<Rightarrow> byte list \<Rightarrow> BSONObjBuilder res" where
  "appendCode b name code = rbind (bob_header b Code name) (\<lambda>b. bob_putStr b code)"

definition append_str_sz ::
  "BSONObjBuilder \<Rightarrow> byte list \<Rightarrow> mem \<Rightarrow> 32 word \<Rightarrow> BSONObjBuilder res" where
  "append_str_sz b name str sz =
     rbind (bob_header b String name) (\<lambda>b. rbind (bob_put b (put32 sz)) (\<lambda>b. bob_putBuf b str sz))"

definition append_cstr :: "BSONObjBuilder \<Rightarrow> byte list \<Rightarrow> mem \<Rightarrow> BSONObjBuilder res" where
  "append_cstr b name str =
     rbind (strlen str) (\<lambda>n. append_str_sz b name str (int32 n + 1))"

definition append_str :: "BSONObjBuilder \<Rightarrow> byte list \<Rightarrow> byte list \<Rightarrow> BSONObjBuilder res" where
  "append_str b name str = rbind (bob_header b String name) (\<lambda>b. bob_putStr b str)"

definition appendSymbol :: "BSONObjBuilder \<Rightarrow> byte list \<Rightarrow> byte list \<Rightarrow> BSONObjBuilder res" where
  "appendSymbol b name symbol = rbind (bob_header b Symbol name) (\<lambda>b. bob_putStr b symbol)"

definition appendNull :: "BSONObjBuilder \<Rightarrow> byte list \<Rightarrow> BSONObjBuilder res" where
  "appendNull b name = bob_header b jstNULL name"

definition appendMinKey :: "BSONObjBuilder \<Rightarrow> byte list \<Rightarrow> BSONObjBuilder res" where
  "appendMinKey b name = bob_header b MinKey name"

definition appendMaxKey :: "BSONObjBuilder \<Rightarrow> byte list \<Rightarrow> BSONObjBuilder res" where
  "appendMaxKey b name = bob_header b MaxKey name"

definition appendUndefined :: "BSONObjBuilder \<Rightarrow> byte list \<Rightarrow> BSONObjBuilder res" where
  "appendUndefined b name = bob_header b Undefined name"

definition appendTimestamp :: "BSONObjBuilder \<Rightarrow> byte list \<Rightarrow> 64 word \<Rightarrow> BSONObjBuilder res" where
  "appendTimestamp b name v = rbind (bob_header b Timestamp name) (\<lambda>b. bob_put b (put64 v))"

text \<open>The timestamp of seconds and increment, as \<open>OpTime::asDate\<close> packs them.\<close>

definition optime_asDate :: "32 word \<Rightarrow> 32 word \<Rightarrow> 64 word" where
  "optime_asDate secs i = or (push_bit 32 (ucast secs)) (ucast i)"

definition appendTimestamp_inc ::
  "BSONObjBuilder \<Rightarrow> byte list \<Rightarrow> 64 word \<Rightarrow> 32 word \<Rightarrow> BSONObjBuilder res" where
  "appendTimestamp_inc b name time i =
     appendTimestamp b name (optime_asDate (ucast (time div 1000)) i)"

definition appendDBRef ::
  "BSONObjBuilder \<Rightarrow> byte list \<Rightarrow> byte list \<Rightarrow> byte list \<Rightarrow> BSONObjBuilder res" where
  "appendDBRef b name ns oid =
     rbind (bob_header b DBRef name) (\<lambda>b. rbind (bob_putStr b ns) (\<lambda>b. bob_putBuf b oid 12))"

definition appendBinData ::
  "BSONObjBuilder \<Rightarrow> byte list \<Rightarrow> 32 word \<Rightarrow> byte \<Rightarrow> mem \<Rightarrow> BSONObjBuilder res" where
  "appendBinData b name len type data =
     rbind (bob_header b BinData name) (\<lambda>b. rbind (bob_put b (put32 len)) (\<lambda>b.
       rbind (bob_put b [type]) (\<lambda>b. bob_putBuf b data len)))"

definition appendBinDataArrayDeprecated ::
  "BSONObjBuilder \<Rightarrow> byte list \<Rightarrow> mem \<Rightarrow> 32 word \<Rightarrow> BSONObjBuilder res" where
  "appendBinDataArrayDeprecated b name data len =
     rbind (bob_header b BinData name) (\<lambda>b. rbind (bob_put b (put32 (len + 4))) (\<lambda>b.
       rbind (bob_put b [2]) (\<lambda>b. rbind (bob_put b (put32 len)) (\<lambda>b. bob_putBuf b data len))))"

definition appendCodeWScope ::
  "BSONObjBuilder \<Rightarrow> byte list \<Rightarrow> byte list \<Rightarrow> mem \<Rightarrow> BSONObjBuilder res" where
  "appendCodeWScope b name code scope =
     rbind (bob_header b CodeWScope name) (\<lambda>b. rbind (objsize scope) (\<lambda>n.
       rbind (bob_put b (put32 (4 + 4 + int32 (length code) + 1 + n))) (\<lambda>b.
         rbind (bob_putStr b code) (\<lambda>b. bob_putBuf b scope n))))"

definition appendWhere :: "BSONObjBuilder \<Rightarrow> byte list \<Rightarrow> mem \<Rightarrow> BSONObjBuilder res" where
  "appendWhere b code scope = appendCodeWScope b (bs ''$where'') code scope"

text \<open>\<open>_done\<close>: the terminating zero and the size, written over the skipped bytes.\<close>

definition bob_done :: "BSONObjBuilder \<Rightarrow> BSONObjBuilder res" where
  "bob_done b =
     (if bob_doneCalled b then Inr b
      else rbind (bob_put b [0]) (\<lambda>b.
        let sz = bb_len (bob_b b) - bob_offset b in
        Inr (b\<lparr>bob_doneCalled := True,
               bob_b := (bob_b b)\<lparr>bb_data :=
                 overwrite (bob_offset b) (put32 (int32 sz)) (bb_data (bob_b b))\<rparr>\<rparr>)))"

definition bob_bytes :: "BSONObjBuilder \<Rightarrow> mem" where
  "bob_bytes b = drop (bob_offset b) (bb_data (bob_b b))"

definition done_obj :: "BSONObjBuilder \<Rightarrow> (mem \<times> BSONObjBuilder) res" where
  "done_obj b = rbind (bob_done b) (\<lambda>b. rmap (\<lambda>m. (m, b)) (bson_obj (bob_bytes b)))"

definition obj :: "BSONObjBuilder \<Rightarrow> mem res" where
  "obj b = massert 10335 (bob_owned b) (rbind (bob_done b) (\<lambda>b. bson_obj (bob_bytes b)))"

definition asTempObj :: "BSONObjBuilder \<Rightarrow> (mem \<times> BSONObjBuilder) res" where
  "asTempObj b =
     rbind (bob_done b) (\<lambda>b. rmap (\<lambda>m. (m,
       b\<lparr>bob_b := bb_setlen (bob_b b) (bb_len (bob_b b) - 1), bob_doneCalled := False\<rparr>))
       (bson_obj (bob_bytes b)))"

text \<open>Handing a nested builder's buffer back to its parent.\<close>

definition bob_return :: "BSONObjBuilder \<Rightarrow> BSONObjBuilder \<Rightarrow> BSONObjBuilder" where
  "bob_return parent sub = parent\<lparr>bob_b := bob_b sub\<rparr>"

definition numStr :: "int \<Rightarrow> byte list" where
  "numStr i = dec_int i"

section \<open>Operations that copy elements\<close>

definition appendElements :: "BSONObjBuilder \<Rightarrow> mem \<Rightarrow> BSONObjBuilder res" where
  "appendElements b x =
     rbind (iter_of x) (\<lambda>i. ret_or Inr
       (while_moreWithEOO i (\<lambda>b e. rbind (eoo e) (\<lambda>z.
          if z then Inr (Ret b) else rmap Go (append_elem b e))) b))"

definition bob_iterator :: "BSONObjBuilder \<Rightarrow> bson_iter" where
  "bob_iterator b = iter_range (bob_bytes b) (int (length (bob_bytes b)))"

definition bob_hasField :: "BSONObjBuilder \<Rightarrow> byte list \<Rightarrow> bool res" where
  "bob_hasField b name =
     ret_or (\<lambda>_. Inr False)
       (while_more (bob_iterator b)
         (\<lambda>_ e. rmap (\<lambda>eq. if eq then Ret True else Go ()) (field_is name e)) ())"

definition bob_fieldNames :: "BSONObjBuilder \<Rightarrow> byte list set res" where
  "bob_fieldNames b =
     ret_or Inr
       (while_more (bob_iterator b)
         (\<lambda>h e. rbind (fieldName e) (\<lambda>p. rmap (\<lambda>s. Go (insert s h)) (cstr p))) {})"

definition appendElementsUnique :: "BSONObjBuilder \<Rightarrow> mem \<Rightarrow> BSONObjBuilder res" where
  "appendElementsUnique b x =
     rbind (bob_fieldNames b) (\<lambda>have_names. rbind (iter_of x) (\<lambda>i. ret_or Inr
       (while_more i (\<lambda>b e. rbind (fieldName e) (\<lambda>p. rbind (cstr p) (\<lambda>s.
          if s \<in> have_names then Inr (Go b) else rmap Go (append_elem b e)))) b)))"

definition removeField :: "mem \<Rightarrow> byte list \<Rightarrow> mem res" where
  "removeField ob name =
     rbind (bob_new 512) (\<lambda>b. rbind (iter_of ob) (\<lambda>i. ret_or obj
       (while_more i (\<lambda>b e. rbind (field_is name e) (\<lambda>eq.
          if eq then Inr (Go b) else rmap Go (append_elem b e))) b)))"

definition wrap :: "mem \<Rightarrow> mem res" where
  "wrap e =
     rbind (elem_size e) (\<lambda>n. rbind (bob_new (nat (sint n) + 6)) (\<lambda>b.
       rbind (append_elem b e) obj))"

definition wrap_as :: "mem \<Rightarrow> byte list \<Rightarrow> mem res" where
  "wrap_as e name =
     rbind (elem_size e) (\<lambda>n. rbind (bob_new (nat (sint n) + 6 + length name)) (\<lambda>b.
       rbind (appendAs b e name) obj))"

section \<open>The array builder\<close>

record BSONArrayBuilder =
  bab_i :: nat
  bab_b :: BSONObjBuilder

definition bab_new :: "nat \<Rightarrow> BSONArrayBuilder res" where
  "bab_new initsize = rmap (\<lambda>b. \<lparr>bab_i = 0, bab_b = b\<rparr>) (bob_new initsize)"

definition bab_sub :: "BufBuilder \<Rightarrow> BSONArrayBuilder res" where
  "bab_sub base = rmap (\<lambda>b. \<lparr>bab_i = 0, bab_b = b\<rparr>) (bob_sub base)"

text \<open>
  Every append of the array builder names the element \<open>num()\<close>, the decimal of the counter, which it
  increments; \<open>f\<close> is the append of the object builder.
\<close>

definition bab_append ::
  "(BSONObjBuilder \<Rightarrow> byte list \<Rightarrow> BSONObjBuilder res) \<Rightarrow> BSONArrayBuilder \<Rightarrow> BSONArrayBuilder res" where
  "bab_append f a =
     rmap (\<lambda>b. \<lparr>bab_i = bab_i a + 1, bab_b = b\<rparr>) (f (bab_b a) (numStr (int (bab_i a))))"

fun bab_nulls :: "nat \<Rightarrow> BSONArrayBuilder \<Rightarrow> BSONArrayBuilder res" where
  "bab_nulls 0 a = Inr a"
| "bab_nulls (Suc k) a = rbind (bab_append appendNull a) (bab_nulls k)"

definition bab_fill_to :: "int \<Rightarrow> BSONArrayBuilder \<Rightarrow> BSONArrayBuilder res" where
  "bab_fill_to upTo a =
     uassert 15891 (upTo \<le> 1500000) (bab_nulls (nat (upTo - int (bab_i a))) a)"

definition bab_fill :: "byte list \<Rightarrow> BSONArrayBuilder \<Rightarrow> BSONArrayBuilder res" where
  "bab_fill name a =
     (case parseNumberFromStringWithBase (- (2 ^ 63)) (2 ^ 63 - 1) name 10 of
        Inl _ \<Rightarrow> Inl (UserAssert 13048)
      | Inr n \<Rightarrow> bab_fill_to (sint (word_of_int n :: 32 word)) a)"

definition bab_append_at ::
  "(BSONObjBuilder \<Rightarrow> byte list \<Rightarrow> BSONObjBuilder res) \<Rightarrow> byte list \<Rightarrow> BSONArrayBuilder
     \<Rightarrow> BSONArrayBuilder res" where
  "bab_append_at f name a = rbind (bab_fill name a) (bab_append f)"

definition bab_arr :: "BSONArrayBuilder \<Rightarrow> mem res" where
  "bab_arr a = obj (bab_b a)"

text \<open>The templates that append a container as an array or as a sub-object.\<close>

fun append_all ::
  "(BSONObjBuilder \<Rightarrow> byte list \<Rightarrow> 'a \<Rightarrow> BSONObjBuilder res) \<Rightarrow> nat \<Rightarrow> 'a list \<Rightarrow> BSONObjBuilder
     \<Rightarrow> BSONObjBuilder res" where
  "append_all f n [] b = Inr b"
| "append_all f n (x # xs) b = rbind (f b (numStr (int n)) x) (append_all f (n + 1) xs)"

definition append_vector ::
  "(BSONObjBuilder \<Rightarrow> byte list \<Rightarrow> 'a \<Rightarrow> BSONObjBuilder res) \<Rightarrow> BSONObjBuilder \<Rightarrow> byte list \<Rightarrow> 'a list
     \<Rightarrow> BSONObjBuilder res" where
  "append_vector f b name vals =
     rbind (bob_new 512) (\<lambda>ab. rbind (append_all f 0 vals ab) (\<lambda>ab.
       rbind (done_obj ab) (\<lambda>(m, _). appendArray b name m)))"

fun append_pairs ::
  "(BSONObjBuilder \<Rightarrow> byte list \<Rightarrow> 'a \<Rightarrow> BSONObjBuilder res) \<Rightarrow> (byte list \<times> 'a) list \<Rightarrow> BSONObjBuilder
     \<Rightarrow> BSONObjBuilder res" where
  "append_pairs f [] b = Inr b"
| "append_pairs f ((k, x) # xs) b = rbind (f b k x) (append_pairs f xs)"

definition append_map ::
  "(BSONObjBuilder \<Rightarrow> byte list \<Rightarrow> 'a \<Rightarrow> BSONObjBuilder res) \<Rightarrow> BSONObjBuilder \<Rightarrow> byte list
     \<Rightarrow> (byte list \<times> 'a) list \<Rightarrow> BSONObjBuilder res" where
  "append_map f b name vals =
     rbind (bob_new 512) (\<lambda>mb. rbind (append_pairs f vals mb) (\<lambda>mb.
       rbind (obj mb) (\<lambda>m. append_obj b name m)))"

end
