(* ===== verification/TextCodecs.thy ===== *)
theory TextCodecs
  imports CString
begin

text \<open>
  Text forms of binary data: hexadecimal (\<open>util/hex.h\<close>), base64 (\<open>util/base64.cpp\<close>) and object
  identifiers (\<open>bson/oid.cpp\<close>).  The locale \<open>text_codec\<close> states that decoding inverts encoding; both
  base64 and the text form of object identifiers are instances.
\<close>

section \<open>Hexadecimal\<close>

definition hexchars :: "byte list" where
  "hexchars = bs ''0123456789ABCDEF''"

definition hexchars_lower :: "byte list" where
  "hexchars_lower = bs ''0123456789abcdef''"

definition fromHex :: "byte \<Rightarrow> int res" where
  "fromHex c =
     (if 48 \<le> c \<and> c \<le> 57 then Inr (uint c - 48)
      else if 97 \<le> c \<and> c \<le> 102 then Inr (uint c - 97 + 10)
      else if 65 \<le> c \<and> c \<le> 70 then Inr (uint c - 65 + 10)
      else Inl VerifyFailed)"

text \<open>\<open>fromHex(const char*)\<close>: two digits, the first one the high half.\<close>

definition fromHex2 :: "byte \<Rightarrow> byte \<Rightarrow> byte res" where
  "fromHex2 a b =
     rbind (fromHex a) (\<lambda>x. rbind (fromHex b) (\<lambda>y.
       Inr (or (push_bit 4 (word_of_int x)) (word_of_int y))))"

fun toHex_with :: "byte list \<Rightarrow> byte list \<Rightarrow> byte list" where
  "toHex_with tab [] = []"
| "toHex_with tab (c # cs) =
     tab ! unat (drop_bit 4 (and c 0xF0)) # tab ! unat (and c 0x0F) # toHex_with tab cs"

definition toHex :: "byte list \<Rightarrow> byte list" where
  "toHex cs = toHex_with hexchars cs"

definition toHexLower :: "byte list \<Rightarrow> byte list" where
  "toHexLower cs = toHex_with hexchars_lower cs"

section \<open>Object identifiers\<close>

fun fromHex_bytes :: "byte list \<Rightarrow> byte list res" where
  "fromHex_bytes (a # b # s) =
     rbind (fromHex2 a b) (\<lambda>c. rmap ((#) c) (fromHex_bytes s))"
| "fromHex_bytes _ = Inr []"

definition oid_init :: "byte list \<Rightarrow> byte list res" where
  "oid_init s = verify (length s = 24) (fromHex_bytes s)"

definition oid_str :: "byte list \<Rightarrow> byte list" where
  "oid_str x = toHexLower x"

text \<open>The first four bytes hold the time in big-endian order.\<close>

definition oid_time_bytes :: "32 word \<Rightarrow> byte list" where
  "oid_time_bytes t = rev (put32 t)"

definition oid_init_date :: "64 word \<Rightarrow> bool \<Rightarrow> byte list" where
  "oid_init_date dt mx = oid_time_bytes (ucast (dt div 1000)) @ replicate 8 (if mx then 0xFF else 0)"

definition oid_asTimeT :: "byte list \<Rightarrow> int res" where
  "oid_asTimeT x = rmap sint (get32 (rev (take 4 x)))"

text \<open>\<open>initSequential\<close>, given the time and the counter it fetches.\<close>

definition oid_initSequential :: "32 word \<Rightarrow> 64 word \<Rightarrow> byte list" where
  "oid_initSequential t n = oid_time_bytes t @ rev (put64 n)"

text \<open>
  The machine and process part: three bytes of machine number and the process number, which
  \<open>foldInPid\<close> mixes into the number and into the last two machine bytes.
\<close>

record machine_and_pid =
  mp_m0 :: byte
  mp_m1 :: byte
  mp_m2 :: byte
  mp_pid :: "16 word"

definition mp_bytes :: "machine_and_pid \<Rightarrow> byte list" where
  "mp_bytes x = [mp_m0 x, mp_m1 x, mp_m2 x, ucast (mp_pid x), ucast (drop_bit 8 (mp_pid x))]"

definition mp_of_random :: "64 word \<Rightarrow> machine_and_pid" where
  "mp_of_random n =
     \<lparr>mp_m0 = ucast n, mp_m1 = ucast (drop_bit 8 n), mp_m2 = ucast (drop_bit 16 n),
      mp_pid = ucast (drop_bit 24 n)\<rparr>"

definition foldInPid :: "32 word \<Rightarrow> machine_and_pid \<Rightarrow> machine_and_pid" where
  "foldInPid p x =
     x\<lparr>mp_pid := xor (mp_pid x) (ucast p),
       mp_m1 := xor (mp_m1 x) (ucast (drop_bit 16 p)),
       mp_m2 := xor (mp_m2 x) (ucast (drop_bit 24 p))\<rparr>"

record oid_globals =
  ourMachine :: machine_and_pid
  ourMachineAndPid :: machine_and_pid

text \<open>
  \<open>genMachineAndPid\<close> with the random number and the process id it fetches: it also overwrites
  \<open>ourMachine\<close>.
\<close>

definition genMachineAndPid :: "64 word \<Rightarrow> 32 word \<Rightarrow> oid_globals \<Rightarrow> machine_and_pid \<times> oid_globals" where
  "genMachineAndPid n p g =
     (let x = mp_of_random n in (foldInPid p x, g\<lparr>ourMachine := x\<rparr>))"

definition regenMachineId :: "64 word \<Rightarrow> 32 word \<Rightarrow> oid_globals \<Rightarrow> oid_globals" where
  "regenMachineId n p g =
     (let (x, g') = genMachineAndPid n p g in g'\<lparr>ourMachineAndPid := x\<rparr>)"

text \<open>
  \<open>operator!=\<close> compares the machine numbers as arrays, that is by address; \<open>same\<close> says whether the
  two operands are one object.
\<close>

definition mp_neq :: "bool \<Rightarrow> machine_and_pid \<Rightarrow> machine_and_pid \<Rightarrow> bool" where
  "mp_neq same x y \<longleftrightarrow> mp_pid x \<noteq> mp_pid y \<or> \<not> same"

definition getMachineId :: "oid_globals \<Rightarrow> 32 word" where
  "getMachineId g =
     (let x = ourMachineAndPid g
      in of_nat (le_nat [mp_m0 x, mp_m1 x, mp_m2 x, 0]))"

definition justForked :: "64 word \<Rightarrow> 32 word \<Rightarrow> oid_globals \<Rightarrow> oid_globals res" where
  "justForked n p g =
     (let x = foldInPid p (ourMachine g);
          g' = regenMachineId n p g
      in verify (mp_neq False x (ourMachineAndPid g')) (Inr (g'\<lparr>ourMachineAndPid := x\<rparr>)))"

text \<open>\<open>init\<close>, given the time and the counter it fetches.\<close>

definition oid_init_gen :: "32 word \<Rightarrow> 32 word \<Rightarrow> oid_globals \<Rightarrow> byte list" where
  "oid_init_gen t i g =
     oid_time_bytes t @ mp_bytes (ourMachineAndPid g) @ rev (take 3 (put32 i))"

definition oid_compare :: "byte list \<Rightarrow> byte list \<Rightarrow> int" where
  "oid_compare x y = bytes_cmp x y"

definition oid_toIncString :: "byte list \<Rightarrow> byte list" where
  "oid_toIncString x = toHexLower (drop 9 x)"

definition oid_isSet :: "byte list \<Rightarrow> bool" where
  "oid_isSet x \<longleftrightarrow> (\<exists>b \<in> set x. b \<noteq> 0)"

section \<open>Base64\<close>

definition b64_alphabet :: "byte list" where
  "b64_alphabet = bs ''ABCDEFGHIJKLMNOPQRSTUVWXYZabcdefghijklmnopqrstuvwxyz0123456789+/''"

definition b64_e :: "byte \<Rightarrow> byte" where
  "b64_e x = b64_alphabet ! unat (and x 0x3f)"

text \<open>The decoding table: zero, then the index of each character of the alphabet.\<close>

definition b64_d :: "byte \<Rightarrow> byte" where
  "b64_d c =
     (let i = length (takeWhile (\<lambda>x. x \<noteq> c) b64_alphabet) in if i < 64 then of_nat i else 0)"

fun b64_encode :: "byte list \<Rightarrow> byte list" where
  "b64_encode [] = []"
| "b64_encode [a] = [b64_e (drop_bit 2 a), b64_e (push_bit 4 a), 61, 61]"
| "b64_encode [a, b] =
     [b64_e (drop_bit 2 a), b64_e (or (push_bit 4 a) (and (drop_bit 4 b) 0xF)),
      b64_e (push_bit 2 (and b 0xF)), 61]"
| "b64_encode (a # b # c # s) =
     [b64_e (drop_bit 2 a), b64_e (or (push_bit 4 a) (and (drop_bit 4 b) 0xF)),
      b64_e (or (push_bit 2 (and b 0xF)) (and (drop_bit 6 c) 0x3)), b64_e (and c 0x3f)] @
     b64_encode s"

fun b64_decode_loop :: "byte list \<Rightarrow> byte list" where
  "b64_decode_loop (p # q # r # s # rest) =
     (let b0 = or (and (push_bit 2 (b64_d p)) 0xFC) (and (drop_bit 4 (b64_d q)) 0x3);
          b1 = or (and (push_bit 4 (b64_d q)) 0xF0) (and (drop_bit 2 (b64_d r)) 0xF);
          b2 = or (and (push_bit 6 (b64_d r)) 0xC0) (and (b64_d s) 0x3F);
          len = (if s = 61 then (if r = 61 then 1 else 2) else 3)
      in take len [b0, b1, b2] @ b64_decode_loop rest)"
| "b64_decode_loop _ = []"

definition b64_decode :: "byte list \<Rightarrow> byte list res" where
  "b64_decode s = uassert 10270 (length s mod 4 = 0) (Inr (b64_decode_loop s))"

definition b64_chars :: "byte list" where
  "b64_chars = bs ''ABCDEFGHIJKLMNOPQRSTUVWXYZabcdefghijklmnopqrstuvwxyz0123456789+/=''"

section \<open>Decoding inverts encoding\<close>

locale text_codec =
  fixes enc :: "byte list \<Rightarrow> byte list"
    and dec :: "byte list \<Rightarrow> byte list res"
    and valid :: "byte list \<Rightarrow> bool"
  assumes dec_enc: "valid x \<Longrightarrow> dec (enc x) = Inr x"
begin

lemma enc_inj: "valid x \<Longrightarrow> valid y \<Longrightarrow> enc x = enc y \<Longrightarrow> x = y"
  using dec_enc by (metis sum.inject(2))

end

lemma byte_bits_eqI:
  fixes a b :: byte
  assumes "\<And>n. n < 8 \<Longrightarrow> bit a n = bit b n"
  shows "a = b"
  by (rule bit_eqI) (use assms in simp)

lemma less8: "(n :: nat) < 8 \<longleftrightarrow> n \<in> {0, 1, 2, 3, 4, 5, 6, 7}"
  by auto

lemma byte_halves:
  "or (push_bit 4 (drop_bit 4 (and c 0xF0))) (and c 0x0F) = (c :: byte)"
  by (rule byte_bits_eqI) (auto simp: less8 bit_simps)

lemma half_less:
  "unat (drop_bit 4 (and (c :: byte) 0xF0)) < 16" "unat (and (c :: byte) 0x0F) < 16"
proof -
  have "and c 0x0F \<le> (0x0F :: byte)"
    by (rule word_and_le1)
  then show "unat (and c 0x0F) < 16"
    by (simp add: word_le_nat_alt)
  have "and c 0xF0 \<le> (0xF0 :: byte)"
    by (rule word_and_le1)
  then have "unat (and c 0xF0) \<le> 240"
    by (simp add: word_le_nat_alt)
  then show "unat (drop_bit 4 (and c 0xF0)) < 16"
    unfolding unat_drop_bit_eq by (simp add: drop_bit_eq_div)
qed

lemma fromHex_lower: "k < 16 \<Longrightarrow> fromHex (hexchars_lower ! k) = Inr (int k)"
proof -
  have "\<forall>k \<in> set [0..<16]. fromHex (hexchars_lower ! k) = Inr (int k)"
    by code_simp
  then show "k < 16 \<Longrightarrow> ?thesis" by auto
qed

definition hex_hi :: "byte \<Rightarrow> byte" where
  "hex_hi c = hexchars_lower ! unat (drop_bit 4 (and c 0xF0))"

definition hex_lo :: "byte \<Rightarrow> byte" where
  "hex_lo c = hexchars_lower ! unat (and c 0x0F)"

lemma toHexLower_Cons: "toHexLower (c # s) = hex_hi c # hex_lo c # toHexLower s"
  unfolding toHexLower_def toHex_with.simps hex_hi_def hex_lo_def ..

lemma toHexLower_Nil [simp]: "toHexLower [] = []"
  by (simp add: toHexLower_def)

lemma fromHex2_hex [simp]: "fromHex2 (hex_hi c) (hex_lo c) = Inr c"
  unfolding hex_hi_def hex_lo_def
  using byte_halves [of c] by (simp add: fromHex2_def fromHex_lower half_less)

lemma fromHex_toHexLower: "fromHex_bytes (toHexLower s) = Inr s"
  by (induction s) (simp_all add: toHexLower_Cons)

lemma length_toHex_with [simp]: "length (toHex_with tab s) = 2 * length s"
  by (induction s) auto

lemma length_toHexLower [simp]: "length (toHexLower s) = 2 * length s"
  by (simp add: toHexLower_def)

interpretation oid_text: text_codec oid_str oid_init "\<lambda>x. length x = 12"
  by unfold_locales (simp add: oid_init_def oid_str_def fromHex_toHexLower)

lemma b64_d_e: "b64_d (b64_e x) = and x 0x3f"
proof -
  have *: "\<forall>k \<in> set [0..<64]. b64_d (b64_alphabet ! k) = of_nat k"
    by code_simp
  have "and x 0x3f \<le> (0x3f :: byte)"
    by (rule word_and_le1)
  then have "unat (and x 0x3f) < 64"
    by (simp add: word_le_nat_alt)
  with * show ?thesis by (simp add: b64_e_def)
qed

lemma b64_e_no_pad [simp]: "b64_e x \<noteq> 61"
proof -
  have *: "\<forall>k \<in> set [0..<64]. b64_alphabet ! k \<noteq> 61"
    by code_simp
  have "and x 0x3f \<le> (0x3f :: byte)"
    by (rule word_and_le1)
  then have "unat (and x 0x3f) < 64"
    by (simp add: word_le_nat_alt)
  with * show ?thesis by (simp add: b64_e_def)
qed

lemma b64_first:
  "or (and (push_bit 2 (and (drop_bit 2 a) 0x3f)) 0xFC)
      (and (drop_bit 4 (and (or (push_bit 4 a) (and (drop_bit 4 b) 0xF)) 0x3f)) 0x3) = (a :: byte)"
  "or (and (push_bit 2 (and (drop_bit 2 a) 0x3f)) 0xFC)
      (and (drop_bit 4 (and (push_bit 4 a) 0x3f)) 0x3) = (a :: byte)"
  by (rule byte_bits_eqI; auto simp: less8 bit_simps; simp add: numeral_2_eq_2 numeral_3_eq_3)+

lemma b64_second:
  "or (and (push_bit 4 (and (or (push_bit 4 a) (and (drop_bit 4 b) 0xF)) 0x3f)) 0xF0)
      (and (drop_bit 2 (and (or (push_bit 2 (and b 0xF)) (and (drop_bit 6 c) 0x3)) 0x3f)) 0xF) = (b :: byte)"
  "or (and (push_bit 4 (and (or (push_bit 4 a) (and (drop_bit 4 b) 0xF)) 0x3f)) 0xF0)
      (and (drop_bit 2 (and (push_bit 2 (and b 0xF)) 0x3f)) 0xF) = (b :: byte)"
  by (rule byte_bits_eqI; auto simp: less8 bit_simps; simp add: numeral_2_eq_2 numeral_3_eq_3)+

lemma b64_third:
  "or (and (push_bit 6 (and (or (push_bit 2 (and b 0xF)) (and (drop_bit 6 c) 0x3)) 0x3f)) 0xC0)
      (and (and (and c 0x3f) 0x3f) 0x3F) = (c :: byte)"
  by (rule byte_bits_eqI; auto simp: less8 bit_simps; simp add: numeral_2_eq_2 numeral_3_eq_3)

lemma b64_loop_encode: "b64_decode_loop (b64_encode s) = s"
proof (induction s rule: b64_encode.induct)
  case (2 a)
  show ?case
    by (simp only: b64_encode.simps b64_decode_loop.simps Let_def b64_d_e b64_first) simp
next
  case (3 a b)
  show ?case
    by (simp only: b64_encode.simps b64_decode_loop.simps Let_def b64_d_e b64_first b64_second b64_e_no_pad) simp
next
  case (4 a b c s)
  then show ?case
    by (simp only: b64_encode.simps append.simps b64_decode_loop.simps Let_def b64_d_e b64_first b64_second b64_third b64_e_no_pad)
       simp
qed simp

lemma b64_encode_length: "length (b64_encode s) = 4 * ((length s + 2) div 3)"
proof (induction s rule: b64_encode.induct)
  case (4 a b c s)
  have "(length (a # b # c # s) + 2) div 3 = Suc ((length s + 2) div 3)"
    by simp
  with 4 show ?case by simp
qed auto

interpretation base64_text: text_codec b64_encode b64_decode "\<lambda>_. True"
  by unfold_locales (simp add: b64_decode_def b64_loop_encode b64_encode_length)

lemma b64_e_in_chars: "b64_e x \<in> set b64_chars"
proof -
  have *: "\<forall>k \<in> set [0..<64]. b64_alphabet ! k \<in> set b64_chars"
    by code_simp
  have "and x 0x3f \<le> (0x3f :: byte)"
    by (rule word_and_le1)
  then have "unat (and x 0x3f) < 64"
    by (simp add: word_le_nat_alt)
  with * show ?thesis by (simp add: b64_e_def)
qed

lemma pad_in_chars: "61 \<in> set b64_chars"
  by code_simp

lemma b64_encode_chars: "set (b64_encode s) \<subseteq> set b64_chars"
  by (induction s rule: b64_encode.induct) (auto simp: b64_e_in_chars pad_in_chars)

text \<open>
  C18: Base64 decoding inverts encoding on every byte string; the encoding is injective, its length
  is four for every started group of three bytes, and it uses only the characters the parser accepts.
\<close>

theorem base64_roundtrip:
  "b64_decode (b64_encode s) = Inr s \<and>
   length (b64_encode s) = 4 * ((length s + 2) div 3) \<and>
   set (b64_encode s) \<subseteq> set b64_chars \<and>
   inj b64_encode"
  using base64_text.dec_enc base64_text.enc_inj
  by (simp add: b64_encode_length b64_encode_chars inj_def)

lemma oid_time_roundtrip: "oid_asTimeT (oid_time_bytes t @ r) = Inr (sint t)"
  using i32.get_put [of t "[]"] by (simp add: oid_asTimeT_def oid_time_bytes_def)



lemma foldInPid_involutive [simp]: "foldInPid p (foldInPid p x) = x"
  by (simp add: foldInPid_def xor.assoc)

text \<open>
  The check of \<open>justForked\<close> that the identity after a fork differs from a freshly drawn one can
  never fail: the comparison looks at the addresses of the machine numbers, so it holds also when
  the two identities are equal.  \<open>justForked\<close> always returns and leaves the old machine number
  folded with the new process id as the identity in use.
\<close>

theorem justForked_never_fails:
  "(\<exists>g'. justForked n p g = Inr g' \<and>
         ourMachineAndPid g' = foldInPid p (ourMachine g) \<and>
         ourMachine g' = mp_of_random n) \<and>
   mp_neq False x x"
  by (simp add: justForked_def mp_neq_def regenMachineId_def genMachineAndPid_def Let_def)

end
