(* ===== verification/JsonParse.thy ===== *)
theory JsonParse
  imports Builder TextCodecs CNumbers
begin

text \<open>
  The JSON reader \<open>JParse\<close> and \<open>fromjson\<close> (\<open>db/json.cpp\<close>).  The unread input is the list of bytes
  from \<open>_input\<close> to \<open>_input_end\<close>; it holds no zero byte, since \<open>_input_end\<close> is found by \<open>strlen\<close>.
  A \<open>Status\<close> other than OK is the error value \<open>BadStatus\<close> with the message, without the offset
  \<open>parseError\<close> appends.  On an error the builders are thrown away, so only the success path says
  when a nested builder is completed.  \<open>value\<close> and the handlers that call it recurse through an
  argument; \<open>jvalue\<close> ties the knot with a bound on the nesting, for which the length of the input
  is always enough (theorems in \<open>JsonRefine\<close>).
\<close>

section \<open>Tokens\<close>

definition jfail :: "string \<Rightarrow> 'a res" where
  "jfail msg = Inl (BadStatus msg)"

text \<open>\<open>accept\<close>: the input behind the token, when it comes next after white space.\<close>

definition accept :: "byte list \<Rightarrow> byte list \<Rightarrow> byte list option" where
  "accept token s =
     (let check = skip_space s
      in if take (length token) check = token then Some (drop (length token) check) else None)"

definition expect :: "byte list \<Rightarrow> string \<Rightarrow> byte list \<Rightarrow> (byte list \<Rightarrow> 'a res) \<Rightarrow> 'a res" where
  "expect token msg s k = (case accept token s of None \<Rightarrow> jfail msg | Some r \<Rightarrow> k r)"

text \<open>\<open>strchr\<close> also finds the terminating zero of the set.\<close>

definition jmatch :: "byte \<Rightarrow> byte list \<Rightarrow> bool" where
  "jmatch c matchSet \<longleftrightarrow> matchSet \<noteq> [] \<and> (c \<in> set matchSet \<or> c = 0)"

definition isHexString :: "byte list \<Rightarrow> bool" where
  "isHexString s \<longleftrightarrow> (\<forall>c \<in> set s. isxdigit c)"

definition isBase64String :: "byte list \<Rightarrow> bool" where
  "isBase64String s \<longleftrightarrow> (\<forall>c \<in> set s. jmatch c b64_chars)"

definition alpha :: "byte list" where
  "alpha = bs ''ABCDEFGHIJKLMNOPQRSTUVWXYZabcdefghijklmnopqrstuvwxyz''"

definition digit :: "byte list" where
  "digit = bs ''0123456789''"

definition joptions :: "byte list" where
  "joptions = bs ''gims''"

section \<open>Strings and field names\<close>

definition encodeUTF8 :: "byte \<Rightarrow> byte \<Rightarrow> byte list" where
  "encodeUTF8 first second =
     (if first = 0 \<and> second < 0x80 then [second]
      else if first < 0x08 then
        [or 0xc0 (or (push_bit 2 first) (drop_bit 6 second)), or 0x80 (and 0x3f second)]
      else
        [or 0xe0 (drop_bit 4 first),
         or 0x80 (and 0x3f (or (push_bit 2 first) (drop_bit 6 second))),
         or 0x80 (and 0x3f second)])"

text \<open>The character a backslash and \<open>c\<close> stand for, \<open>u\<close>, \<open>x\<close> and the octal digits excepted.\<close>

definition unescape :: "byte \<Rightarrow> byte" where
  "unescape c =
     (if c = 98 then 8 else if c = 102 then 12 else if c = 110 then 10 else if c = 114 then 13
      else if c = 116 then 9 else if c = 118 then 11 else c)"

fun chars_loop ::
  "byte list \<Rightarrow> byte list option \<Rightarrow> byte list \<Rightarrow> byte list \<Rightarrow> (byte list \<times> byte list) res" where
  "chars_loop terminalSet allowedSet result [] = jfail ''Unexpected end of input''"
| "chars_loop terminalSet allowedSet result (c # q) =
     (if jmatch c terminalSet then Inr (result, c # q)
      else if (case allowedSet of None \<Rightarrow> False | Some a \<Rightarrow> \<not> jmatch c a) then Inr (result, c # q)
      else if c \<le> 0x1F then jfail ''Invalid control character''
      else if c = 92 \<and> q \<noteq> [] then
        let d = hd q; r = tl q in
        if d = 117 then
          (if length r \<le> 4 \<or> \<not> isHexString (take 4 r) then jfail ''Expecting 4 hex digits''
           else rbind (fromHex2 (r ! 0) (r ! 1)) (\<lambda>first. rbind (fromHex2 (r ! 2) (r ! 3)) (\<lambda>second.
             chars_loop terminalSet allowedSet (result @ encodeUTF8 first second) (drop 4 r))))
        else if d = 120 then jfail ''Hex escape not supported''
        else if 48 \<le> d \<and> d \<le> 55 then jfail ''Octal escape not supported''
        else chars_loop terminalSet allowedSet (result @ [unescape d]) r
      else chars_loop terminalSet allowedSet (result @ [c]) q)"

declare chars_loop.simps(2) [simp del]

definition jchars :: "byte list \<Rightarrow> byte list option \<Rightarrow> byte list \<Rightarrow> (byte list \<times> byte list) res" where
  "jchars terminalSet allowedSet s = chars_loop terminalSet allowedSet [] s"

definition quotedString :: "byte list \<Rightarrow> (byte list \<times> byte list) res" where
  "quotedString s =
     (case accept [34] s of
        Some r \<Rightarrow> rbind (jchars [34] None r) (\<lambda>(x, r). expect [34] ''Expecting quote'' r (\<lambda>r. Inr (x, r)))
      | None \<Rightarrow>
          case accept [39] s of
            Some r \<Rightarrow> rbind (jchars [39] None r) (\<lambda>(x, r). expect [39] ''Expecting quote'' r (\<lambda>r. Inr (x, r)))
          | None \<Rightarrow> jfail ''Expecting quoted string'')"

definition jfield :: "byte list \<Rightarrow> (byte list \<times> byte list) res" where
  "jfield s =
     (if accept [34] s \<noteq> None \<or> accept [39] s \<noteq> None then quotedString s
      else case skip_space s of
             [] \<Rightarrow> jfail ''Field name expected''
           | c # r \<Rightarrow>
               if \<not> jmatch c (alpha @ bs ''_$'') then jfail ''First character in field must be [A-Za-z$_]''
               else jchars [] (Some (alpha @ digit @ bs ''_$'')) (c # r))"

definition acceptField :: "byte list \<Rightarrow> byte list \<Rightarrow> byte list option" where
  "acceptField expectedField s =
     (case jfield s of
        Inl _ \<Rightarrow> None
      | Inr (nextField, r) \<Rightarrow> if expectedField = nextField then Some r else None)"

definition expect_field :: "byte list \<Rightarrow> string \<Rightarrow> byte list \<Rightarrow> (byte list \<Rightarrow> 'a res) \<Rightarrow> 'a res" where
  "expect_field name msg s k = (case acceptField name s of None \<Rightarrow> jfail msg | Some r \<Rightarrow> k r)"

section \<open>Scalar values\<close>

type_synonym jresult = "(byte list \<times> BSONObjBuilder) res"

type_synonym jhandler = "byte list \<Rightarrow> byte list \<Rightarrow> BSONObjBuilder \<Rightarrow> jresult"

text \<open>\<open>builder.append...; return Status::OK();\<close> with the input left at \<open>s\<close>.\<close>

definition appended :: "byte list \<Rightarrow> BSONObjBuilder res \<Rightarrow> jresult" where
  "appended s r = rmap (\<lambda>b. (s, b)) r"

definition parse_oid :: "byte list \<Rightarrow> byte list res" where
  "parse_oid x =
     (if length x \<noteq> 24 then jfail ''Expecting 24 hex digits''
      else if \<not> isHexString x then jfail ''Expecting hex digits''
      else oid_init x)"

definition objectIdObject :: jhandler where
  "objectIdObject name s b =
     expect (bs '':'') ''Expected :'' s (\<lambda>s. rbind (quotedString s) (\<lambda>(x, s).
       rbind (parse_oid x) (\<lambda>oid. appended s (append_oid b name oid))))"

definition binaryObject :: jhandler where
  "binaryObject name s b =
     expect (bs '':'') ''Expected :'' s (\<lambda>s. rbind (quotedString s) (\<lambda>(binDataString, s).
       if length binDataString mod 4 \<noteq> 0 then jfail ''Invalid length base64 encoded string''
       else if \<not> isBase64String binDataString then jfail ''Invalid character in base64 encoded string''
       else rbind (b64_decode binDataString) (\<lambda>binData.
         expect (bs '','') ''Expected ,'' s (\<lambda>s.
         expect_field (bs ''$type'') ''Expected second field name: $type, in $binary object'' s (\<lambda>s.
         expect (bs '':'') ''Expected :'' s (\<lambda>s. rbind (quotedString s) (\<lambda>(binDataType, s).
           if length binDataType \<noteq> 2 \<or> \<not> isHexString binDataType
           then jfail ''Argument of $type must be a hex string of a single byte''
           else rbind (fromHex2 (binDataType ! 0) (binDataType ! 1)) (\<lambda>t.
             appended s (appendBinData b name (int32 (length binData)) t binData)))))))))"

text \<open>\<open>strtoll\<close>, and \<open>strtoull\<close> when the number does not fit.\<close>

definition parse_millis :: "byte list \<Rightarrow> (64 word \<times> byte list) res" where
  "parse_millis s =
     (let (v, r, erange) = strtoll s in
      if r = s then jfail ''Date expecting integer milliseconds''
      else if erange then
        let (u, r', erange') = strtoull s in
        if erange' then jfail ''Date milliseconds overflow'' else Inr (u, r')
      else Inr (word_of_int v, r))"

definition dateObject :: jhandler where
  "dateObject name s b =
     expect (bs '':'') ''Expected :'' s (\<lambda>s. rbind (parse_millis s) (\<lambda>(dt, s).
       appended s (appendDate b name dt)))"

text \<open>The unsigned long is assigned to a \<open>uint32_t\<close>.\<close>

definition parse_u32 :: "byte list \<Rightarrow> (32 word \<times> byte list) res" where
  "parse_u32 s =
     (if accept (bs ''-'') s \<noteq> None then jfail ''Negative value in $timestamp''
      else let (u, r, erange) = strtoull s in
        if erange then jfail ''Timestamp overflow''
        else if r = s then jfail ''Expecting unsigned integer in $timestamp''
        else Inr (ucast u, r))"

definition append_ts :: "BSONObjBuilder \<Rightarrow> byte list \<Rightarrow> 32 word \<Rightarrow> 32 word \<Rightarrow> BSONObjBuilder res" where
  "append_ts b name seconds count = appendTimestamp_inc b name (ucast seconds * 1000) count"

definition timestampObject :: jhandler where
  "timestampObject name s b =
     expect (bs '':'') ''Expecting :'' s (\<lambda>s.
     expect (bs ''{'') ''Expecting { to start $timestamp object'' s (\<lambda>s.
     expect_field (bs ''t'') ''Expected field name t in $timestamp sub object'' s (\<lambda>s.
     expect (bs '':'') ''Expecting :'' s (\<lambda>s. rbind (parse_u32 s) (\<lambda>(seconds, s).
     expect (bs '','') ''Expecting ,'' s (\<lambda>s.
     expect_field (bs ''i'') ''Expected field name i in $timestamp sub object'' s (\<lambda>s.
     expect (bs '':'') ''Expecting :'' s (\<lambda>s. rbind (parse_u32 s) (\<lambda>(count, s).
     expect (bs ''}'') ''Expecting }'' s (\<lambda>s.
       appended s (append_ts b name seconds count)))))))))))"

definition regexOptCheck :: "byte list \<Rightarrow> unit res" where
  "regexOptCheck opt =
     (if \<forall>c \<in> set opt. jmatch c joptions then Inr () else jfail ''Bad regex option'')"

definition regexObject :: jhandler where
  "regexObject name s b =
     expect (bs '':'') ''Expecting :'' s (\<lambda>s. rbind (quotedString s) (\<lambda>(pat, s).
       case accept (bs '','') s of
         None \<Rightarrow> appended s (appendRegex b name pat [])
       | Some s \<Rightarrow>
           expect_field (bs ''$options'') ''Expected field name: $options in $regex object'' s (\<lambda>s.
           expect (bs '':'') ''Expecting :'' s (\<lambda>s. rbind (quotedString s) (\<lambda>(opt, s).
             rbind (regexOptCheck opt) (\<lambda>_. appended s (appendRegex b name pat opt)))))))"

definition undefinedObject :: jhandler where
  "undefinedObject name s b =
     expect (bs '':'') ''Expecting :'' s (\<lambda>s.
     expect (bs ''true'') ''Reserved field $undefined requires value of true'' s (\<lambda>s.
       appended s (appendUndefined b name)))"

text \<open>
  \<open>date\<close> with the \<open>Status\<close> it returns, \<open>None\<close> for OK, and the input and builder it leaves behind:
  \<open>constructor\<close> goes on with them whatever the status.
\<close>

definition date_status ::
  "byte list \<Rightarrow> byte list \<Rightarrow> BSONObjBuilder \<Rightarrow> (string option \<times> byte list \<times> BSONObjBuilder) res" where
  "date_status name s b =
     (case accept (bs ''('') s of
        None \<Rightarrow> Inr (Some ''Expecting ('', s, b)
      | Some s \<Rightarrow>
          case parse_millis s of
            Inl _ \<Rightarrow> Inr (Some ''Date expecting integer milliseconds'', s, b)
          | Inr (dt, s) \<Rightarrow>
              case accept (bs '')'') s of
                None \<Rightarrow> Inr (Some ''Expecting )'', s, b)
              | Some s \<Rightarrow> rmap (\<lambda>b. (None, s, b)) (appendDate b name dt))"

definition jdate :: jhandler where
  "jdate name s b =
     rbind (date_status name s b) (\<lambda>(status, s, b).
       case status of None \<Rightarrow> Inr (s, b) | Some msg \<Rightarrow> jfail msg)"

definition jconstructor :: jhandler where
  "jconstructor name s b =
     expect (bs ''Date'') ''new keyword not followed by Date constructor'' s (\<lambda>s.
       rmap (\<lambda>(status, s, b). (s, b)) (date_status name s b))"

definition jtimestamp :: jhandler where
  "jtimestamp name s b =
     expect (bs ''('') ''Expecting ('' s (\<lambda>s. rbind (parse_u32 s) (\<lambda>(seconds, s).
     expect (bs '','') ''Expecting ,'' s (\<lambda>s. rbind (parse_u32 s) (\<lambda>(count, s).
     expect (bs '')'') ''Expecting )'' s (\<lambda>s.
       appended s (append_ts b name seconds count))))))"

definition jobjectId :: jhandler where
  "jobjectId name s b =
     expect (bs ''('') ''Expecting ('' s (\<lambda>s. rbind (quotedString s) (\<lambda>(x, s).
     expect (bs '')'') ''Expecting )'' s (\<lambda>s.
       rbind (parse_oid x) (\<lambda>oid. appended s (append_oid b name oid)))))"

definition regexPat :: "byte list \<Rightarrow> (byte list \<times> byte list) res" where
  "regexPat s = jchars (bs ''/'') None s"

definition regexOpt :: "byte list \<Rightarrow> (byte list \<times> byte list) res" where
  "regexOpt s = jchars [] (Some joptions) s"

definition jregex :: jhandler where
  "jregex name s b =
     expect (bs ''/'') ''Expecting /'' s (\<lambda>s. rbind (regexPat s) (\<lambda>(pat, s).
     expect (bs ''/'') ''Expecting /'' s (\<lambda>s. rbind (regexOpt s) (\<lambda>(opt, s).
       rbind (regexOptCheck opt) (\<lambda>_. appended s (appendRegex b name pat opt))))))"

definition jnumber :: jhandler where
  "jnumber name s b =
     (let (retd, endptrd, erange) = strtod s in
      if endptrd = s then jfail ''Bad characters in value''
      else if erange then jfail ''Value cannot fit in double''
      else
        let (retll, endptrll, erangell) = strtoll s in
        rbind
          (if length endptrd < length endptrll \<or> erangell then append_double b name retd
           else if - (2 ^ 31) \<le> retll \<and> retll < 2 ^ 31 then append_int b name (word_of_int retll)
           else append_long b name (word_of_int retll))
          (\<lambda>b. if endptrd = [] then jfail ''Trailing number at end of input'' else Inr (endptrd, b)))"

section \<open>Structured values\<close>

text \<open>The body of a sub-object on the parent's buffer, closed by \<open>fin\<close>.\<close>

definition dbRefObject :: "jhandler \<Rightarrow> jhandler" where
  "dbRefObject val name s b =
     rbind (subobjStart b name) (\<lambda>b. rbind (bob_sub (bob_b b)) (\<lambda>sub.
     expect (bs '':'') ''Expecting :'' s (\<lambda>s. rbind (quotedString s) (\<lambda>(ns, s).
     rbind (append_str sub (bs ''$ref'') ns) (\<lambda>sub.
     expect (bs '','') ''Expecting ,'' s (\<lambda>s.
     expect_field (bs ''$id'') ''Expected field name: $id in $ref object'' s (\<lambda>s.
     expect (bs '':'') ''Expecting :'' s (\<lambda>s.
     rbind (val (bs ''$id'') s sub) (\<lambda>(s, sub).
       rmap (\<lambda>(_, sub). (s, bob_return b sub)) (done_obj sub)))))))))) "

definition dbRef :: "jhandler \<Rightarrow> jhandler" where
  "dbRef val name s b =
     rbind (subobjStart b name) (\<lambda>b. rbind (bob_sub (bob_b b)) (\<lambda>sub.
     expect (bs ''('') ''Expecting ('' s (\<lambda>s. rbind (quotedString s) (\<lambda>(ns, s).
     rbind (append_str sub (bs ''$ref'') ns) (\<lambda>sub.
     expect (bs '','') ''Expecting ,'' s (\<lambda>s.
     rbind (val (bs ''$id'') s sub) (\<lambda>(s, sub).
     expect (bs '')'') ''Expecting )'' s (\<lambda>s.
       rmap (\<lambda>(_, sub). (s, bob_return b sub)) (done_obj sub)))))))))"

fun array_loop :: "jhandler \<Rightarrow> nat \<Rightarrow> 32 word \<Rightarrow> byte list \<Rightarrow> BSONObjBuilder \<Rightarrow> jresult" where
  "array_loop val 0 index s b = Inl NoReturn"
| "array_loop val (Suc n) index s b =
     rbind (val (numStr (sint index)) s b) (\<lambda>(s, b).
       case accept (bs '','') s of
         None \<Rightarrow> Inr (s, b)
       | Some s \<Rightarrow> array_loop val n (index + 1) s b)"

definition jarray :: "jhandler \<Rightarrow> jhandler" where
  "jarray val name s b =
     expect (bs ''['') ''Expecting ['' s (\<lambda>s.
     rbind (subarrayStart b name) (\<lambda>b. rbind (bob_sub (bob_b b)) (\<lambda>sub.
     rbind (if accept (bs '']'') s = None then array_loop val (Suc (length s)) 0 s sub else Inr (s, sub))
       (\<lambda>(s, sub). rbind (done_obj sub) (\<lambda>(_, sub).
     expect (bs '']'') ''Expecting ] or ,'' s (\<lambda>s. Inr (s, bob_return b sub)))))))"

fun members_loop :: "jhandler \<Rightarrow> nat \<Rightarrow> byte list \<Rightarrow> BSONObjBuilder \<Rightarrow> jresult" where
  "members_loop val 0 s b = Inl NoReturn"
| "members_loop val (Suc n) s b =
     (case accept (bs '','') s of
        None \<Rightarrow> Inr (s, b)
      | Some s \<Rightarrow>
          rbind (jfield s) (\<lambda>(fieldName, s).
          expect (bs '':'') ''Expecting :'' s (\<lambda>s.
          rbind (val fieldName s b) (\<lambda>(s, b). members_loop val n s b))))"

definition jmembers :: "jhandler \<Rightarrow> jhandler" where
  "jmembers val firstField s b =
     expect (bs '':'') ''Expecting :'' s (\<lambda>s.
     rbind (val firstField s b) (\<lambda>(s, b). members_loop val (Suc (length s)) s b))"

text \<open>
  A normal object: with \<open>subObject\<close> its members go to a builder on the parent's buffer, which the
  end of the block destroys and thereby completes.
\<close>

definition normalObject :: "jhandler \<Rightarrow> bool \<Rightarrow> byte list \<Rightarrow> jhandler" where
  "normalObject val subObject firstField name s b =
     (if subObject then
        rbind (subobjStart b name) (\<lambda>b. rbind (bob_sub (bob_b b)) (\<lambda>sub.
        rbind (jmembers val firstField s sub) (\<lambda>(s, sub).
          rmap (\<lambda>sub. (s, bob_return b sub)) (bob_done sub))))
      else jmembers val firstField s b)"

definition emptyObject :: "bool \<Rightarrow> byte list \<Rightarrow> byte list \<Rightarrow> BSONObjBuilder \<Rightarrow> jresult" where
  "emptyObject subObject name s b =
     (if subObject then
        rbind (subobjStart b name) (\<lambda>b. rbind (bob_sub (bob_b b)) (\<lambda>sub.
          rmap (\<lambda>(_, sub). (s, bob_return b sub)) (done_obj sub)))
      else Inr (s, b))"

text \<open>A reserved first field is refused in the base object.\<close>

definition reserved_in_base :: "bool \<Rightarrow> jresult \<Rightarrow> jresult" where
  "reserved_in_base subObject k =
     (if \<not> subObject then jfail ''Reserved field name in base object'' else k)"

text \<open>What follows the first field name, up to the closing brace.\<close>

definition objectBody :: "jhandler \<Rightarrow> bool \<Rightarrow> byte list \<Rightarrow> jhandler" where
  "objectBody val subObject firstField name s b =
     (if firstField = bs ''$oid'' then reserved_in_base subObject (objectIdObject name s b)
      else if firstField = bs ''$binary'' then reserved_in_base subObject (binaryObject name s b)
      else if firstField = bs ''$date'' then reserved_in_base subObject (dateObject name s b)
      else if firstField = bs ''$timestamp'' then reserved_in_base subObject (timestampObject name s b)
      else if firstField = bs ''$regex'' then reserved_in_base subObject (regexObject name s b)
      else if firstField = bs ''$ref'' then reserved_in_base subObject (dbRefObject val name s b)
      else if firstField = bs ''$undefined'' then reserved_in_base subObject (undefinedObject name s b)
      else normalObject val subObject firstField name s b)"

definition jobject :: "jhandler \<Rightarrow> bool \<Rightarrow> jhandler" where
  "jobject val subObject name s b =
     expect (bs ''{'') ''Expecting {'' s (\<lambda>s.
     case accept (bs ''}'') s of
       Some s \<Rightarrow> emptyObject subObject name s b
     | None \<Rightarrow>
         rbind (jfield s) (\<lambda>(firstField, s).
         rbind (objectBody val subObject firstField name s b)
           (\<lambda>(s, b). expect (bs ''}'') ''Expecting } or ,'' s (\<lambda>s. Inr (s, b)))))"

section \<open>Values\<close>

definition quiet_NaN :: "64 word" where
  "quiet_NaN = 0x7FF8000000000000"

definition infinity :: "64 word" where
  "infinity = 0x7FF0000000000000"

definition neg_infinity :: "64 word" where
  "neg_infinity = 0xFFF0000000000000"

text \<open>The words \<open>value\<close> accepts, with the values they append.\<close>

definition jwords :: "(byte list \<times> (BSONObjBuilder \<Rightarrow> byte list \<Rightarrow> BSONObjBuilder res)) list" where
  "jwords =
     [(bs ''true'', \<lambda>b name. appendBool b name True),
      (bs ''false'', \<lambda>b name. appendBool b name False),
      (bs ''null'', appendNull),
      (bs ''undefined'', appendUndefined),
      (bs ''NaN'', \<lambda>b name. append_double b name quiet_NaN),
      (bs ''Infinity'', \<lambda>b name. append_double b name infinity),
      (bs ''-Infinity'', \<lambda>b name. append_double b name neg_infinity)]"

fun accept_word ::
  "(byte list \<times> (BSONObjBuilder \<Rightarrow> byte list \<Rightarrow> BSONObjBuilder res)) list \<Rightarrow> jhandler" where
  "accept_word [] name s b = jnumber name s b"
| "accept_word ((w, f) # ws) name s b =
     (case accept w s of Some s \<Rightarrow> appended s (f b name) | None \<Rightarrow> accept_word ws name s b)"

definition value_with :: "jhandler \<Rightarrow> jhandler" where
  "value_with val name s b =
     (if accept (bs ''{'') s \<noteq> None then jobject val True name s b
      else if accept (bs ''['') s \<noteq> None then jarray val name s b
      else case accept (bs ''new'') s of Some s \<Rightarrow> jconstructor name s b | None \<Rightarrow>
      case accept (bs ''Date'') s of Some s \<Rightarrow> jdate name s b | None \<Rightarrow>
      case accept (bs ''Timestamp'') s of Some s \<Rightarrow> jtimestamp name s b | None \<Rightarrow>
      case accept (bs ''ObjectId'') s of Some s \<Rightarrow> jobjectId name s b | None \<Rightarrow>
      case accept (bs ''Dbref'') s of Some s \<Rightarrow> dbRef val name s b | None \<Rightarrow>
      case accept (bs ''DBRef'') s of Some s \<Rightarrow> dbRef val name s b | None \<Rightarrow>
      if accept (bs ''/'') s \<noteq> None then jregex name s b
      else if accept [34] s \<noteq> None \<or> accept [39] s \<noteq> None then
        rbind (quotedString s) (\<lambda>(valueString, s). appended s (append_str b name valueString))
      else accept_word jwords name s b)"

fun jvalue :: "nat \<Rightarrow> jhandler" where
  "jvalue 0 name s b = Inl NoReturn"
| "jvalue (Suc n) name s b = value_with (jvalue n) name s b"

text \<open>\<open>fromjson\<close> with the length it reports; the default size of a builder is 512.\<close>

definition fromjson_len :: "byte list \<Rightarrow> (mem \<times> nat) res" where
  "fromjson_len s =
     (if s = [] then Inr (emptyObj, 0)
      else rbind (bob_new 512) (\<lambda>b.
        case jobject (jvalue (length s)) False (bs ''UNUSED'') s b of
          Inl (BadStatus _) \<Rightarrow> Inl (MsgAssert 16619)
        | Inl e \<Rightarrow> Inl e
        | Inr (r, b) \<Rightarrow> rmap (\<lambda>m. (m, length s - length r)) (obj b)))"

definition fromjson :: "byte list \<Rightarrow> mem res" where
  "fromjson s = rmap fst (fromjson_len s)"

end
