(* ===== verification/TextUtils.thy ===== *)
theory TextUtils
  imports JsonParse StringUtils "HOL-Library.Sublist"
begin

text \<open>
  \<open>util/text.cpp\<close>: the splitter, the check of UTF-8, \<open>parseLL\<close> and the quoting of command lines.  The
  UTF-8 check accepts exactly the strings that a decoder can turn into code points; what the JSON reader makes
  of unicode escapes is among them.
\<close>

section \<open>Splitting\<close>

text \<open>The texts are the bytes before the terminating zero.\<close>

fun strstr :: "byte list \<Rightarrow> byte list \<Rightarrow> byte list option" where
  "strstr [] needle = (if needle = [] then Some [] else None)"
| "strstr (c # s) needle = (if prefix needle (c # s) then Some (c # s) else strstr s needle)"

lemma strstr_suffix: "strstr s needle = Some t \<Longrightarrow> suffix t s \<and> prefix needle t"
  by (induction s) (auto split: if_splits intro: suffix_ConsI)

fun skip_splitters :: "byte list \<Rightarrow> byte list \<Rightarrow> byte list" where
  "skip_splitters splitter [] = []"
| "skip_splitters splitter (c # s) =
     (if strstr (c # s) splitter = Some (c # s) then skip_splitters splitter s else c # s)"

lemma skip_splitters_length: "length (skip_splitters p s) \<le> length s"
  by (induction p s rule: skip_splitters.induct) auto

definition splitter_next :: "byte list \<Rightarrow> byte list \<Rightarrow> byte list \<times> byte list" where
  "splitter_next splitter big =
     (case strstr big splitter of
        Some foo \<Rightarrow>
          (take (length big - length foo) big, skip_splitters splitter (drop (length splitter) foo))
      | None \<Rightarrow> (big, []))"

lemma skip_all: "skip_splitters [] s = []"
  by (induction s) auto

lemma splitter_next_shorter:
  assumes "big \<noteq> []"
  shows "length (snd (splitter_next splitter big)) < length big"
proof (cases "strstr big splitter")
  case None
  then show ?thesis using assms by (simp add: splitter_next_def)
next
  case (Some foo)
  show ?thesis
  proof (cases "splitter = []")
    case True
    then show ?thesis using Some assms by (simp add: splitter_next_def skip_all)
  next
    case False
    have "suffix foo big" "prefix splitter foo" using strstr_suffix [OF Some] by auto
    then have "length splitter \<le> length foo" "length foo \<le> length big"
      by (simp_all add: prefix_length_le suffix_length_le)
    moreover have "0 < length splitter" using False by simp
    ultimately have "length (drop (length splitter) foo) < length big" unfolding length_drop by linarith
    then show ?thesis
      using Some skip_splitters_length [of splitter "drop (length splitter) foo"]
      by (simp add: splitter_next_def)
  qed
qed

function splitter_split :: "byte list \<Rightarrow> byte list \<Rightarrow> byte list list" where
  "splitter_split splitter big =
     (if big = [] then [] else let (s, big) = splitter_next splitter big in s # splitter_split splitter big)"
  by pat_completeness auto
termination
  by (relation "measure (\<lambda>(_, big). length big)")
    (auto dest: splitter_next_shorter simp: split_beta, metis splitter_next_shorter snd_conv)

declare splitter_split.simps [simp del]

text \<open>The static \<open>split\<close>, which passes the strings on by \<open>c_str\<close>.\<close>

definition splitter_split_strings :: "byte list \<Rightarrow> byte list \<Rightarrow> byte list list" where
  "splitter_split_strings big splitter =
     splitter_split (takeWhile (\<lambda>c. c \<noteq> 0) splitter) (takeWhile (\<lambda>c. c \<noteq> 0) big)"

fun splitter_join :: "byte list list \<Rightarrow> byte list \<Rightarrow> byte list" where
  "splitter_join [] split = []"
| "splitter_join (x # xs) split = x @ concat (map (\<lambda>y. split @ y) xs)"

section \<open>UTF-8\<close>

definition leadingOnes :: "byte \<Rightarrow> nat" where
  "leadingOnes c =
     (if c < 0x80 then 0 else if c < 0xC0 then 1 else if c < 0xE0 then 2 else if c < 0xF0 then 3
      else if c < 0xF8 then 4 else if c < 0xFC then 5 else if c < 0xFE then 6 else if c < 0xFF then 7 else 8)"

fun utf8_loop :: "nat \<Rightarrow> mem \<Rightarrow> bool res" where
  "utf8_loop left [] = Inl BadRead"
| "utf8_loop left (c # s) =
     (if c = 0 then Inr (left = 0)
      else
        let ones = leadingOnes c in
        if left \<noteq> 0 then if ones \<noteq> 1 then Inr False else utf8_loop (left - 1) s
        else if ones = 0 then utf8_loop 0 s
        else if ones = 1 then Inr False
        else if c > 0xF4 then Inr False
        else if c = 0xC0 \<or> c = 0xC1 then Inr False
        else utf8_loop (ones - 1) s)"

definition isValidUTF8 :: "mem \<Rightarrow> bool res" where
  "isValidUTF8 s = utf8_loop 0 s"

section \<open>Numbers and command lines\<close>

definition parseLL :: "byte list \<Rightarrow> int res" where
  "parseLL n =
     uassert 13307 (n \<noteq> [])
       (let (ret, endPtr, erange) = strtoll n in
        uassert 13305 (endPtr = [] \<and> \<not> erange) (Inr ret))"

fun quote_loop :: "byte list \<Rightarrow> byte list \<Rightarrow> byte list" where
  "quote_loop backslashes [] = []"
| "quote_loop backslashes (c # arg) =
     (if c = 92 then
        let backslashes = backslashes @ [c] in
        (if arg = [] then backslashes @ backslashes else []) @ quote_loop backslashes arg
      else if c = 34 then backslashes @ backslashes @ [92, 34] @ quote_loop backslashes arg
      else backslashes @ [c] @ quote_loop [] arg)"

definition quoteForWindowsCommandLine :: "byte list \<Rightarrow> byte list" where
  "quoteForWindowsCommandLine arg =
     (if arg = [] then [34, 34]
      else if \<forall>c \<in> set arg. c \<noteq> 32 \<and> c \<noteq> 9 \<and> c \<noteq> 34 then arg
      else [34] @ quote_loop [] arg @ [34])"

fun constructUtf8WindowsCommandLine :: "byte list list \<Rightarrow> byte list" where
  "constructUtf8WindowsCommandLine [] = []"
| "constructUtf8WindowsCommandLine (a # argv) =
     quoteForWindowsCommandLine a @ concat (map (\<lambda>a. 32 # quoteForWindowsCommandLine a) argv)"

section \<open>The splitter on a single character\<close>

lemma strstr_char: "strstr s [c] = (case split_at c s of None \<Rightarrow> None | Some (l, r) \<Rightarrow> Some (c # r))"
  by (induction s) (auto split: option.splits)

lemma skip_char: "skip_splitters [c] s = dropWhile (\<lambda>x. x = c) s"
  by (induction s) (auto simp: strstr_char split: option.splits)

lemma splitter_next_char:
  "splitter_next [c] s =
     (case split_at c s of None \<Rightarrow> (s, []) | Some (l, r) \<Rightarrow> (l, dropWhile (\<lambda>x. x = c) r))"
proof (cases "split_at c s")
  case (Some lr)
  obtain l r where lr: "lr = (l, r)" by (cases lr)
  then have "s = l @ c # r" using Some split_at_Some by blast
  then show ?thesis using Some lr by (simp add: splitter_next_def strstr_char skip_char)
qed (simp add: splitter_next_def strstr_char)

lemma parts_dropWhile:
  "filter (\<lambda>p. p \<noteq> []) (split_loop c (dropWhile (\<lambda>x. x = c) s)) = filter (\<lambda>p. p \<noteq> []) (split_loop c s)"
proof (induction s)
  case (Cons x s)
  have "split_loop c (c # s) = [] # split_loop c s" by (simp add: split_loop.simps [of c "c # s"])
  then show ?case using Cons by auto
qed simp

lemma hd_split_loop: "x \<noteq> c \<Longrightarrow> hd (split_loop c (x # s)) \<noteq> []"
  by (auto simp: split_loop.simps [of c "x # s"] split: option.splits)

text \<open>The parts between the separators, without the empty ones; only the first may be empty.\<close>

lemma splitter_split_char:
  "splitter_split [c] s =
     (if s = [] then [] else hd (split_loop c s) # filter (\<lambda>p. p \<noteq> []) (tl (split_loop c s)))"
proof (induction "length s" arbitrary: s rule: less_induct)
  case less
  show ?case
  proof (cases "split_at c s")
    case None
    then show ?thesis
      by (simp add: splitter_split.simps [of "[c]" s] splitter_split.simps [of "[c]" "[]"] splitter_next_char
          split_loop.simps [of c s])
  next
    case (Some lr)
    obtain l r where lr: "lr = (l, r)" by (cases lr)
    let ?r = "dropWhile (\<lambda>x. x = c) r"
    have s: "s = l @ c # r" using Some lr split_at_Some by blast
    then have sne: "s \<noteq> []" by simp
    have "length ?r < length s" using length_dropWhile_le [of "\<lambda>x. x = c" r] by (simp add: s)
    note IH = less.hyps [OF this]
    have "splitter_split [c] ?r = filter (\<lambda>p. p \<noteq> []) (split_loop c ?r)"
    proof (cases "?r = []")
      case True
      show ?thesis unfolding True by (simp add: splitter_split.simps [of "[c]" "[]"] split_loop.simps [of c "[]"])
    next
      case False
      have "hd ?r \<noteq> c" using hd_dropWhile [OF False] by simp
      then have "hd (split_loop c ?r) \<noteq> []"
        using False hd_split_loop [of "hd ?r" c "tl ?r"] by simp
      then show ?thesis using IH False by (cases "split_loop c ?r") auto
    qed
    then show ?thesis
      using Some lr sne parts_dropWhile [of c r]
      by (simp add: splitter_split.simps [of "[c]" s] splitter_next_char split_loop.simps [of c s])
  qed
qed

lemma parseLL_dec_int:
  assumes "- (2 ^ 63) \<le> n" "n < 2 ^ 63"
  shows "parseLL (dec_int n) = Inr n"
proof -
  have "strtoll (dec_int n) = (n, [], False)" using assms by (rule strtoll_dec_int_end)
  moreover have "dec_int n \<noteq> []" by (simp add: dec_int_def)
  ultimately show ?thesis by (simp add: parseLL_def)
qed

section \<open>Decoding\<close>

text \<open>The number of bytes that follow the first byte of a code point, and the bits it contributes.\<close>

definition utf8_lead :: "byte \<Rightarrow> (nat \<times> nat) option" where
  "utf8_lead c =
     (if c < 0x80 then Some (0, unat c)
      else if 0xC2 \<le> c \<and> c < 0xE0 then Some (1, unat c - 0xC0)
      else if 0xE0 \<le> c \<and> c < 0xF0 then Some (2, unat c - 0xE0)
      else if 0xF0 \<le> c \<and> c \<le> 0xF4 then Some (3, unat c - 0xF0)
      else None)"

definition continuation :: "byte \<Rightarrow> bool" where
  "continuation b = (0x80 \<le> b \<and> b < 0xC0)"

function utf8_decode :: "byte list \<Rightarrow> nat list option" where
  "utf8_decode [] = Some []"
| "utf8_decode (c # s) =
     (case utf8_lead c of
        None \<Rightarrow> None
      | Some (k, p) \<Rightarrow>
          if k \<le> length s \<and> (\<forall>b \<in> set (take k s). continuation b)
          then map_option (Cons (foldl (\<lambda>a b. a * 64 + (unat b - 0x80)) p (take k s))) (utf8_decode (drop k s))
          else None)"
  by pat_completeness auto
termination
  by (relation "measure length") auto

declare utf8_decode.simps(2) [simp del]

lemma leading_continuation: "leadingOnes c = 1 \<longleftrightarrow> continuation c"
  by (auto simp: leadingOnes_def continuation_def word_less_nat_alt word_le_nat_alt)

lemma utf8_loop_continuation:
  "nul_free s \<Longrightarrow> utf8_loop k (s @ 0 # r) =
     (if k \<le> length s \<and> (\<forall>b \<in> set (take k s). continuation b) then utf8_loop 0 (drop k s @ 0 # r) else Inr False)"
proof (induction k arbitrary: s)
  case (Suc k)
  show ?case
  proof (cases s)
    case (Cons c t)
    then show ?thesis using Suc leading_continuation [of c] by (auto simp: nul_free_def)
  qed simp
qed simp

lemma utf8_first:
  assumes "c \<noteq> 0"
  shows "utf8_loop 0 (c # s) = (case utf8_lead c of None \<Rightarrow> Inr False | Some (k, p) \<Rightarrow> utf8_loop k s)"
proof -
  have "unat c < 256" using unsigned_less [of c] by simp
  then show ?thesis
    using assms
    by (auto simp: Let_def leadingOnes_def utf8_lead_def word_less_nat_alt word_le_nat_alt unsigned_word_eqI word_unat_eq_iff)
qed

lemma isValidUTF8_iff: "nul_free s \<Longrightarrow> isValidUTF8 (s @ 0 # r) = Inr (utf8_decode s \<noteq> None)"
  unfolding isValidUTF8_def
proof (induction s rule: utf8_decode.induct)
  case (2 c s)
  have c: "c \<noteq> 0" "nul_free s" using "2.prems" by (auto simp: nul_free_def)
  show ?case
  proof (cases "utf8_lead c")
    case None
    then show ?thesis using c utf8_first by (simp add: utf8_decode.simps)
  next
    case (Some kp)
    obtain k p where kp: "kp = (k, p)" by (cases kp)
    have "nul_free (drop k s)" using c(2) by (auto simp: nul_free_def dest: in_set_dropD)
    then show ?thesis
      using "2.IH" [OF Some kp [symmetric]] Some kp utf8_first [OF c(1), of "s @ 0 # r"] utf8_loop_continuation [OF c(2), of k r]
      by (auto simp: utf8_decode.simps)
  qed
qed simp

text \<open>The encoding of code points.\<close>

definition utf8_encode :: "nat \<Rightarrow> byte list" where
  "utf8_encode n =
     (if n < 0x80 then [of_nat n]
      else if n < 0x800 then [of_nat (0xC0 + n div 64), of_nat (0x80 + n mod 64)]
      else if n < 0x10000 then [of_nat (0xE0 + n div 4096), of_nat (0x80 + n div 64 mod 64), of_nat (0x80 + n mod 64)]
      else [of_nat (0xF0 + n div 262144), of_nat (0x80 + n div 4096 mod 64), of_nat (0x80 + n div 64 mod 64),
            of_nat (0x80 + n mod 64)])"

lemma unat_byte: "n < 256 \<Longrightarrow> unat (of_nat n :: byte) = n"
  by (simp add: unat_of_nat take_bit_nat_eq_self)

lemma continuation_of_nat: "continuation (of_nat (0x80 + n mod 64))" "unat (of_nat (0x80 + n mod 64) :: byte) = 0x80 + n mod 64"
  using unat_byte [of "0x80 + n mod 64"] mod_less_divisor [of 64 n]
  by (auto simp: continuation_def word_less_nat_alt word_le_nat_alt simp del: of_nat_add)

lemma lead_of_nat:
  "n < 0x80 \<Longrightarrow> utf8_lead (of_nat n) = Some (0, n)"
  "2 \<le> n \<Longrightarrow> n < 32 \<Longrightarrow> utf8_lead (of_nat (0xC0 + n)) = Some (1, n)"
  "n < 16 \<Longrightarrow> utf8_lead (of_nat (0xE0 + n)) = Some (2, n)"
  "n \<le> 4 \<Longrightarrow> utf8_lead (of_nat (0xF0 + n)) = Some (3, n)"
  using unat_byte [of n] unat_byte [of "0xC0 + n"] unat_byte [of "0xE0 + n"] unat_byte [of "0xF0 + n"]
  by (simp_all add: utf8_lead_def word_less_nat_alt word_le_nat_alt del: of_nat_add of_nat_numeral)

lemma decode_encode:
  assumes "n < 0x110000"
  shows "utf8_decode (utf8_encode n @ s) = map_option (Cons n) (utf8_decode s)"
proof -
  note c = continuation_of_nat
  have lt: "n < 0x800 \<Longrightarrow> n div 64 < 32" "n < 0x10000 \<Longrightarrow> n div 4096 < 16" "n div 262144 \<le> 4"
      "\<not> n < 0x80 \<Longrightarrow> 2 \<le> n div 64"
    using assms by auto
  have d: "n div 64 * 64 + n mod 64 = n" by (rule div_mult_mod_eq)
  have "n div 64 div 64 * 64 + n div 64 mod 64 = n div 64" by (rule div_mult_mod_eq)
  then have d2: "n div 4096 * 64 + n div 64 mod 64 = n div 64" by (simp add: div_mult2_eq [symmetric])
  have "n div 4096 div 64 * 64 + n div 4096 mod 64 = n div 4096" by (rule div_mult_mod_eq)
  then have d3: "n div 262144 * 64 + n div 4096 mod 64 = n div 4096" by (simp add: div_mult2_eq [symmetric])
  consider (one) "n < 0x80" | (two) "\<not> n < 0x80" "n < 0x800" | (three) "\<not> n < 0x80" "\<not> n < 0x800" "n < 0x10000"
    | (four) "\<not> n < 0x80" "\<not> n < 0x800" "\<not> n < 0x10000" by blast
  then show ?thesis
  proof cases
    case one
    then show ?thesis using lead_of_nat(1) by (simp add: utf8_encode_def utf8_decode.simps)
  next
    case two
    have "utf8_lead (of_nat (0xC0 + n div 64)) = Some (1, n div 64)" using two lt by (intro lead_of_nat) auto
    then show ?thesis unfolding utf8_encode_def if_not_P [OF two(1)] if_P [OF two(2)]
      using c [of n] d by (simp add: utf8_decode.simps del: of_nat_add of_nat_numeral)
  next
    case three
    have "utf8_lead (of_nat (0xE0 + n div 4096)) = Some (2, n div 4096)" using three lt by (intro lead_of_nat) auto
    moreover have "4096 * (n div 4096) + n div 64 mod 64 * 64 + n mod 64 = n" using d d2 by linarith
    ultimately show ?thesis unfolding utf8_encode_def if_not_P [OF three(1)] if_not_P [OF three(2)] if_P [OF three(3)]
      using c [of n] c [of "n div 64"] by (simp add: utf8_decode.simps numeral_2_eq_2 del: of_nat_add of_nat_numeral)
  next
    case four
    have "utf8_lead (of_nat (0xF0 + n div 262144)) = Some (3, n div 262144)" using lt by (intro lead_of_nat) auto
    moreover have "262144 * (n div 262144) + 4096 * (n div 4096 mod 64) + n div 64 mod 64 * 64 + n mod 64 = n"
      using d d2 d3 by linarith
    ultimately show ?thesis unfolding utf8_encode_def if_not_P [OF four(1)] if_not_P [OF four(2)] if_not_P [OF four(3)]
      using c [of n] c [of "n div 64"] c [of "n div 4096"]
      by (simp add: utf8_decode.simps numeral_3_eq_3 del: of_nat_add of_nat_numeral)
  qed
qed

lemma decode_encode_all:
  "\<forall>n \<in> set cps. n < 0x110000 \<Longrightarrow> utf8_decode (concat (map utf8_encode cps)) = Some cps"
  by (induction cps) (simp_all add: decode_encode)

text \<open>What the JSON reader writes for a unicode escape is the encoding of the code unit.\<close>

lemma or_low:
  fixes c m :: nat
  assumes "m < 2 ^ k"
  shows "or (c * 2 ^ k) m = c * 2 ^ k + m"
proof -
  have "and (push_bit k c) (take_bit k m) = 0" by (rule bit_eqI) (auto simp: bit_simps)
  then have "and (c * 2 ^ k) m = 0" using assms by (simp add: push_bit_eq_mult take_bit_nat_eq_self)
  then show ?thesis by (rule disjunctive_add_eq_or [symmetric])
qed

lemma and_3f: "and 0x3f (m :: nat) = m mod 64"
  using take_bit_eq_mask [of 6 m] by (simp add: mask_eq_exp_minus_1 and.commute take_bit_eq_mod)

lemma unat_shifts:
  "unat (drop_bit k (x :: byte)) = unat x div 2 ^ k" "unat (push_bit k (x :: byte)) = (unat x * 2 ^ k) mod 256"
  unfolding unsigned_drop_bit_eq unsigned_push_bit_eq by (simp_all add: drop_bit_eq_div push_bit_eq_mult take_bit_eq_mod)

lemmas unat_bits = unsigned_or_eq unsigned_and_eq unat_shifts

lemma continuation_bits: "unat (or 0x80 (and 0x3f x) :: byte) = 0x80 + unat x mod 64"
  using or_low [of "unat x mod 64" 7 1] by (simp add: unat_bits and_3f)

lemma middle_bits:
  fixes first second :: byte
  shows "unat (or (push_bit 2 first) (drop_bit 6 second)) = (4 * unat first) mod 256 + unat second div 64"
proof -
  have "unat second < 256" using unsigned_less [of second] by simp
  then have b: "unat second div 64 < 2 ^ 2" using less_mult_imp_div_less [of "unat second" 4 64] by simp
  have "(4 * unat first) mod 256 = (unat first mod 64) * 2 ^ 2"
    using mult_mod_right [of 4 "unat first" 64] by simp
  then show ?thesis
    using or_low [OF b, of "unat first mod 64"]
    by (simp add: unat_bits mult.commute)
qed

lemma encodeUTF8_utf8: "encodeUTF8 first second = utf8_encode (unat first * 256 + unat second)"
proof -
  let ?a = "unat first" and ?b = "unat second" and ?n = "unat first * 256 + unat second"
  have lt: "?a < 256" "?b < 256" using unsigned_less [of first] unsigned_less [of second] by simp_all
  have eq: "x = of_nat m" if "unat x = m" for x :: byte and m using that by auto
  have mid: "unat (or (push_bit 2 first) (drop_bit 6 second)) = (4 * ?a) mod 256 + ?b div 64" by (rule middle_bits)
  have b: "?b div 64 < 4" using lt(2) less_mult_imp_div_less [of ?b 4 64] by simp
  have n64: "?n = ?b + 64 * (4 * ?a)" by simp
  have n1: "?n div 64 = 4 * ?a + ?b div 64" unfolding n64 by (subst div_mult_self2) simp_all
  have n2: "?n mod 64 = ?b mod 64" unfolding n64 by (rule mod_mult_self2)
  have "?n div 256 = ?a" using lt(2) by simp
  then have n3: "?n div 4096 = ?a div 16" using div_mult2_eq [of ?n 256 16] by simp
  note n = n1 n2 n3
  have last: "or 0x80 (and 0x3f second) = of_nat (0x80 + ?n mod 64)"
    by (rule eq) (simp only: continuation_bits n)
  consider (one) "first = 0" "second < 0x80" | (two) "\<not> (first = 0 \<and> second < 0x80)" "first < 0x08"
    | (three) "\<not> (first = 0 \<and> second < 0x80)" "\<not> first < 0x08" by blast
  then show ?thesis
  proof cases
    case one
    then show ?thesis by (simp add: encodeUTF8_def utf8_encode_def word_less_nat_alt)
  next
    case two
    have a: "?a < 8" using two(2) by (simp add: word_less_nat_alt)
    then have m: "4 * ?a + ?b div 64 < 2 ^ 5" using b by simp
    have "?a \<noteq> 0 \<or> 0x80 \<le> ?b" using two(1) by (auto simp: word_less_nat_alt unat_eq_0)
    then have rng: "\<not> ?n < 0x80" "?n < 0x800" using a lt(2) by linarith+
    have "(4 * ?a) mod 256 = 4 * ?a" using a by simp
    then have "unat (or 0xc0 (or (push_bit 2 first) (drop_bit 6 second))) = 0xC0 + ?n div 64"
      using or_low [OF m, of 6] mid n(1) by (simp add: unsigned_or_eq)
    from eq [OF this] show ?thesis
      unfolding encodeUTF8_def if_not_P [OF two(1)] if_P [OF two(2)] utf8_encode_def if_not_P [OF rng(1)] if_P [OF rng(2)]
      using last by (simp only:)
  next
    case three
    have a: "8 \<le> ?a" using three(2) by (simp add: word_less_nat_alt)
    then have rng: "\<not> ?n < 0x80" "\<not> ?n < 0x800" "?n < 0x10000" using a lt by linarith+
    have m: "?a div 16 < 2 ^ 4" using lt(1) less_mult_imp_div_less [of ?a 16 16] by simp
    have e0: "unat (or 0xe0 (drop_bit 4 first)) = 0xE0 + ?n div 4096"
      using or_low [OF m, of 14] n(3) by (simp add: unat_bits)
    have "((4 * ?a) mod 256 + ?b div 64) mod 64 = (4 * ?a + ?b div 64) mod 64"
      using mod_add_left_eq [of "(4 * ?a) mod 256" 64 "?b div 64"] mod_mod_cancel [of 64 256 "4 * ?a"]
        mod_add_left_eq [of "4 * ?a" 64 "?b div 64"] by simp
    then have "unat (or 0x80 (and 0x3f (or (push_bit 2 first) (drop_bit 6 second)))) = 0x80 + ?n div 64 mod 64"
      unfolding continuation_bits mid n(1) by simp
    from eq [OF this] eq [OF e0] show ?thesis
      unfolding encodeUTF8_def if_not_P [OF three(1)] if_not_P [OF three(2)] utf8_encode_def
        if_not_P [OF rng(1)] if_not_P [OF rng(2)] if_P [OF rng(3)]
      using last by (simp only:)
  qed
qed

section \<open>Reading back a quoted argument\<close>

text \<open>
  The rules of the command line: backslashes stand for themselves unless a quote follows; then each pair
  is one backslash, and an odd one makes the quote stand for itself.  \<open>n\<close> counts the backslashes before.
\<close>

fun unquote :: "nat \<Rightarrow> byte list \<Rightarrow> (byte list \<times> byte list) option" where
  "unquote n [] = None"
| "unquote n (c # s) =
     (if c = 92 then unquote (n + 1) s
      else if c = 34 then
        if even n then Some (replicate (n div 2) 92, s)
        else map_option (\<lambda>(x, r). (replicate (n div 2) 92 @ 34 # x, r)) (unquote 0 s)
      else map_option (\<lambda>(x, r). (replicate n 92 @ c # x, r)) (unquote 0 s))"

lemma unquote_backslashes: "unquote n (replicate k 92 @ s) = unquote (n + k) s"
  by (induction k arbitrary: n) simp_all

lemma unquote_loop:
  assumes "\<not> sublist [92, 34] arg" "n = 0 \<or> arg \<noteq> [] \<and> hd arg \<noteq> 34"
  shows "unquote 0 (quote_loop (replicate n 92) arg @ 34 # r) = Some (replicate n 92 @ arg, r)"
  using assms
proof (induction arg arbitrary: n)
  case (Cons c arg)
  have sub: "\<not> sublist [92, 34] arg" "c = 92 \<Longrightarrow> arg \<noteq> [] \<Longrightarrow> hd arg \<noteq> 34"
    using Cons.prems(1) by (auto simp: sublist_Cons_right prefix_Cons neq_Nil_conv)
  have rep: "replicate n 92 @ [92] = replicate (Suc n) (92 :: byte)" by (simp add: replicate_append_same)
  consider (last) "c = 92" "arg = []" | (more) "c = 92" "arg \<noteq> []" | (quote) "c = 34" | (other) "c \<noteq> 92" "c \<noteq> 34" by blast
  then show ?case
  proof cases
    case last
    have "quote_loop (replicate n 92) (c # arg) = replicate (2 * Suc n) 92"
      using last by (simp add: Let_def rep replicate_add [symmetric] del: replicate.simps)
    then show ?thesis
      using last unquote_backslashes [of 0 "2 * Suc n" "34 # r"] rep by simp
  next
    case more
    have "quote_loop (replicate n 92) (c # arg) = quote_loop (replicate (Suc n) 92) arg"
      using more by (simp add: Let_def rep del: replicate.simps)
    then show ?thesis using Cons.IH [of "Suc n"] sub more rep by simp
  next
    case quote
    then have "n = 0" using Cons.prems(2) by simp
    then show ?thesis using quote Cons.IH [of 0] sub(1) by simp
  next
    case other
    have "unquote 0 (quote_loop [] arg @ 34 # r) = Some (arg, r)" using Cons.IH [of 0] sub(1) by simp
    then show ?thesis using other unquote_backslashes [of 0 n "c # quote_loop [] arg @ 34 # r"] by simp
  qed
qed simp

text \<open>
  A quoted argument reads back as it was, unless a quote follows a backslash: the backslashes before the quote
  are kept and written once more.
\<close>

lemma quoteForWindowsCommandLine_reads:
  assumes "\<not> sublist [92, 34] arg" "\<exists>c \<in> set arg. c = 32 \<or> c = 9 \<or> c = 34"
  shows "\<exists>q. quoteForWindowsCommandLine arg = 34 # q \<and> unquote 0 (q @ r) = Some (arg, r)"
proof -
  have "quoteForWindowsCommandLine arg = 34 # quote_loop [] arg @ [34]"
    using assms(2) by (auto simp: quoteForWindowsCommandLine_def)
  then show ?thesis using unquote_loop [OF assms(1), of 0 r] by simp
qed

lemma quoteForWindowsCommandLine_repeats:
  "quoteForWindowsCommandLine [97, 92, 34, 98] = [34, 97, 92, 92, 92, 34, 92, 98, 34]"
  "unquote 0 [97, 92, 92, 92, 34, 92, 98, 34] = Some ([97, 92, 34, 92, 98], [])"
  by (simp_all add: quoteForWindowsCommandLine_def)



text \<open>Overlong forms, surrogates and numbers above the last code point are accepted.\<close>

lemma isValidUTF8_overlong:
  "isValidUTF8 [0xE0, 0x80, 0x80, 0] = Inr True" "isValidUTF8 [0xED, 0xA0, 0x80, 0] = Inr True"
  "isValidUTF8 [0xF4, 0xBF, 0xBF, 0xBF, 0] = Inr True"
  by (simp_all add: isValidUTF8_def leadingOnes_def Let_def)

end
