(* ===== verification/Startup.thy ===== *)
theory Startup
  imports ParseNumber "HOL-Library.AList"
begin

text \<open>
  The start-up part of the driver under \<open>base\<close>: error codes (\<open>error_codes.cpp\<close>), \<open>Status\<close>, the
  dependency graph of initializers (\<open>initializer_dependency_graph.cpp\<close>), the \<open>Initializer\<close> that runs
  them, and the \<open>ConfigurationVariableManager\<close>.  The topological sort is shown to end on every graph and
  to return an order, a cycle, or the name of an initializer that is missing.
\<close>

section \<open>Error codes and status\<close>

datatype ErrorCode =
    OK | InternalError | BadValue | DuplicateKey | NoSuchKey | GraphContainsCycle | HostUnreachable
  | HostNotFound | UnknownError | FailedToParse | CannotMutateObject | UserNotFound | UnsupportedFormat
  | Unauthorized | TypeMismatch | Overflow | InvalidLength | ProtocolError | AuthenticationFailed
  | CannotReuseObject | IllegalOperation | EmptyArrayOperation | InvalidBSON | AlreadyInitialized
  | LockTimeout | RemoteValidationError | MaxError

definition error_table :: "(ErrorCode \<times> string) list" where
  "error_table =
     [(OK, ''OK''), (InternalError, ''InternalError''), (BadValue, ''BadValue''),
      (DuplicateKey, ''DuplicateKey''), (NoSuchKey, ''NoSuchKey''),
      (GraphContainsCycle, ''GraphContainsCycle''), (HostUnreachable, ''HostUnreachable''),
      (HostNotFound, ''HostNotFound''), (UnknownError, ''UnknownError''), (FailedToParse, ''FailedToParse''),
      (CannotMutateObject, ''CannotMutateObject''), (UserNotFound, ''UserNotFound''),
      (UnsupportedFormat, ''UnsupportedFormat''), (Unauthorized, ''Unauthorized''),
      (TypeMismatch, ''TypeMismatch''), (Overflow, ''Overflow''), (InvalidLength, ''InvalidLength''),
      (ProtocolError, ''ProtocolError''), (AuthenticationFailed, ''AuthenticationFailed''),
      (CannotReuseObject, ''CannotReuseObject''), (IllegalOperation, ''IllegalOperation''),
      (EmptyArrayOperation, ''EmptyArrayOperation''), (InvalidBSON, ''InvalidBSON''),
      (AlreadyInitialized, ''AlreadyInitialized''), (LockTimeout, ''LockTimeout''),
      (RemoteValidationError, ''RemoteValidationError'')]"

definition errorString :: "ErrorCode \<Rightarrow> byte list" where
  "errorString err = bs (case map_of error_table err of Some s \<Rightarrow> s | None \<Rightarrow> ''Unknown error code'')"

definition fromString :: "byte list \<Rightarrow> ErrorCode" where
  "fromString name = (case find (\<lambda>(e, s). name = bs s) error_table of Some (e, _) \<Rightarrow> e | None \<Rightarrow> UnknownError)"

definition fromInt :: "int \<Rightarrow> ErrorCode" where
  "fromInt code =
     (if 0 \<le> code \<and> code < int (length error_table) then fst (error_table ! nat code) else UnknownError)"

definition isNetworkError :: "ErrorCode \<Rightarrow> bool" where
  "isNetworkError err = (err = HostUnreachable \<or> err = HostNotFound)"

record Status =
  st_code :: ErrorCode
  st_reason :: "byte list"
  st_location :: int

definition status_OK :: Status where
  "status_OK = \<lparr>st_code = OK, st_reason = [], st_location = 0\<rparr>"

definition mk_status :: "ErrorCode \<Rightarrow> byte list \<Rightarrow> Status" where
  "mk_status c reason = \<lparr>st_code = c, st_reason = reason, st_location = 0\<rparr>"

definition status_compare :: "Status \<Rightarrow> Status \<Rightarrow> bool" where
  "status_compare a b = (st_code a = st_code b \<and> st_location a = st_location b)"

definition status_toString :: "Status \<Rightarrow> byte list" where
  "status_toString st =
     errorString (st_code st) @
     (if st_code st = OK then [] else bs '' '' @ st_reason st) @
     (if st_location st \<noteq> 0 then bs '' @ '' @ dec_int (st_location st) else [])"

lemma errorString_fromString: "e \<noteq> MaxError \<Longrightarrow> fromString (errorString e) = e"
  by (cases e) (simp_all add: errorString_def fromString_def error_table_def)

lemma status_compare_OK [simp]:
  "status_compare status_OK status_OK"
  "status_compare status_OK (mk_status c r) \<longleftrightarrow> c = OK"
  by (auto simp: status_compare_def status_OK_def mk_status_def)

section \<open>The dependency graph\<close>

text \<open>
  A hash map is an association list with distinct keys in the order the iterator visits the entries; a hash
  set likewise is a list.  What is shown of the sort holds for every such order.
\<close>

record 'f NodeData =
  nd_fn :: "'f option"
  nd_prerequisites :: "byte list list"

type_synonym 'f NodeMap = "(byte list \<times> 'f NodeData) list"

definition node_at :: "'f NodeMap \<Rightarrow> byte list \<Rightarrow> 'f NodeData" where
  "node_at nodes name =
     (case map_of nodes name of Some nd \<Rightarrow> nd | None \<Rightarrow> \<lparr>nd_fn = None, nd_prerequisites = []\<rparr>)"

definition addInitializer ::
  "byte list \<Rightarrow> 'f option \<Rightarrow> byte list list \<Rightarrow> byte list list \<Rightarrow> 'f NodeMap \<Rightarrow> Status \<times> 'f NodeMap" where
  "addInitializer name fn prerequisites dependents nodes =
     (case fn of
        None \<Rightarrow> (mk_status BadValue (bs ''Illegal to supply a NULL function''), nodes)
      | Some f \<Rightarrow>
          let newNode = node_at nodes name; nodes = AList.update name newNode nodes in
          if \<not> Option.is_none (nd_fn newNode) then (mk_status DuplicateKey name, nodes)
          else
            let newNode = newNode\<lparr>nd_fn := Some f,
                  nd_prerequisites := fold List.insert prerequisites (nd_prerequisites newNode)\<rparr>;
                nodes = AList.update name newNode nodes
            in (status_OK,
                fold (\<lambda>d ns. AList.update d
                    ((node_at ns d)\<lparr>nd_prerequisites := List.insert name (nd_prerequisites (node_at ns d))\<rparr>) ns)
                  dependents nodes))"

definition getInitializerFunction :: "'f NodeMap \<Rightarrow> byte list \<Rightarrow> 'f option" where
  "getInitializerFunction nodes name = (case map_of nodes name of None \<Rightarrow> None | Some nd \<Rightarrow> nd_fn nd)"

record sort_state =
  inProgressNodeNames :: "byte list list"
  visitedNodeNames :: "byte list list"
  sortedNames :: "byte list list"

definition cycle_message :: "byte list list \<Rightarrow> byte list" where
  "cycle_message names =
     bs ''Cycle in dependendcy graph: '' @ hd names @ concat (map (\<lambda>n. bs '' -> '' @ n) (tl names))"

text \<open>The first argument bounds the depth of the recursion; \<open>None\<close> says that it was reached.\<close>

fun recursiveTopSort ::
  "nat \<Rightarrow> 'f NodeMap \<Rightarrow> byte list \<times> 'f NodeData \<Rightarrow> sort_state \<Rightarrow> (Status \<times> sort_state) option"
and visit_prerequisites ::
  "nat \<Rightarrow> 'f NodeMap \<Rightarrow> byte list list \<Rightarrow> sort_state \<Rightarrow> (Status \<times> sort_state) option"
where
  "recursiveTopSort 0 nodeMap node s = None"
| "recursiveTopSort (Suc k) nodeMap (name, nd) s =
     (if name \<in> set (visitedNodeNames s) then Some (status_OK, s)
      else if Option.is_none (nd_fn nd) then Some (mk_status BadValue name, s)
      else
        let s1 = s\<lparr>inProgressNodeNames := inProgressNodeNames s @ [name]\<rparr>;
            found = dropWhile (\<lambda>n. n \<noteq> name) (inProgressNodeNames s1)
        in if tl found \<noteq> []
           then Some (mk_status GraphContainsCycle (cycle_message found), s1\<lparr>sortedNames := found\<rparr>)
           else
             (case visit_prerequisites k nodeMap (nd_prerequisites nd) s1 of
                None \<Rightarrow> None
              | Some (status, s2) \<Rightarrow>
                  if \<not> status_compare status_OK status then Some (status, s2)
                  else
                    let s3 = s2\<lparr>sortedNames := sortedNames s2 @ [name]\<rparr> in
                    if last (inProgressNodeNames s3) \<noteq> name
                    then Some (mk_status InternalError (bs ''inProgressNodeNames stack corrupt''), s3)
                    else Some (status_OK,
                      s3\<lparr>inProgressNodeNames := butlast (inProgressNodeNames s3),
                         visitedNodeNames := List.insert name (visitedNodeNames s3)\<rparr>)))"
| "visit_prerequisites k nodeMap [] s = Some (status_OK, s)"
| "visit_prerequisites k nodeMap (p # ps) s =
     (case map_of nodeMap p of
        None \<Rightarrow> Some (mk_status BadValue p, s)
      | Some nd \<Rightarrow>
          (case recursiveTopSort k nodeMap (p, nd) s of
             None \<Rightarrow> None
           | Some (status, s1) \<Rightarrow>
               if \<not> status_compare status_OK status then Some (status, s1)
               else visit_prerequisites k nodeMap ps s1))"

fun topSort_loop ::
  "nat \<Rightarrow> 'f NodeMap \<Rightarrow> (byte list \<times> 'f NodeData) list \<Rightarrow> sort_state \<Rightarrow> (Status \<times> sort_state) option" where
  "topSort_loop k nodes [] s = Some (status_OK, s)"
| "topSort_loop k nodes (node # rest) s =
     (case recursiveTopSort k nodes node s of
        None \<Rightarrow> None
      | Some (status, s1) \<Rightarrow>
          if \<not> status_compare status_OK status then Some (status, s1) else topSort_loop k nodes rest s1)"

definition topSort :: "'f NodeMap \<Rightarrow> (Status \<times> byte list list) option" where
  "topSort nodes =
     map_option (\<lambda>(status, s). (status, sortedNames s))
       (topSort_loop (length nodes + 1) nodes nodes
          \<lparr>inProgressNodeNames = [], visitedNodeNames = [], sortedNames = []\<rparr>)"

section \<open>Running the initializers\<close>

text \<open>An initializer function takes the context, which includes what it changes, and returns a status.\<close>

type_synonym 'c InitializerFunction = "'c \<Rightarrow> Status \<times> 'c"

fun run_sorted :: "'c InitializerFunction NodeMap \<Rightarrow> byte list list \<Rightarrow> 'c \<Rightarrow> Status \<times> 'c" where
  "run_sorted graph [] context = (status_OK, context)"
| "run_sorted graph (n # ns) context =
     (case getInitializerFunction graph n of
        None \<Rightarrow>
          (mk_status InternalError
             (bs ''topSort returned a node that has no associated function: \"'' @ n @ bs ''\"''), context)
      | Some f \<Rightarrow>
          let (status, context) = f context in
          if \<not> status_compare status_OK status then (status, context) else run_sorted graph ns context)"

definition execute :: "'c InitializerFunction NodeMap \<Rightarrow> 'c \<Rightarrow> (Status \<times> 'c) option" where
  "execute graph context =
     (case topSort graph of
        None \<Rightarrow> None
      | Some (status, sortedNodes) \<Rightarrow>
          if \<not> status_compare status_OK status then Some (status, context)
          else Some (run_sorted graph sortedNodes context))"

text \<open>The environment block of \<open>runGlobalInitializersOrDie\<close>; \<open>None\<close> where the process exits.\<close>

fun environment_map :: "byte list list \<Rightarrow> (byte list \<times> byte list) list \<Rightarrow> (byte list \<times> byte list) list option" where
  "environment_map [] env = Some env"
| "environment_map (e # envp) env =
     (case split_at 61 e of
        None \<Rightarrow> None
      | Some (name, val) \<Rightarrow> environment_map envp (AList.update name val env))"

section \<open>Configuration variables\<close>

type_synonym 's SetFromStringFn = "byte list \<Rightarrow> 's \<Rightarrow> Status \<times> 's"
type_synonym 's VariableMap = "(byte list \<times> 's SetFromStringFn option) list"

definition registerVariableFn ::
  "byte list \<Rightarrow> 's SetFromStringFn option \<Rightarrow> 's VariableMap \<Rightarrow> Status \<times> 's VariableMap" where
  "registerVariableFn name setter variables =
     (case setter of
        None \<Rightarrow> (mk_status BadValue (bs ''setter function invalid''), variables)
      | Some f \<Rightarrow>
          let existingSetter = (case map_of variables name of Some x \<Rightarrow> x | None \<Rightarrow> None);
              variables = AList.update name existingSetter variables
          in if \<not> Option.is_none existingSetter then (mk_status DuplicateKey name, variables)
             else (status_OK, AList.update name (Some f) variables))"

definition setVariable :: "byte list \<Rightarrow> byte list \<Rightarrow> 's VariableMap \<Rightarrow> 's \<Rightarrow> (Status \<times> 's) res" where
  "setVariable name val variables s =
     (case map_of variables name of
        None \<Rightarrow> Inr (mk_status NoSuchKey name, s)
      | Some None \<Rightarrow> Inl (BadStatus ''bad_function_call'')
      | Some (Some f) \<Rightarrow> Inr (f val s))"

text \<open>The three kinds of setters; \<open>put\<close> stores a value in the variable.\<close>

definition set_string :: "(byte list \<Rightarrow> 's \<Rightarrow> 's) \<Rightarrow> 's SetFromStringFn" where
  "set_string put stringValue s = (status_OK, put stringValue s)"

definition set_number :: "int \<Rightarrow> int \<Rightarrow> (int \<Rightarrow> 's \<Rightarrow> 's) \<Rightarrow> 's SetFromStringFn" where
  "set_number lo hi put stringValue s =
     (case parseNumberFromStringWithBase lo hi stringValue 0 of
        Inr n \<Rightarrow> (status_OK, put n s)
      | Inl e \<Rightarrow> (mk_status FailedToParse (case e of BadStatus r \<Rightarrow> bs r | _ \<Rightarrow> []), s))"

definition set_bool :: "(bool \<Rightarrow> 's \<Rightarrow> 's) \<Rightarrow> 's SetFromStringFn" where
  "set_bool put stringValue s =
     (if stringValue = bs ''true'' then (status_OK, put True s)
      else if stringValue = bs ''false'' then (status_OK, put False s)
      else (mk_status FailedToParse (bs ''Could not parse boolean value out of \"'' @ stringValue @ bs ''\"''), s))"

section \<open>What the sort returns\<close>

definition runnable :: "'f NodeMap \<Rightarrow> byte list \<Rightarrow> bool" where
  "runnable nodes n = (getInitializerFunction nodes n \<noteq> None)"

definition needs :: "'f NodeMap \<Rightarrow> byte list \<Rightarrow> byte list list" where
  "needs nodes n = nd_prerequisites (node_at nodes n)"

text \<open>Every name has a function, comes once and after its prerequisites; \<open>seen\<close> has come before.\<close>

fun in_order :: "'f NodeMap \<Rightarrow> byte list set \<Rightarrow> byte list list \<Rightarrow> bool" where
  "in_order nodes seen [] = True"
| "in_order nodes seen (n # ns) =
     (n \<notin> seen \<and> runnable nodes n \<and> set (needs nodes n) \<subseteq> seen \<and> in_order nodes (insert n seen) ns)"

text \<open>A walk along prerequisites, and one that comes back to where it started.\<close>

fun walk :: "'f NodeMap \<Rightarrow> byte list list \<Rightarrow> bool" where
  "walk nodes (a # b # ns) = (b \<in> set (needs nodes a) \<and> walk nodes (b # ns))"
| "walk nodes _ = True"

definition is_cycle :: "'f NodeMap \<Rightarrow> byte list list \<Rightarrow> bool" where
  "is_cycle nodes ns = (2 \<le> length ns \<and> hd ns = last ns \<and> walk nodes ns)"

text \<open>A name that is in the graph, or is asked for there, and has no function.\<close>

definition missing :: "'f NodeMap \<Rightarrow> byte list \<Rightarrow> bool" where
  "missing nodes n =
     (\<not> runnable nodes n \<and> (n \<in> fst ` set nodes \<or> (\<exists>m \<in> fst ` set nodes. n \<in> set (needs nodes m))))"

lemma in_order_append:
  "in_order nodes seen (xs @ ys) \<longleftrightarrow> in_order nodes seen xs \<and> in_order nodes (seen \<union> set xs) ys"
  by (induction xs arbitrary: seen) auto

lemma walk_snoc: "walk nodes (ns @ [n]) \<longleftrightarrow> walk nodes ns \<and> (ns \<noteq> [] \<longrightarrow> n \<in> set (needs nodes (last ns)))"
  by (induction nodes ns rule: walk.induct) auto

lemma walk_dropWhile: "walk nodes ns \<Longrightarrow> walk nodes (dropWhile P ns)"
proof (induction nodes ns rule: walk.induct)
  case (1 nodes a b ns)
  then show ?case by (cases "P a") auto
qed auto

definition sort_inv :: "'f NodeMap \<Rightarrow> sort_state \<Rightarrow> bool" where
  "sort_inv nodes s =
     (in_order nodes {} (sortedNames s) \<and> set (visitedNodeNames s) = set (sortedNames s) \<and>
      distinct (inProgressNodeNames s) \<and> set (inProgressNodeNames s) \<inter> set (sortedNames s) = {} \<and>
      set (inProgressNodeNames s) \<subseteq> fst ` set nodes \<and> walk nodes (inProgressNodeNames s))"

text \<open>The outcome of a part of the sort that visits the names \<open>ns\<close>.\<close>

definition sort_outcome :: "'f NodeMap \<Rightarrow> byte list set \<Rightarrow> sort_state \<Rightarrow> Status \<times> sort_state \<Rightarrow> bool" where
  "sort_outcome nodes ns s r =
     (case r of (st, s') \<Rightarrow>
        (st = status_OK \<and> sort_inv nodes s' \<and> inProgressNodeNames s' = inProgressNodeNames s \<and>
          ns \<union> set (sortedNames s) \<subseteq> set (sortedNames s') \<and> set (sortedNames s') \<subseteq> fst ` set nodes) \<or>
        (\<exists>n. st = mk_status BadValue n \<and> missing nodes n) \<or>
        (st = mk_status GraphContainsCycle (cycle_message (sortedNames s')) \<and> is_cycle nodes (sortedNames s')))"

lemma dropWhile_tl:
  assumes "distinct xs"
  shows "tl (dropWhile (\<lambda>n. n \<noteq> x) (xs @ [x])) = [] \<longleftrightarrow> x \<notin> set xs"
  using assms by (induction xs) auto

lemma cycle_found:
  assumes "x \<in> set xs" "walk nodes xs" "x \<in> set (needs nodes (last xs))"
  shows "is_cycle nodes (dropWhile (\<lambda>n. n \<noteq> x) (xs @ [x]))"
proof -
  let ?c = "dropWhile (\<lambda>n. n \<noteq> x) xs"
  have c: "dropWhile (\<lambda>n. n \<noteq> x) (xs @ [x]) = ?c @ [x]" using assms(1) by (simp add: dropWhile_append1)
  have ne: "?c \<noteq> []" using assms(1) by (simp add: dropWhile_eq_Nil_conv)
  have "hd ?c = x" using hd_dropWhile [OF ne] by simp
  moreover have "last ?c = last xs" using ne by (metis last_appendR takeWhile_dropWhile_id)
  ultimately show ?thesis
    unfolding c is_cycle_def using ne assms walk_dropWhile [OF assms(2)]
    by (auto simp: walk_snoc Suc_le_eq)
qed

lemma node_facts:
  assumes "map_of nodes n = Some nd"
  shows "n \<in> fst ` set nodes" "needs nodes n = nd_prerequisites nd" "runnable nodes n \<longleftrightarrow> \<not> Option.is_none (nd_fn nd)"
  using map_of_SomeD [OF assms] assms
  by (force simp: needs_def node_at_def runnable_def getInitializerFunction_def Option.is_none_def)+

lemma stack_bound:
  assumes "sort_inv nodes s"
  shows "length (inProgressNodeNames s) \<le> length nodes"
proof -
  have "card (set (inProgressNodeNames s)) \<le> card (fst ` set nodes)"
    using assms by (intro card_mono) (auto simp: sort_inv_def)
  also have "\<dots> \<le> length nodes" using card_image_le [of "set nodes" fst] card_length [of nodes] by simp
  finally show ?thesis using assms distinct_card [of "inProgressNodeNames s"] by (simp add: sort_inv_def)
qed

lemma finish_node:
  fixes nodes :: "'f NodeMap"
  assumes "map_of nodes name = Some nd" "\<not> Option.is_none (nd_fn nd)" "distinct (inProgressNodeNames s)"
    and "walk nodes (inProgressNodeNames s)" "name \<notin> set (inProgressNodeNames s)"
    and "sort_outcome nodes (set (nd_prerequisites nd)) (s\<lparr>inProgressNodeNames := inProgressNodeNames s @ [name]\<rparr>) (status_OK, s2)"
  defines "s3 \<equiv> s2\<lparr>sortedNames := sortedNames s2 @ [name]\<rparr>"
  shows "last (inProgressNodeNames s3) = name"
    "sort_outcome nodes {name} s (status_OK,
       s3\<lparr>inProgressNodeNames := butlast (inProgressNodeNames s3),
          visitedNodeNames := List.insert name (visitedNodeNames s3)\<rparr>)"
proof -
  note nf = node_facts [OF assms(1)]
  have s2: "sort_inv nodes s2" "inProgressNodeNames s2 = inProgressNodeNames s @ [name]"
      "set (needs nodes name) \<union> set (sortedNames s) \<subseteq> set (sortedNames s2)"
      "set (sortedNames s2) \<subseteq> fst ` set nodes"
    using assms(6) nf(2) by (auto simp: sort_outcome_def status_OK_def mk_status_def)
  then show "last (inProgressNodeNames s3) = name" by (simp add: s3_def)
  have "name \<notin> set (sortedNames s2)" using s2(1,2) by (auto simp: sort_inv_def)
  then have "in_order nodes {} (sortedNames s2 @ [name])"
    using s2 assms(2) nf by (auto simp: in_order_append sort_inv_def)
  then show "sort_outcome nodes {name} s (status_OK,
       s3\<lparr>inProgressNodeNames := butlast (inProgressNodeNames s3),
          visitedNodeNames := List.insert name (visitedNodeNames s3)\<rparr>)"
    using s2 assms(3-5) nf(1) by (auto simp: s3_def sort_outcome_def sort_inv_def)
qed

lemma enter_node:
  fixes nodes :: "'f NodeMap"
  assumes "map_of nodes name = Some nd" "sort_inv nodes s" "name \<notin> set (visitedNodeNames s)"
    and "\<not> Option.is_none (nd_fn nd)" "name \<notin> set (inProgressNodeNames s)"
    and "visit_prerequisites k nodes (nd_prerequisites nd) (s\<lparr>inProgressNodeNames := inProgressNodeNames s @ [name]\<rparr>) = Some r"
    and "sort_outcome nodes (set (nd_prerequisites nd)) (s\<lparr>inProgressNodeNames := inProgressNodeNames s @ [name]\<rparr>) r"
  shows "\<exists>r. recursiveTopSort (Suc k) nodes (name, nd) s = Some r \<and> sort_outcome nodes {name} s r"
proof -
  obtain st s2 where r: "r = (st, s2)" by (cases r)
  have ip: "distinct (inProgressNodeNames s)" "walk nodes (inProgressNodeNames s)"
    using assms(2) by (simp_all add: sort_inv_def)
  show ?thesis
  proof (cases "st = status_OK")
    case True
    note f = finish_node [OF assms(1,4) ip assms(5) assms(7) [unfolded r True]]
    then show ?thesis
      using assms(3-6) dropWhile_tl [OF ip(1), of name] r True by (simp add: Let_def)
  next
    case False
    then have "\<not> status_compare status_OK st" "sort_outcome nodes {name} s (st, s2)"
      using assms(7) r by (auto simp: sort_outcome_def)
    then show ?thesis
      using assms(3-6) dropWhile_tl [OF ip(1), of name] r by (simp add: Let_def)
  qed
qed

lemma next_prerequisite:
  fixes nodes :: "'f NodeMap"
  assumes "map_of nodes p = Some nd" "recursiveTopSort k nodes (p, nd) s = Some (st, s1)"
    and "sort_outcome nodes {p} s (st, s1)"
    and "st = status_OK \<Longrightarrow> \<exists>r. visit_prerequisites k nodes ps s1 = Some r \<and> sort_outcome nodes (set ps) s1 r"
  shows "\<exists>r. visit_prerequisites k nodes (p # ps) s = Some r \<and> sort_outcome nodes (set (p # ps)) s r"
proof (cases "st = status_OK")
  case True
  obtain r2 where r2: "visit_prerequisites k nodes ps s1 = Some r2" "sort_outcome nodes (set ps) s1 r2"
    using assms(4) True by blast
  have "inProgressNodeNames s1 = inProgressNodeNames s" "insert p (set (sortedNames s)) \<subseteq> set (sortedNames s1)"
    using assms(3) True by (auto simp: sort_outcome_def status_OK_def mk_status_def)
  then have "sort_outcome nodes (set (p # ps)) s r2" using r2(2) by (auto simp: sort_outcome_def)
  then show ?thesis using assms(1,2) True r2(1) by simp
next
  case False
  then have "\<not> status_compare status_OK st" "sort_outcome nodes (set (p # ps)) s (st, s1)"
    using assms(3) by (auto simp: sort_outcome_def)
  then show ?thesis using assms(1,2) by simp
qed

lemma sort_steps:
  fixes nodes :: "'f NodeMap"
  shows "map_of nodes (fst node) = Some (snd node) \<Longrightarrow> sort_inv nodes s \<Longrightarrow>
      set (sortedNames s) \<subseteq> fst ` set nodes \<Longrightarrow>
      walk nodes (inProgressNodeNames s @ [fst node]) \<Longrightarrow>
      length nodes + 1 \<le> k + length (inProgressNodeNames s) \<Longrightarrow>
      \<exists>r. recursiveTopSort k nodes node s = Some r \<and> sort_outcome nodes {fst node} s r"
    and "sort_inv nodes s \<Longrightarrow> set (sortedNames s) \<subseteq> fst ` set nodes \<Longrightarrow>
      inProgressNodeNames s \<noteq> [] \<Longrightarrow> set ps \<subseteq> set (needs nodes (last (inProgressNodeNames s))) \<Longrightarrow>
      length nodes + 1 \<le> k + length (inProgressNodeNames s) \<Longrightarrow>
      \<exists>r. visit_prerequisites k nodes ps s = Some r \<and> sort_outcome nodes (set ps) s r"
proof (induction k nodes node s and k nodes ps s rule: recursiveTopSort_visit_prerequisites.induct)
  case (1 nodes node s)
  then show ?case using stack_bound by fastforce
next
  case (2 k nodes name nd s)
  let ?ip = "inProgressNodeNames s"
  let ?s1 = "s\<lparr>inProgressNodeNames := ?ip @ [name]\<rparr>"
  have nd: "map_of nodes name = Some nd" using "2.prems"(1) by simp
  note nf = node_facts [OF nd]
  have inv: "sort_inv nodes s" by (rule "2.prems")
  then have ip: "distinct ?ip" "walk nodes ?ip" by (simp_all add: sort_inv_def)
  consider (visited) "name \<in> set (visitedNodeNames s)" | (nofn) "name \<notin> set (visitedNodeNames s)" "Option.is_none (nd_fn nd)"
    | (cycle) "name \<notin> set (visitedNodeNames s)" "\<not> Option.is_none (nd_fn nd)" "name \<in> set ?ip"
    | (new) "name \<notin> set (visitedNodeNames s)" "\<not> Option.is_none (nd_fn nd)" "name \<notin> set ?ip" by blast
  then show ?case
  proof cases
    case visited
    then show ?thesis using inv "2.prems"(3) by (auto simp: sort_outcome_def sort_inv_def)
  next
    case nofn
    then show ?thesis using nf by (auto simp: sort_outcome_def missing_def)
  next
    case cycle
    have "name \<in> set (needs nodes (last ?ip))" using "2.prems"(4) cycle(3) by (auto simp: walk_snoc)
    then have "is_cycle nodes (dropWhile (\<lambda>n. n \<noteq> name) (?ip @ [name]))"
      using cycle_found cycle(3) ip(2) by blast
    then show ?thesis
      using cycle dropWhile_tl [OF ip(1), of name] by (auto simp: sort_outcome_def Let_def)
  next
    case new
    have inv1: "sort_inv nodes ?s1"
      using inv new nf "2.prems"(4) by (auto simp: sort_inv_def)
    have "\<exists>r. visit_prerequisites k nodes (nd_prerequisites nd) ?s1 = Some r \<and>
        sort_outcome nodes (set (nd_prerequisites nd)) ?s1 r"
      using "2.IH" new dropWhile_tl [OF ip(1), of name] inv1 "2.prems"(3,5) nf(2)
      by simp
    then show ?thesis using enter_node [OF nd inv new] by auto
  qed
next
  case (3 k nodes s)
  then show ?case by (auto simp: sort_outcome_def)
next
  case (4 k nodes p ps s)
  let ?ip = "inProgressNodeNames s"
  have p: "p \<in> set (needs nodes (last ?ip))" using "4.prems"(4) by simp
  have lst: "last ?ip \<in> fst ` set nodes"
    using "4.prems"(1,3) last_in_set [of ?ip] by (auto simp: sort_inv_def)
  show ?case
  proof (cases "map_of nodes p")
    case None
    then have "\<not> runnable nodes p" by (simp add: runnable_def getInitializerFunction_def)
    then have "missing nodes p" unfolding missing_def using p lst by blast
    then show ?thesis using None by (auto simp: sort_outcome_def)
  next
    case (Some nd)
    have "walk nodes (?ip @ [p])" using "4.prems"(1) p by (simp add: walk_snoc sort_inv_def)
    then obtain st s1 where r: "recursiveTopSort k nodes (p, nd) s = Some (st, s1)" "sort_outcome nodes {p} s (st, s1)"
      using "4.IH"(1) [OF Some] "4.prems"(1,2,5) Some by auto
    show ?thesis
    proof (rule next_prerequisite [OF Some r])
      assume ok: "st = status_OK"
      then have "sort_inv nodes s1" "inProgressNodeNames s1 = ?ip" "set (sortedNames s1) \<subseteq> fst ` set nodes"
        using r(2) by (auto simp: sort_outcome_def status_OK_def mk_status_def)
      then show "\<exists>r. visit_prerequisites k nodes ps s1 = Some r \<and> sort_outcome nodes (set ps) s1 r"
        using "4.IH"(2) [OF Some r(1) refl] ok "4.prems" by auto
    qed
  qed
qed

lemma topSort_loop_outcome:
  assumes "distinct (map fst nodes)" "set rest \<subseteq> set nodes" "sort_inv nodes s" "inProgressNodeNames s = []"
    and "set (sortedNames s) \<subseteq> fst ` set nodes"
  shows "\<exists>r. topSort_loop (length nodes + 1) nodes rest s = Some r \<and> sort_outcome nodes (fst ` set rest) s r"
  using assms(2-)
proof (induction rest arbitrary: s)
  case Nil
  then show ?case by (auto simp: sort_outcome_def)
next
  case (Cons node rest)
  have "map_of nodes (fst node) = Some (snd node)"
    using assms(1) Cons.prems(1) by (cases node) (auto intro: map_of_is_SomeI)
  from sort_steps(1) [OF this Cons.prems(2,4), of "length nodes + 1"] obtain st s1 where
    r: "recursiveTopSort (length nodes + 1) nodes node s = Some (st, s1)" "sort_outcome nodes {fst node} s (st, s1)"
    using Cons.prems(3) by auto
  show ?case
  proof (cases "st = status_OK")
    case True
    then have s1: "sort_inv nodes s1" "inProgressNodeNames s1 = []"
        "insert (fst node) (set (sortedNames s)) \<subseteq> set (sortedNames s1)" "set (sortedNames s1) \<subseteq> fst ` set nodes"
      using r(2) Cons.prems(3) by (auto simp: sort_outcome_def status_OK_def mk_status_def)
    then obtain r2 where r2: "topSort_loop (length nodes + 1) nodes rest s1 = Some r2"
        "sort_outcome nodes (fst ` set rest) s1 r2"
      using Cons.IH [of s1] Cons.prems(1) by auto
    have "sort_outcome nodes (fst ` set (node # rest)) s r2"
      using r2(2) s1(2,3) Cons.prems(3) by (auto simp: sort_outcome_def)
    then show ?thesis using r(1) True r2(1) by simp
  next
    case False
    then have "\<not> status_compare status_OK st" "sort_outcome nodes (fst ` set (node # rest)) s (st, s1)"
      using r(2) by (auto simp: sort_outcome_def)
    then show ?thesis using r(1) by simp
  qed
qed

lemma topSort_outcome:
  assumes "distinct (map fst nodes)"
  shows "\<exists>st out. topSort nodes = Some (st, out) \<and>
    (st = status_OK \<and> in_order nodes {} out \<and> set out = fst ` set nodes \<or>
     (\<exists>n. st = mk_status BadValue n \<and> missing nodes n) \<or>
     st = mk_status GraphContainsCycle (cycle_message out) \<and> is_cycle nodes out)"
proof -
  let ?s = "\<lparr>inProgressNodeNames = [], visitedNodeNames = [], sortedNames = []\<rparr>"
  have "sort_inv nodes ?s" by (simp add: sort_inv_def)
  from topSort_loop_outcome [OF assms subset_refl this] obtain st s where
    "topSort_loop (length nodes + 1) nodes nodes ?s = Some (st, s)" "sort_outcome nodes (fst ` set nodes) ?s (st, s)"
    by auto
  then show ?thesis by (auto simp: topSort_def sort_outcome_def sort_inv_def)
qed

section \<open>Orders and cycles\<close>

lemma in_order_closed: "in_order nodes seen out \<Longrightarrow> a \<in> set out \<Longrightarrow> set (needs nodes a) \<subseteq> seen \<union> set out"
  by (induction nodes seen out rule: in_order.induct) auto

lemma in_order_walk:
  assumes "in_order nodes {} out"
  shows "walk nodes ns \<Longrightarrow> ns \<noteq> [] \<Longrightarrow> hd ns \<in> set out \<Longrightarrow> set ns \<subseteq> set out"
  using in_order_closed [OF assms] by (induction nodes ns rule: walk.induct) auto

lemma in_order_no_cycle: "in_order nodes {} out \<Longrightarrow> is_cycle nodes ns \<Longrightarrow> hd ns \<notin> set out"
proof (induction out rule: rev_induct)
  case (snoc a out)
  have out: "in_order nodes {} out" "a \<notin> set out" "set (needs nodes a) \<subseteq> set out"
    using snoc.prems(1) by (auto simp: in_order_append)
  have "hd ns \<noteq> a"
  proof
    assume a: "hd ns = a"
    obtain b bs where ns: "ns = a # b # bs"
      using snoc.prems(2) a by (cases ns; cases "tl ns") (auto simp: is_cycle_def)
    then have b: "b \<in> set out" "walk nodes (b # bs)" using snoc.prems(2) out(3) by (auto simp: is_cycle_def)
    have "last ns \<in> set out"
      using in_order_walk [OF out(1) b(2)] b(1) ns last_in_set [of "b # bs"] by auto
    then show False using snoc.prems(2) a out(2) by (simp add: is_cycle_def)
  qed
  then show ?case using snoc.IH [OF out(1) snoc.prems(2)] by simp
qed simp

lemma cycle_in_graph:
  assumes "is_cycle nodes ns"
  shows "hd ns \<in> fst ` set nodes"
proof (rule ccontr)
  assume n: "hd ns \<notin> fst ` set nodes"
  obtain a b bs where ns: "ns = a # b # bs"
    using assms by (cases ns; cases "tl ns") (auto simp: is_cycle_def)
  have "map_of nodes a = None" using n ns by (simp add: map_of_eq_None_iff)
  then show False using assms ns by (simp add: is_cycle_def needs_def node_at_def)
qed

lemma in_order_runnable: "in_order nodes seen out \<Longrightarrow> n \<in> set out \<Longrightarrow> runnable nodes n"
  by (induction nodes seen out rule: in_order.induct) auto

lemma in_order_no_missing:
  assumes "in_order nodes {} out" "set out = fst ` set nodes"
  shows "\<not> missing nodes n"
proof
  assume m: "missing nodes n"
  then have "n \<in> set out"
    using in_order_closed [OF assms(1)] unfolding missing_def assms(2) [symmetric] by blast
  then show False using m in_order_runnable [OF assms(1)] by (simp add: missing_def)
qed

section \<open>Building the graph and running it\<close>

lemma node_at_update: "node_at (AList.update k x nodes) n = (if n = k then x else node_at nodes n)"
  by (simp add: node_at_def update_conv')

lemma getInitializerFunction_node: "getInitializerFunction nodes n = nd_fn (node_at nodes n)"
  by (simp add: getInitializerFunction_def node_at_def split: option.splits)

lemma set_fold_insert: "set (fold List.insert xs ys) = set xs \<union> set ys"
  by (induction xs arbitrary: ys) auto

lemma dependents_fold:
  fixes nodes :: "'f NodeMap"
  defines "add \<equiv> \<lambda>name d ns. AList.update d
    ((node_at ns d)\<lparr>nd_prerequisites := List.insert name (nd_prerequisites (node_at ns d))\<rparr>) (ns :: 'f NodeMap)"
  shows "nd_fn (node_at (fold (add name) ds nodes) n) = nd_fn (node_at nodes n)"
    "set (nd_prerequisites (node_at (fold (add name) ds nodes) n)) =
       set (nd_prerequisites (node_at nodes n)) \<union> (if n \<in> set ds then {name} else {})"
    "distinct (map fst nodes) \<Longrightarrow> distinct (map fst (fold (add name) ds nodes))"
  by (induction ds arbitrary: nodes) (auto simp: add_def node_at_update distinct_update)

text \<open>
  A new initializer is found under its name, has its prerequisites besides those that earlier calls gave it,
  and is a prerequisite of its dependents; all else stays.
\<close>

lemma addInitializer_new:
  assumes "getInitializerFunction nodes name = None"
  shows "\<exists>nodes'. addInitializer name (Some f) pre deps nodes = (status_OK, nodes') \<and>
    (\<forall>n. getInitializerFunction nodes' n = (if n = name then Some f else getInitializerFunction nodes n)) \<and>
    (\<forall>n. set (needs nodes' n) = set (needs nodes n) \<union> (if n = name then set pre else {}) \<union>
       (if n \<in> set deps then {name} else {}))"
  using assms unfolding getInitializerFunction_node
  by (auto simp: addInitializer_def Let_def needs_def dependents_fold node_at_update set_fold_insert)

lemma addInitializer_refused:
  "fst (addInitializer name None pre deps nodes) = mk_status BadValue (bs ''Illegal to supply a NULL function'')"
  "getInitializerFunction nodes name = Some g \<Longrightarrow>
     fst (addInitializer name (Some f) pre deps nodes) = mk_status DuplicateKey name \<and>
     (\<forall>n. node_at (snd (addInitializer name (Some f) pre deps nodes)) n = node_at nodes n)"
  unfolding getInitializerFunction_node by (auto simp: addInitializer_def Let_def node_at_update)

lemma addInitializer_distinct:
  "distinct (map fst nodes) \<Longrightarrow> distinct (map fst (snd (addInitializer name fn pre deps nodes)))"
  by (auto simp: addInitializer_def Let_def distinct_update dependents_fold split: option.split)

text \<open>The functions of a list, until one fails.\<close>

fun run_all :: "'c InitializerFunction list \<Rightarrow> 'c \<Rightarrow> Status \<times> 'c" where
  "run_all [] c = (status_OK, c)"
| "run_all (f # fs) c = (case f c of (st, c) \<Rightarrow> if status_compare status_OK st then run_all fs c else (st, c))"

lemma run_sorted_all:
  "\<forall>n \<in> set ns. runnable graph n \<Longrightarrow>
     run_sorted graph ns c = run_all (map (\<lambda>n. the (getInitializerFunction graph n)) ns) c"
  by (induction ns arbitrary: c) (auto simp: runnable_def split: prod.split)

text \<open>
  \<open>execute\<close> runs every initializer of a graph without cycles and missing functions, each after its
  prerequisites, until one fails.
\<close>

lemma execute_runs:
  assumes "distinct (map fst graph)" "\<forall>n. \<not> missing graph n" "\<forall>c. \<not> is_cycle graph c"
  shows "\<exists>ns. in_order graph {} ns \<and> set ns = fst ` set graph \<and>
    execute graph c = Some (run_all (map (\<lambda>n. the (getInitializerFunction graph n)) ns) c)"
proof -
  obtain ns where ns: "topSort graph = Some (status_OK, ns)" "in_order graph {} ns" "set ns = fst ` set graph"
    using topSort_outcome [OF assms(1)] assms(2,3) by blast
  have "run_sorted graph ns c = run_all (map (\<lambda>n. the (getInitializerFunction graph n)) ns) c"
    by (rule run_sorted_all, rule ballI, rule in_order_runnable [OF ns(2)])
  then show ?thesis using ns by (intro exI [of _ ns]) (simp add: execute_def)
qed

text \<open>A registered variable is set by its setter, and a name is registered only once.\<close>

lemma setVariable_registered:
  assumes "registerVariableFn name (Some f) variables = (st, variables')" "st_code st = OK"
  shows "setVariable name val variables' s = Inr (f val s)"
    "fst (registerVariableFn name (Some g) variables') = mk_status DuplicateKey name"
    "n \<noteq> name \<Longrightarrow> setVariable n val variables' s = setVariable n val variables s"
  using assms
  by (auto simp: registerVariableFn_def setVariable_def Let_def update_conv' mk_status_def split: if_splits)

lemma set_bool_iff:
  "st_code (fst (set_bool put v s)) = OK \<longleftrightarrow> v = bs ''true'' \<or> v = bs ''false''"
  by (auto simp: set_bool_def status_OK_def mk_status_def)

text \<open>
  C27: On every dependency graph \<open>topSort\<close> returns.  If it returns OK, it gives every initializer of the
  graph once, each with a function and after all its prerequisites, and the graph has no cycle and
  nothing missing.  Otherwise it names an initializer that is missing, or gives a cycle of the graph.
\<close>

theorem topSort_sorts:
  assumes "distinct (map fst nodes)"
  shows "\<exists>st out. topSort nodes = Some (st, out) \<and>
    (st = status_OK \<and> in_order nodes {} out \<and> set out = fst ` set nodes \<and>
       (\<forall>n. \<not> missing nodes n) \<and> (\<forall>c. \<not> is_cycle nodes c) \<or>
     (\<exists>n. st = mk_status BadValue n \<and> missing nodes n) \<or>
     st = mk_status GraphContainsCycle (cycle_message out) \<and> is_cycle nodes out)"
  using topSort_outcome [OF assms] in_order_no_missing in_order_no_cycle cycle_in_graph by metis

theorem topSort_sorts_witness:
  "\<exists>st out. topSort [(bs ''a'', \<lparr>nd_fn = Some (), nd_prerequisites = [bs ''b'']\<rparr>),
      (bs ''b'', \<lparr>nd_fn = Some (), nd_prerequisites = []\<rparr>)] = Some (st, out) \<and> st = status_OK \<and> out = [bs ''b'', bs ''a'']"
proof -
  let ?n = "[(bs ''a'', \<lparr>nd_fn = Some (), nd_prerequisites = [bs ''b'']\<rparr>),
      (bs ''b'', \<lparr>nd_fn = Some (), nd_prerequisites = []\<rparr>)]"
  have "distinct (map fst ?n)" by simp
  from topSort_sorts [OF this] obtain st out where t: "topSort ?n = Some (st, out)" by blast
  moreover have "topSort ?n = Some (status_OK, [bs ''b'', bs ''a''])"
    by (simp add: topSort_def numeral_2_eq_2 Let_def)
  ultimately show ?thesis by auto
qed

end
