(* ===== verification/BuilderRefine.thy ===== *)
theory BuilderRefine
  imports Builder
begin

text \<open>
  The builders implement the abstract format.  An append writes exactly the encoding of one element
  or fails because the buffer would pass 64 megabytes (\<open>sink_writes\<close>); a builder represents the
  document appended so far (\<open>bob_rep\<close>); \<open>done\<close> and \<open>obj\<close> leave its encoding.
\<close>

section \<open>Sinks of bytes\<close>

definition overflow_error :: "bson_error \<Rightarrow> bool" where
  "overflow_error e = (e = MsgAssert 13548 \<or> e = NoReturn)"

definition sink_writes ::
  "('s \<Rightarrow> byte list) \<Rightarrow> ('s \<Rightarrow> byte list \<Rightarrow> 's \<Rightarrow> bool) \<Rightarrow> ('s \<Rightarrow> 's res) \<Rightarrow> byte list \<Rightarrow> bool" where
  "sink_writes contents extended f cs =
     (\<forall>s. (\<exists>s'. f s = Inr s' \<and> extended s cs s') \<or>
          (BufferMaxSize < length (contents s) + length cs \<and> (\<exists>e. f s = Inl e \<and> overflow_error e)))"

lemma sink_writesD:
  "sink_writes contents extended f cs \<Longrightarrow>
     (\<exists>s'. f s = Inr s' \<and> extended s cs s') \<or>
     (BufferMaxSize < length (contents s) + length cs \<and> (\<exists>e. f s = Inl e \<and> overflow_error e))"
  unfolding sink_writes_def by (rule spec)

locale byte_sink =
  fixes put :: "'s \<Rightarrow> byte list \<Rightarrow> 's res"
    and contents :: "'s \<Rightarrow> byte list"
    and extended :: "'s \<Rightarrow> byte list \<Rightarrow> 's \<Rightarrow> bool"
  assumes ext_contents: "extended s cs s' \<Longrightarrow> contents s' = contents s @ cs"
    and ext_trans: "extended s xs t \<Longrightarrow> extended t ys u \<Longrightarrow> extended s (xs @ ys) u"
    and ext_refl: "extended s [] s"
    and put_writes: "sink_writes contents extended (\<lambda>s. put s cs) cs"
begin

lemma writes_bind:
  assumes "sink_writes contents extended f xs" "sink_writes contents extended g ys"
  shows "sink_writes contents extended (\<lambda>s. rbind (f s) g) (xs @ ys)"
  unfolding sink_writes_def
proof
  fix s
  consider s' where "f s = Inr s'" "extended s xs s'"
    | e where "BufferMaxSize < length (contents s) + length xs" "f s = Inl e" "overflow_error e"
    using sink_writesD [OF assms(1), of s] by blast
  then show "(\<exists>s'. rbind (f s) g = Inr s' \<and> extended s (xs @ ys) s') \<or>
      (BufferMaxSize < length (contents s) + length (xs @ ys) \<and>
        (\<exists>e. rbind (f s) g = Inl e \<and> overflow_error e))"
  proof cases
    case 1
    then show ?thesis
      using sink_writesD [OF assms(2), of s'] ext_contents [OF 1(2)] ext_trans [OF 1(2)]
      by (auto simp: add.assoc)
  qed auto
qed

lemma writes_return: "sink_writes contents extended Inr []"
  by (simp add: sink_writes_def ext_refl)

lemma writes_put2:
  "sink_writes contents extended (\<lambda>s. rbind (put s xs) (\<lambda>s. put s ys)) (xs @ ys)"
  by (intro writes_bind put_writes)

lemma writes_room:
  assumes "sink_writes contents extended f cs"
    and "length (contents s) + length cs \<le> BufferMaxSize"
  obtains s' where "f s = Inr s'" "extended s cs s'"
  using assms(2) sink_writesD [OF assms(1), of s] by fastforce

lemma writes_Inr:
  assumes "sink_writes contents extended f cs" "f s = Inr s'"
  shows "extended s cs s'"
  using assms(2) sink_writesD [OF assms(1), of s] by auto

lemma writes_Inl:
  assumes "sink_writes contents extended f cs" "f s = Inl e"
  shows "overflow_error e" "BufferMaxSize < length (contents s) + length cs"
  using assms(2) sink_writesD [OF assms(1), of s] by auto

end

section \<open>The buffer\<close>

lemma double_until_ge: "0 < a \<Longrightarrow> n \<le> double_until a n"
proof (induction a n rule: double_until.induct)
  case (1 a n)
  then show ?case by (cases "a < n") (auto simp: double_until.simps [of a])
qed

lemma double_until_le:
  "a = 2 ^ j \<Longrightarrow> j \<le> 26 \<Longrightarrow> n \<le> 2 ^ 26 \<Longrightarrow> double_until a n \<le> 2 ^ 26"
proof (induction a n arbitrary: j rule: double_until.induct)
  case (1 a n)
  have a: "a \<le> 2 ^ 26"
    using power_increasing [OF 1(3), of "2 :: nat"] 1(2) by simp
  show ?case
  proof (cases "a < n")
    case True
    then have "(2 :: nat) ^ j < 2 ^ 26"
      using 1(2,4) by linarith
    then have "j < 26"
      by (simp only: power_strict_increasing_iff)
    then have "double_until (a * 2) n \<le> 2 ^ 26"
      using 1 True by (intro 1(1) [of "Suc j"]) auto
    then show ?thesis
      using True 1(2) by (subst double_until.simps) simp
  next
    case False
    then show ?thesis using a by (simp add: double_until.simps [of a])
  qed
qed

lemma double_until_64: "double_until 64 n \<le> BufferMaxSize \<longleftrightarrow> n \<le> BufferMaxSize"
  using double_until_ge [of 64 n] double_until_le [of 64 6 n]
  by (auto simp: BufferMaxSize_def)

lemma bb_grow_spec:
  "(\<exists>sz. bb_grow b k = Inr (b\<lparr>bb_size := sz\<rparr>)) \<or>
   (BufferMaxSize < bb_len b + k \<and> (\<exists>e. bb_grow b k = Inl e \<and> overflow_error e))"
proof (cases "bb_len b + k > bb_size b")
  case True
  then show ?thesis
    using double_until_64 [of "bb_len b + k"]
    by (auto simp: bb_grow_def grow_reallocate_def overflow_error_def BufferMaxSize_def Let_def)
next
  case False
  then have "bb_grow b k = Inr (b\<lparr>bb_size := bb_size b\<rparr>)"
    by (simp add: bb_grow_def)
  then show ?thesis by blast
qed

definition bb_extended :: "BufBuilder \<Rightarrow> byte list \<Rightarrow> BufBuilder \<Rightarrow> bool" where
  "bb_extended b cs b' = (bb_data b' = bb_data b @ cs)"

definition bob_contents :: "BSONObjBuilder \<Rightarrow> byte list" where
  "bob_contents b = bb_data (bob_b b)"

definition bob_extended :: "BSONObjBuilder \<Rightarrow> byte list \<Rightarrow> BSONObjBuilder \<Rightarrow> bool" where
  "bob_extended b cs b' =
     (bob_contents b' = bob_contents b @ cs \<and> bob_offset b' = bob_offset b \<and>
      bob_owned b' = bob_owned b \<and> bob_doneCalled b' = bob_doneCalled b)"

lemma bb_append_spec:
  "(\<exists>sz. bb_append b cs = Inr (b\<lparr>bb_size := sz, bb_data := bb_data b @ cs\<rparr>)) \<or>
   (BufferMaxSize < length (bb_data b) + length cs \<and> (\<exists>e. bb_append b cs = Inl e \<and> overflow_error e))"
  using bb_grow_spec [of b "length cs"] by (auto simp: bb_append_def bb_len_def)

interpretation buf_sink: byte_sink bb_append bb_data bb_extended
proof
  show "sink_writes bb_data bb_extended (\<lambda>s. bb_append s cs) cs" for cs
    unfolding sink_writes_def bb_extended_def using bb_append_spec by fastforce
qed (auto simp: bb_extended_def)

interpretation bob_sink: byte_sink bob_put bob_contents bob_extended
proof
  show "sink_writes bob_contents bob_extended (\<lambda>s. bob_put s cs) cs" for cs
    unfolding sink_writes_def
  proof
    fix s
    show "(\<exists>s'. bob_put s cs = Inr s' \<and> bob_extended s cs s') \<or>
      (BufferMaxSize < length (bob_contents s) + length cs \<and>
        (\<exists>e. bob_put s cs = Inl e \<and> overflow_error e))"
      using bb_append_spec [of "bob_b s" cs]
      by (auto simp: bob_put_def bob_extended_def bob_contents_def)
  qed
qed (auto simp: bob_extended_def)

abbreviation writes :: "(BSONObjBuilder \<Rightarrow> BSONObjBuilder res) \<Rightarrow> byte list \<Rightarrow> bool" where
  "writes \<equiv> sink_writes bob_contents bob_extended"

lemma writes_putBuf:
  assumes "length cs < 2 ^ 31" "n = int32 (length cs)"
  shows "writes (\<lambda>b. bob_putBuf b (cs @ r) n) cs"
proof -
  have "sint n = int (length cs)"
    using assms by (simp add: sint_int32)
  then have "bob_putBuf b (cs @ r) n = bob_put b cs" for b
    by (cases "bb_grow (bob_b b) (length cs)")
       (simp_all add: bob_putBuf_def bob_put_def bb_appendBuf_def bb_append_def read_bytes_def)
  then show ?thesis
    using bob_sink.put_writes [of cs] by simp
qed

lemma writes_header: "writes (\<lambda>b. bob_header b t n) (type_byte t # n @ [0])"
  using bob_sink.writes_put2 [of "[type_byte t]" "n @ [0]"] by (simp add: bob_header_def)

lemma writes_after_header:
  assumes "writes f cs"
  shows "writes (\<lambda>b. rbind (bob_header b t n) f) (type_byte t # n @ 0 # cs)"
  using bob_sink.writes_bind [OF writes_header assms, of t n] by simp

lemma writes_putStr: "writes (\<lambda>b. bob_putStr b s) (enc_str s)"
  using bob_sink.writes_put2 [of "put32 (int32 (length s) + 1)" "s @ [0]"]
  by (simp add: bob_putStr_def enc_str_def int32_arith)


section \<open>Each append writes one element\<close>

text \<open>\<open>appends f name v\<close>: the operation \<open>f\<close> writes the element \<open>v\<close> under the name \<open>name\<close>.\<close>

definition appends :: "(BSONObjBuilder \<Rightarrow> BSONObjBuilder res) \<Rightarrow> byte list \<Rightarrow> bval \<Rightarrow> bool" where
  "appends f name v = writes f (enc_elem name v)"

lemma appendsI:
  assumes "writes f (enc_value v)"
  shows "appends (\<lambda>b. rbind (bob_header b (vtype v) name) f) name v"
  using writes_after_header [OF assms, of "vtype v" name] by (simp add: appends_def enc_elem_def)

lemma appends_header:
  assumes "enc_value v = []"
  shows "appends (\<lambda>b. bob_header b (vtype v) name) name v"
  using writes_header [of "vtype v" name] by (simp add: appends_def enc_elem_def assms)

lemma appends_scalars:
  "appends (\<lambda>b. append_int b name n) name (VInt n)"
  "appends (\<lambda>b. append_long b name w) name (VLong w)"
  "appends (\<lambda>b. append_double b name w) name (VDouble w)"
  "appends (\<lambda>b. appendBool b name x) name (VBool (if x then 1 else 0))"
  "appends (\<lambda>b. appendDate b name w) name (VDate w)"
  "appends (\<lambda>b. appendTimestamp b name w) name (VTimestamp w)"
  using appendsI [of "\<lambda>b. bob_put b (put32 n)" "VInt n" name]
    appendsI [of "\<lambda>b. bob_put b (put64 w)" "VLong w" name]
    appendsI [of "\<lambda>b. bob_put b (put64 w)" "VDouble w" name]
    appendsI [of "\<lambda>b. bob_put b [if x then 1 else 0]" "VBool (if x then 1 else 0)" name]
    appendsI [of "\<lambda>b. bob_put b (put64 w)" "VDate w" name]
    appendsI [of "\<lambda>b. bob_put b (put64 w)" "VTimestamp w" name]
  by (simp_all add: append_int_def append_long_def append_double_def appendBool_def appendDate_def
      appendTimestamp_def bob_sink.put_writes)

lemma appends_markers:
  "appends (\<lambda>b. appendNull b name) name VNull"
  "appends (\<lambda>b. appendUndefined b name) name VUndefined"
  "appends (\<lambda>b. appendMinKey b name) name VMinKey"
  "appends (\<lambda>b. appendMaxKey b name) name VMaxKey"
  using appends_header [of VNull name] appends_header [of VUndefined name]
    appends_header [of VMinKey name] appends_header [of VMaxKey name]
  by (simp_all add: appendNull_def appendUndefined_def appendMinKey_def appendMaxKey_def)

lemma appends_strings:
  "appends (\<lambda>b. append_str b name s) name (VString s)"
  "appends (\<lambda>b. appendCode b name s) name (VCode s)"
  "appends (\<lambda>b. appendSymbol b name s) name (VSymbol s)"
  using appendsI [of "\<lambda>b. bob_putStr b s" "VString s" name]
    appendsI [of "\<lambda>b. bob_putStr b s" "VCode s" name]
    appendsI [of "\<lambda>b. bob_putStr b s" "VSymbol s" name]
  by (simp_all add: append_str_def appendCode_def appendSymbol_def writes_putStr)

lemma appends_regex: "appends (\<lambda>b. appendRegex b name p f) name (VRegEx p f)"
  using appendsI [of "\<lambda>b. rbind (bob_put b (p @ [0])) (\<lambda>b. bob_put b (f @ [0]))" "VRegEx p f" name]
    bob_sink.writes_put2 [of "p @ [0]" "f @ [0]"]
  by (simp add: appendRegex_def)

lemma writes_putBuf_all:
  "small cs \<Longrightarrow> n = int32 (length cs) \<Longrightarrow> writes (\<lambda>b. bob_putBuf b cs n) cs"
  using writes_putBuf [of cs n "[]"] by (simp add: small_def)

lemma appends_oid:
  assumes "length x = 12"
  shows "appends (\<lambda>b. append_oid b name x) name (VOID x)"
  using appendsI [of "\<lambda>b. bob_putBuf b x 12" "VOID x" name] writes_putBuf_all [of x 12] assms
  by (simp add: append_oid_def small_def int32_def)

lemma appends_dbref:
  assumes "length x = 12"
  shows "appends (\<lambda>b. appendDBRef b name ns x) name (VDBRef ns x)"
  using appendsI [of "\<lambda>b. rbind (bob_putStr b ns) (\<lambda>b. bob_putBuf b x 12)" "VDBRef ns x" name]
    bob_sink.writes_bind [OF writes_putStr writes_putBuf_all [of x 12], of ns] assms
  by (simp add: appendDBRef_def small_def int32_def)

lemma appends_binData:
  assumes "small cs" "n = int32 (length cs)"
  shows "appends (\<lambda>b. appendBinData b name n t (cs @ r)) name (VBinData t cs)"
proof -
  have "writes (\<lambda>b. rbind (bob_put b (put32 n)) (\<lambda>b. rbind (bob_put b [t]) (\<lambda>b.
      bob_putBuf b (cs @ r) n))) (put32 n @ [t] @ cs)"
    using assms by (intro bob_sink.writes_bind bob_sink.put_writes writes_putBuf) (auto simp: small_def)
  then show ?thesis
    using appendsI [of _ "VBinData t cs" name] assms by (simp add: appendBinData_def)
qed

lemma appends_obj:
  assumes "wf_doc d"
  shows "appends (\<lambda>b. append_obj b name (encode d @ r)) name (VObject d)"
    and "appends (\<lambda>b. appendArray b name (encode d @ r)) name (VArray d)"
proof -
  have "writes (\<lambda>b. bob_putBuf b (encode d @ r) (int32 (length (encode d)))) (encode d)"
    using wf_docD(3) [OF assms] by (intro writes_putBuf) auto
  then show "appends (\<lambda>b. append_obj b name (encode d @ r)) name (VObject d)"
    and "appends (\<lambda>b. appendArray b name (encode d @ r)) name (VArray d)"
    using appendsI [of _ "VObject d" name] appendsI [of _ "VArray d" name]
    by (simp_all add: append_obj_def appendArray_def encode_def [symmetric])
qed

lemma appends_codeWScope:
  assumes "wf_doc d"
  shows "appends (\<lambda>b. appendCodeWScope b name c (encode d @ r)) name (VCodeWScope c d)"
proof -
  let ?n = "int32 (length (encode d))"
  have s: "4 + 4 + int32 (length c) + 1 + ?n = int32 (length (enc_str c) + length (encode d) + 4)"
    by (simp add: int32_def)
  have "writes (\<lambda>b. rbind (bob_put b (put32 (4 + 4 + int32 (length c) + 1 + ?n))) (\<lambda>b.
      rbind (bob_putStr b c) (\<lambda>b. bob_putBuf b (encode d @ r) ?n)))
    (put32 (4 + 4 + int32 (length c) + 1 + ?n) @ enc_str c @ encode d)"
    using wf_docD(3) [OF assms]
    by (intro bob_sink.writes_bind bob_sink.put_writes writes_putStr writes_putBuf) auto
  then show ?thesis
    using appendsI [of _ "VCodeWScope c d" name]
    unfolding appendCodeWScope_def objsize_encode rbind_simps s
    by (simp add: encode_def [symmetric])
qed

lemma appends_elem:
  assumes "elem_ok name v"
  shows "appends (\<lambda>b. append_elem b (enc_elem name v @ r)) name v"
  using writes_putBuf [of "enc_elem name v" _ r] assms
  by (simp add: append_elem_def appends_def elem_ok_def small_def)

lemma appends_as:
  assumes "elem_ok name v"
  shows "appends (\<lambda>b. appendAs b (enc_elem name v @ r) name') name' v"
proof -
  have "length (enc_value v) < 2 ^ 31"
    using elem_okD(3) [OF assms] by simp
  then show ?thesis
    using appendsI [of _ v name'] writes_putBuf [of "enc_value v" _ r] assms
    by (simp add: appendAs_def valuesize_enc)
qed


section \<open>The document a builder holds\<close>

definition bob_rep :: "BSONObjBuilder \<Rightarrow> bdoc \<Rightarrow> bool" where
  "bob_rep b d =
     (\<not> bob_doneCalled b \<and> bob_offset b + 4 \<le> length (bob_contents b) \<and>
      drop (bob_offset b + 4) (bob_contents b) = enc_elems d)"

text \<open>A builder with a buffer of its own.\<close>

definition builds :: "BSONObjBuilder \<Rightarrow> bdoc \<Rightarrow> bool" where
  "builds b d = (bob_rep b d \<and> bob_offset b = 4 \<and> bob_owned b)"

lemma rep_extended:
  "bob_rep b d \<Longrightarrow> bob_extended b (enc_elems s) b' \<Longrightarrow> bob_rep b' (d @ s)"
  by (auto simp: bob_rep_def bob_extended_def)

lemma builds_extended:
  "builds b d \<Longrightarrow> bob_extended b (enc_elems s) b' \<Longrightarrow> builds b' (d @ s)"
  using rep_extended by (auto simp: builds_def bob_extended_def)

lemma rep_length:
  "bob_rep b d \<Longrightarrow> length (bob_contents b) = bob_offset b + 4 + length (enc_elems d)"
  by (metis bob_rep_def le_add_diff_inverse length_drop)

lemma bob_new_builds: "\<exists>b. bob_new k = Inr b \<and> builds b []"
proof -
  obtain b where b: "bb_append (bb_new (k + 4)) (put32 0) = Inr b" "bb_data b = put32 0"
    using bb_append_spec [of "bb_new (k + 4)" "put32 0"]
    by (auto simp: bb_new_def BufferMaxSize_def)
  obtain b' where "bb_skip b 4 = Inr b'" "bb_data b' = put32 0 @ replicate 4 0"
    using bb_append_spec [of b "replicate 4 0"] b(2)
    by (auto simp: bb_skip_def BufferMaxSize_def)
  with b show ?thesis
    by (simp add: bob_new_def builds_def bob_rep_def bob_contents_def)
qed

text \<open>The frame that \<open>_done\<close> puts around whatever was appended.\<close>

lemma bob_done_frame:
  assumes "\<not> bob_doneCalled b" "bob_offset b + 4 \<le> length (bob_contents b)"
    and "drop (bob_offset b + 4) (bob_contents b) = es" "length (bob_contents b) + 1 \<le> BufferMaxSize"
  shows "\<exists>b'. bob_done b = Inr b' \<and> bob_bytes b' = enc_frame es \<and> bob_owned b' = bob_owned b \<and>
    bob_offset b' = bob_offset b \<and> bob_doneCalled b' \<and>
    bob_contents b' = take (bob_offset b) (bob_contents b) @ enc_frame es"
proof -
  let ?o = "bob_offset b" and ?c = "bob_contents b"
  obtain b1 where b1: "bob_put b [0] = Inr b1" "bob_extended b [0] b1"
    using bob_sink.writes_room [OF bob_sink.put_writes [of "[0]"], of b] assms(4) by auto
  have len: "length ?c = ?o + 4 + length es"
    using assms(2) arg_cong [OF assms(3), of length] by simp
  have c1: "bb_data (bob_b b1) = ?c @ [0]" and o1: "bob_offset b1 = ?o"
    using b1(2) by (simp_all add: bob_extended_def bob_contents_def)
  have "overwrite ?o (put32 (int32 (length es + 5))) (?c @ [0]) = take ?o ?c @ enc_frame es"
    using assms(3) len by (simp add: overwrite_def enc_frame_def add.commute)
  moreover have "bb_len (bob_b b1) - ?o = length es + 5"
    by (simp add: bb_len_def c1 len)
  ultimately show ?thesis
    using assms(1) b1 c1 o1 len
    by (auto simp: bob_done_def Let_def bob_bytes_def bob_contents_def bob_extended_def)
qed

lemma bob_done_rep:
  assumes "bob_rep b d" "length (bob_contents b) + 1 \<le> BufferMaxSize"
  shows "\<exists>b'. bob_done b = Inr b' \<and> bob_bytes b' = encode d \<and> bob_owned b' = bob_owned b \<and>
    bob_offset b' = bob_offset b \<and> bob_doneCalled b' \<and>
    bob_contents b' = take (bob_offset b) (bob_contents b) @ encode d"
  using bob_done_frame [of b "enc_elems d"] assms by (simp add: bob_rep_def encode_def)

lemma fresh_builder:
  assumes "builds b []"
  shows "length (bob_contents b) = 8" "bob_offset b = 4" "bob_owned b" "\<not> bob_doneCalled b"
proof -
  have r: "bob_rep b []" and o4: "bob_offset b = 4" and w: "bob_owned b"
    using assms unfolding builds_def by blast+
  show "bob_offset b = 4" "bob_owned b" by fact+
  show "length (bob_contents b) = 8" using rep_length [OF r] o4 by simp
  show "\<not> bob_doneCalled b" using r unfolding bob_rep_def by blast
qed

text \<open>\<open>obj\<close> of a fresh builder to which \<open>f\<close> has appended the bytes \<open>es\<close>.\<close>

lemma obj_writes:
  assumes "writes f es" "length es + 5 \<le> BSONObjMaxInternalSize"
  shows "rbind (bob_new k) (\<lambda>b. rbind (f b) obj) = Inr (enc_frame es)"
proof -
  have mx: "length es + 5 \<le> 16793600"
    using assms(2) by (simp add: BSONObjMaxInternalSize_def BSONObjMaxUserSize_def)
  obtain b where b: "bob_new k = Inr b" "builds b []"
    using bob_new_builds by blast
  note c = fresh_builder [OF b(2)]
  have "length (bob_contents b) + length es \<le> BufferMaxSize"
    using c mx by (simp add: BufferMaxSize_def)
  then obtain b1 where b1: "f b = Inr b1" "bob_extended b es b1"
    using bob_sink.writes_room [OF assms(1)] by blast
  then have c1: "bob_contents b1 = bob_contents b @ es" "bob_offset b1 = 4" "bob_owned b1" "\<not> bob_doneCalled b1"
    using c by (simp_all add: bob_extended_def)
  have "bob_offset b1 + 4 \<le> length (bob_contents b1)" "drop (bob_offset b1 + 4) (bob_contents b1) = es"
    "length (bob_contents b1) + 1 \<le> BufferMaxSize"
    using c mx by (simp_all add: c1 BufferMaxSize_def)
  from bob_done_frame [OF c1(4) this] obtain b2 where
    b2: "bob_done b1 = Inr b2" "bob_bytes b2 = enc_frame es"
    by blast
  have "sint (int32 (length es + 5)) = int (length es + 5)"
    using mx by (intro sint_int32) simp
  then have "bson_obj (enc_frame es) = Inr (enc_frame es)"
    using assms(2) by (simp add: bson_obj_def isValid_def objsize_def enc_frame_def)
  then show ?thesis
    using b(1) b1(1) b2 c1(3) by (simp add: obj_def)
qed

lemma builds_room:
  assumes "builds b d" "wf_doc d"
  shows "length (bob_contents b) + 1 \<le> BufferMaxSize"
  using rep_length [of b d] assms wf_docD(3) [OF assms(2)]
  by (simp add: builds_def BufferMaxSize_def length_encode)

lemma obj_builds:
  assumes "builds b d" "wf_doc d"
  shows "obj b = Inr (encode d)"
proof -
  have "bob_rep b d"
    using assms(1) by (simp add: builds_def)
  from bob_done_rep [OF this builds_room [OF assms]]
  obtain b' where "bob_done b = Inr b'" "bob_bytes b' = encode d"
    by blast
  then show ?thesis
    using assms bson_obj_encode [OF assms(2), of "[]"] by (simp add: obj_def builds_def)
qed

lemma writes_builds:
  assumes "writes f (enc_elems s)" "builds b d" "wf_doc (d @ s)"
  shows "\<exists>b'. f b = Inr b' \<and> builds b' (d @ s)"
proof -
  have "length (bob_contents b) + length (enc_elems s) \<le> BufferMaxSize"
    using rep_length [of b d] assms(2) wf_docD(3) [OF assms(3)]
    by (simp add: builds_def BufferMaxSize_def length_encode)
  then obtain b' where "f b = Inr b'" "bob_extended b (enc_elems s) b'"
    using assms(1) bob_sink.writes_room by blast
  then show ?thesis
    using builds_extended [OF assms(2)] by blast
qed

lemma enc_elems_single: "enc_elems [(n, v)] = enc_elem n v"
  by (simp add: enc_elem_def)

lemma appends_builds:
  "appends f n v \<Longrightarrow> builds b d \<Longrightarrow> wf_doc (d @ [(n, v)]) \<Longrightarrow>
   \<exists>b'. f b = Inr b' \<and> builds b' (d @ [(n, v)])"
  by (rule writes_builds) (simp only: appends_def enc_elems_single)

section \<open>Nested builders\<close>

text \<open>
  A sub-object written in place, through a builder on the parent's buffer, leaves the parent with the
  sub-document as its last field.
\<close>

lemma sub_builder_start:
  assumes "length (bob_contents b) + 4 \<le> BufferMaxSize"
  shows "\<exists>sb. bob_sub (bob_b b) = Inr sb \<and> bob_rep sb [] \<and> bob_offset sb = length (bob_contents b) \<and>
    take (bob_offset sb) (bob_contents sb) = bob_contents b"
  using bb_append_spec [of "bob_b b" "replicate 4 0"] assms
  by (auto simp: bob_sub_def bb_skip_def bob_rep_def bob_contents_def bb_len_def)

lemma sub_builder_done:
  assumes "bob_rep b d" "writes (\<lambda>b. hdr b) (type_byte (vtype v) # n @ [0])" "hdr b = Inr b1"
    and "enc_value v = encode s"
    and "bob_rep sb s" "bob_offset sb = length (bob_contents b1)"
    and "take (bob_offset sb) (bob_contents sb) = bob_contents b1"
    and "length (bob_contents sb) + 1 \<le> BufferMaxSize"
  shows "\<exists>sb'. bob_done sb = Inr sb' \<and> bob_rep (bob_return b1 sb') (d @ [(n, v)])"
proof -
  obtain sb' where sb': "bob_done sb = Inr sb'" "bob_contents sb' = bob_contents b1 @ encode s"
    using bob_done_rep [OF assms(5,8)] assms(7) by auto
  have e: "bob_extended b (type_byte (vtype v) # n @ [0]) b1"
    using bob_sink.writes_Inr [OF assms(2,3)] .
  then have "bob_extended b (enc_elems [(n, v)]) (bob_return b1 sb')"
    using sb'(2) assms(4) by (simp add: bob_extended_def bob_return_def bob_contents_def)
  then show ?thesis
    using rep_extended [OF assms(1)] sb'(1) by blast
qed

section \<open>Building a whole document\<close>

text \<open>One value with the operation the source has for its type.\<close>

fun append_value :: "BSONObjBuilder \<Rightarrow> byte list \<Rightarrow> bval \<Rightarrow> BSONObjBuilder res" where
  "append_value b n (VDouble w) = append_double b n w"
| "append_value b n (VString s) = append_str b n s"
| "append_value b n (VObject d) = append_obj b n (encode d)"
| "append_value b n (VArray d) = appendArray b n (encode d)"
| "append_value b n (VBinData t cs) = appendBinData b n (int32 (length cs)) t cs"
| "append_value b n VUndefined = appendUndefined b n"
| "append_value b n (VOID x) = append_oid b n x"
| "append_value b n (VBool x) = appendBool b n (x \<noteq> 0)"
| "append_value b n (VDate w) = appendDate b n w"
| "append_value b n VNull = appendNull b n"
| "append_value b n (VRegEx p f) = appendRegex b n p f"
| "append_value b n (VDBRef ns x) = appendDBRef b n ns x"
| "append_value b n (VCode c) = appendCode b n c"
| "append_value b n (VSymbol s) = appendSymbol b n s"
| "append_value b n (VCodeWScope c d) = appendCodeWScope b n c (encode d)"
| "append_value b n (VInt i) = append_int b n i"
| "append_value b n (VTimestamp w) = appendTimestamp b n w"
| "append_value b n (VLong w) = append_long b n w"
| "append_value b n VMinKey = appendMinKey b n"
| "append_value b n VMaxKey = appendMaxKey b n"

text \<open>The builder writes the bytes 0 and 1 for booleans.\<close>

fun plain_bool :: "bval \<Rightarrow> bool" where
  "plain_bool (VBool x) = (x = 0 \<or> x = 1)"
| "plain_bool _ = True"

definition build :: "bdoc \<Rightarrow> mem res" where
  "build d = rbind (bob_new 512) (\<lambda>b. rbind (append_pairs append_value d b) obj)"

lemma sub_wf_doc:
  assumes "wf_value v" "length (enc_value v) \<le> BSONObjMaxInternalSize"
  shows "v = VObject d \<Longrightarrow> wf_doc d" "v = VArray d \<Longrightarrow> wf_doc d" "v = VCodeWScope c d \<Longrightarrow> wf_doc d"
  using assms by (auto simp: wf_doc_def length_encode)

lemma appends_value:
  assumes "wf_value v" "length (enc_value v) \<le> BSONObjMaxInternalSize" "plain_bool v"
  shows "appends (\<lambda>b. append_value b n v) n v"
proof (cases v)
  case (VObject d)
  then show ?thesis using appends_obj(1) [of d n "[]"] sub_wf_doc [OF assms(1,2)] by simp
next
  case (VArray d)
  then show ?thesis using appends_obj(2) [of d n "[]"] sub_wf_doc [OF assms(1,2)] by simp
next
  case (VCodeWScope c d)
  then show ?thesis using appends_codeWScope [of d n c "[]"] sub_wf_doc [OF assms(1,2)] by simp
next
  case (VBinData t cs)
  then have "small cs"
    using assms(2) by (simp add: small_def BSONObjMaxInternalSize_def BSONObjMaxUserSize_def)
  then show ?thesis using VBinData appends_binData [of cs _ n t "[]"] by simp
next
  case (VBool x)
  then have "VBool (if x \<noteq> 0 then 1 else 0) = v" using assms(3) by auto
  then show ?thesis using VBool appends_scalars(4) [of n "x \<noteq> 0"] by simp
qed (use assms in \<open>simp_all add: appends_scalars appends_markers appends_strings appends_regex
      appends_oid appends_dbref\<close>)

lemma writes_append_pairs:
  assumes "\<And>k x. (k, x) \<in> set xs \<Longrightarrow> appends (\<lambda>b. f b k x) k (g x)"
  shows "writes (append_pairs f xs) (enc_elems (map (\<lambda>(k, x). (k, g x)) xs))"
  using assms
proof (induction xs)
  case Nil
  then show ?case using bob_sink.writes_return by (simp add: append_pairs.simps(1) [abs_def])
next
  case (Cons a xs)
  obtain k x where a: "a = (k, x)" by (cases a) auto
  have "append_pairs f (a # xs) = (\<lambda>b. rbind (f b k x) (append_pairs f xs))"
    by (rule ext) (simp add: a)
  moreover have "writes (\<lambda>b. f b k x) (enc_elem k (g x))"
    using Cons.prems a by (simp add: appends_def)
  ultimately show ?case
    using bob_sink.writes_bind Cons by (simp add: a enc_elems_Cons del: enc_elems.simps)
qed

lemma build_encode:
  assumes "wf_doc d" "\<forall>(n, v) \<in> set d. plain_bool v"
  shows "build d = Inr (encode d)"
proof -
  have "writes (append_pairs append_value d) (enc_elems (map (\<lambda>(k, x). (k, x)) d))"
    using assms enc_value_bound [OF assms(1)]
    by (intro writes_append_pairs appends_value) auto
  then have w: "writes (append_pairs append_value d) (enc_elems d)"
    by simp
  obtain b where b: "bob_new 512 = Inr b" "builds b []"
    using bob_new_builds by blast
  then obtain b' where "append_pairs append_value d b = Inr b'" "builds b' d"
    using writes_builds [OF w b(2)] assms(1) by auto
  then show ?thesis
    using b obj_builds assms(1) by (simp add: build_def)
qed


section \<open>Copying elements\<close>

lemma each_copy:
  assumes "elems_ok d"
    and "\<And>b n v m. (n, v) \<in> set d \<Longrightarrow> body b (enc_elem n v @ m) =
      (if P n then rmap Go (append_elem b (enc_elem n v @ m)) else Inr (Go b))"
  shows "\<exists>h. (\<forall>b. each body b (elem_ptrs d r) = rmap Go (h b)) \<and>
    writes h (enc_elems (filter (\<lambda>(n, v). P n) d))"
  using assms
proof (induction d)
  case Nil
  show ?case
    by (rule exI [of _ Inr]) (simp add: bob_sink.writes_return)
next
  case (Cons a d)
  obtain n v where a: "a = (n, v)" by (cases a) auto
  have "\<exists>h. (\<forall>b. each body b (elem_ptrs d r) = rmap Go (h b)) \<and>
      writes h (enc_elems (filter (\<lambda>(n, v). P n) d))"
    using Cons.prems a by (intro Cons.IH) auto
  then obtain h where h: "\<And>b. each body b (elem_ptrs d r) = rmap Go (h b)"
      "writes h (enc_elems (filter (\<lambda>(n, v). P n) d))"
    by blast
  let ?e = "enc_elem n v @ enc_elems d @ r"
  have body: "body b ?e = (if P n then rmap Go (append_elem b ?e) else Inr (Go b))" for b
    using Cons.prems(2) a by simp
  show ?case
  proof (cases "P n")
    case True
    let ?h = "\<lambda>b. rbind (append_elem b ?e) h"
    have "each body b (elem_ptrs (a # d) r) = rmap Go (?h b)" for b
      by (cases "append_elem b ?e") (simp_all add: a body True h(1))
    moreover have "writes ?h (enc_elem n v @ enc_elems (filter (\<lambda>(n, v). P n) d))"
      using bob_sink.writes_bind [OF _ h(2)] appends_elem [of n v] Cons.prems(1) a
      by (simp add: appends_def)
    ultimately show ?thesis
      using True by (auto simp: a enc_elems_Cons simp del: enc_elems.simps)
  next
    case False
    then have "each body b (elem_ptrs (a # d) r) = rmap Go (h b)" for b
      by (simp add: a body h(1))
    then show ?thesis
      using h(2) False by (auto simp: a)
  qed
qed

lemma appendElements_writes:
  assumes "wf_doc s"
  shows "writes (\<lambda>b. appendElements b (encode s @ r)) (enc_elems s)"
proof -
  let ?body = "\<lambda>b e. rbind (eoo e) (\<lambda>z. if z then Inr (Ret b) else rmap Go (append_elem b e))"
  obtain h where h: "\<And>b. each ?body b (elem_ptrs s (0 # r)) = rmap Go (h b)"
    "writes h (enc_elems (filter (\<lambda>(n, v). True) s))"
    using each_copy [OF wf_docD(4) [OF assms], of ?body "\<lambda>_. True" "0 # r"] by auto
  have "appendElements b (encode s @ r) = h b" for b
    using assms by (cases "h b") (simp_all add: appendElements_def each_append h(1))
  then show ?thesis
    using h(2) by (simp add: case_prod_beta')
qed

lemma removeField_enc:
  assumes "wf_doc d"
  shows "removeField (encode d @ r) name = Inr (encode (filter (\<lambda>(n, v). n \<noteq> name) d))"
proof -
  let ?d = "filter (\<lambda>(n, v). n \<noteq> name) d"
  let ?body = "(\<lambda>b e. rbind (field_is name e) (\<lambda>eq.
    if eq then Inr (Go b) else rmap Go (append_elem b e)))
      :: BSONObjBuilder \<Rightarrow> mem \<Rightarrow> (BSONObjBuilder, mem) flow res"
  have ok: "elems_ok d"
    using assms by (rule wf_docD(4))
  then have body: "?body b (enc_elem n v @ m) =
      (if n \<noteq> name then rmap Go (append_elem b (enc_elem n v @ m)) else Inr (Go b))"
    if "(n, v) \<in> set d" for b n v m
    using that by (auto simp: elems_ok_def)
  obtain h where h: "\<And>b. each ?body b (elem_ptrs d (0 # r)) = rmap Go (h b)"
    "writes h (enc_elems ?d)"
    using each_copy [OF ok body, where r = "0 # r"] by metis
  have "length (enc_elems ?d) \<le> length (enc_elems d)" "wf_elems d \<Longrightarrow> wf_elems ?d"
    by (induction d) auto
  then have wf: "wf_doc ?d"
    using assms by (auto simp: wf_doc_iff)
  obtain b where b: "bob_new 512 = Inr b" "builds b []"
    using bob_new_builds by blast
  obtain b' where "h b = Inr b'" "builds b' ?d"
    using writes_builds [OF h(2) b(2)] wf by auto
  then show ?thesis
    using assms b(1) obj_builds wf by (simp add: removeField_def h(1))
qed

section \<open>Arrays\<close>

definition indexed :: "nat \<Rightarrow> bval list \<Rightarrow> bdoc" where
  "indexed k vs = zip (map (\<lambda>i. numStr (int i)) [k..<k + length vs]) vs"

lemma nul_free_numStr [simp]: "nul_free (numStr k)"
  by (simp add: numStr_def dec_int_def)

lemma indexed_Nil [simp]: "indexed k [] = []"
  by (simp add: indexed_def)

lemma indexed_Cons [simp]: "indexed k (v # vs) = (numStr (int k), v) # indexed (Suc k) vs"
  by (simp add: indexed_def upt_rec)

lemma indexed_append: "indexed k (vs @ ws) = indexed k vs @ indexed (k + length vs) ws"
  by (induction vs arbitrary: k) auto

text \<open>An array builder that has appended the values \<open>vs\<close>.\<close>

definition bab_rep :: "BSONArrayBuilder \<Rightarrow> bval list \<Rightarrow> bool" where
  "bab_rep a vs = (bab_i a = length vs \<and> bob_rep (bab_b a) (indexed 0 vs))"

lemma bab_append_rep:
  assumes "bab_rep a vs" "\<And>n. appends (\<lambda>b. f b n) n v" "bab_append f a = Inr a'"
  shows "bab_rep a' (vs @ [v])"
proof -
  let ?n = "numStr (int (length vs))"
  obtain b' where b': "f (bab_b a) ?n = Inr b'" "a' = \<lparr>bab_i = length vs + 1, bab_b = b'\<rparr>"
    using assms(1,3) by (auto simp: bab_append_def bab_rep_def rmap_Inr_iff)
  have "bob_extended (bab_b a) (enc_elems [(?n, v)]) b'"
    using bob_sink.writes_Inr [OF assms(2) [unfolded appends_def] b'(1)]
    by (simp only: enc_elems_single)
  then have "bob_rep b' (indexed 0 vs @ [(?n, v)])"
    using rep_extended assms(1) by (auto simp: bab_rep_def)
  then show ?thesis
    using b'(2) by (simp add: bab_rep_def indexed_append)
qed

lemma bab_nulls_rep:
  "bab_rep a vs \<Longrightarrow> bab_nulls k a = Inr a' \<Longrightarrow> bab_rep a' (vs @ replicate k VNull)"
proof (induction k arbitrary: a vs)
  case (Suc k)
  obtain a1 where a1: "bab_append appendNull a = Inr a1" "bab_nulls k a1 = Inr a'"
    using Suc.prems(2) by (auto elim: rbind_InrE)
  have "bab_rep a1 (vs @ [VNull])"
    using bab_append_rep [OF Suc.prems(1) _ a1(1)] appends_markers(1) by blast
  from Suc.IH [OF this a1(2)] show ?case
    by simp
qed simp

section \<open>Nested builders\<close>

lemma nested_builder:
  assumes "length (bob_contents b) + length (enc_elem n v) \<le> BufferMaxSize" "enc_value v = encode d"
  obtains b1 sub where "bob_header b (vtype v) n = Inr b1" "bob_sub (bob_b b1) = Inr sub"
    "length (bob_contents sub) + length (enc_elems d) + 1 \<le> BufferMaxSize"
    "\<And>sub1. bob_extended sub (enc_elems d) sub1 \<Longrightarrow>
       \<exists>sub2. bob_done sub1 = Inr sub2 \<and> bob_bytes sub2 = encode d \<and>
         bob_extended b (enc_elem n v) (bob_return b1 sub2)"
proof -
  have l: "length (enc_elem n v) = length n + 2 + (length (enc_elems d) + 5)"
    by (simp add: length_enc_elem assms(2) length_encode)
  obtain b1 where b1: "bob_header b (vtype v) n = Inr b1" "bob_extended b (type_byte (vtype v) # n @ [0]) b1"
    using bob_sink.writes_room [OF writes_header [of "vtype v" n], of b] assms(1) l by auto
  then have c1: "bob_contents b1 = bob_contents b @ type_byte (vtype v) # n @ [0]"
    by (simp add: bob_extended_def)
  obtain sub where sub: "bob_sub (bob_b b1) = Inr sub" "bob_rep sub []"
    "bob_offset sub = length (bob_contents b1)" "take (bob_offset sub) (bob_contents sub) = bob_contents b1"
    using sub_builder_start [of b1] assms(1) l c1 by auto
  have room: "length (bob_contents sub) + length (enc_elems d) + 1 \<le> BufferMaxSize"
    using rep_length [OF sub(2)] sub(3) c1 assms(1) l by simp
  show ?thesis
  proof (rule that [OF b1(1) sub(1) room])
    fix sub1
    assume e: "bob_extended sub (enc_elems d) sub1"
    have r: "bob_rep sub1 d" using rep_extended [OF sub(2) e] by simp
    have o: "bob_offset sub1 = bob_offset sub" "bob_contents sub1 = bob_contents sub @ enc_elems d"
      using e by (simp_all add: bob_extended_def)
    have "length (bob_contents sub1) + 1 \<le> BufferMaxSize" using room o by simp
    from bob_done_rep [OF r this] obtain sub2 where s2: "bob_done sub1 = Inr sub2" "bob_bytes sub2 = encode d"
      "bob_contents sub2 = take (bob_offset sub1) (bob_contents sub1) @ encode d"
      by blast
    have "take (bob_offset sub1) (bob_contents sub1) = bob_contents b1"
      using o sub(4) rep_length [OF sub(2)] by simp
    then have "bob_extended b (enc_elem n v) (bob_return b1 sub2)"
      using s2(3) b1(2) c1 assms(2) by (simp add: bob_extended_def bob_return_def bob_contents_def enc_elem_def)
    with s2 show "\<exists>sub2. bob_done sub1 = Inr sub2 \<and> bob_bytes sub2 = encode d \<and>
         bob_extended b (enc_elem n v) (bob_return b1 sub2)" by blast
  qed
qed

lemma done_obj_bytes:
  assumes "bob_done sub1 = Inr sub2" "bob_bytes sub2 = encode d" "wf_doc d"
  shows "done_obj sub1 = Inr (encode d, sub2)"
  using assms bson_obj_encode [OF assms(3), of "[]"] by (simp add: done_obj_def)

end
