(* ===== verification/QueryOps.thy ===== *)
theory QueryOps
  imports BuilderRefine "HOL-Library.Sublist"
begin

text \<open>
  Operators in queries (\<open>db/jsobj.cpp\<close>): an element whose name starts with a dollar sign names an
  operator.  \<open>getGtLtOp\<close> recognises them by looking at one character after the other; the table of the
  operators is its specification.
\<close>

section \<open>Operators\<close>

datatype MatchType =
    Equality | LT | LTE | GTE | GT | opIN | NE | opSIZE | opALL | NIN | opEXISTS | opMOD | opTYPE
  | opREGEX | opOPTIONS | opELEM_MATCH | opNEAR | opWITHIN | opMAX_DISTANCE | opGEO_INTERSECTS

fun match_code :: "MatchType \<Rightarrow> int" where
  "match_code Equality = 0"
| "match_code LT = 0x1"
| "match_code LTE = 0x3"
| "match_code GTE = 0x6"
| "match_code GT = 0x4"
| "match_code opIN = 0x8"
| "match_code NE = 0x9"
| "match_code opSIZE = 0x0A"
| "match_code opALL = 0x0B"
| "match_code NIN = 0x0C"
| "match_code opEXISTS = 0x0D"
| "match_code opMOD = 0x0E"
| "match_code opTYPE = 0x0F"
| "match_code opREGEX = 0x10"
| "match_code opOPTIONS = 0x11"
| "match_code opELEM_MATCH = 0x12"
| "match_code opNEAR = 0x13"
| "match_code opWITHIN = 0x14"
| "match_code opMAX_DISTANCE = 0x15"
| "match_code opGEO_INTERSECTS = 0x16"

text \<open>
  \<open>p[k] == c0 && p[k+1] == c1 && ...\<close>, read from the left and left at the first difference, and the
  conditional on such a test.
\<close>

fun chars_at :: "mem \<Rightarrow> nat \<Rightarrow> byte list \<Rightarrow> bool res" where
  "chars_at p k [] = Inr True"
| "chars_at p k (c # cs) =
     rbind (ptr_add p k) (\<lambda>q. rbind (get8 q) (\<lambda>b. if b = c then chars_at p (k + 1) cs else Inr False))"

definition rif :: "bool res \<Rightarrow> 'a res \<Rightarrow> 'a res \<Rightarrow> 'a res" where
  "rif c t e = rbind c (\<lambda>b. if b then t else e)"

definition name_equals :: "mem \<Rightarrow> nat \<Rightarrow> byte list \<Rightarrow> bool res" where
  "name_equals p k s = rbind (ptr_add p k) (\<lambda>q. rmap (\<lambda>c. c = 0) (strcmp q (s @ [0])))"

definition gtlt_chars :: "mem \<Rightarrow> MatchType option res" where
  "gtlt_chars fn =
     rif (chars_at fn 0 (bs ''$'')) (rif (chars_at fn 1 [0]) (Inr None)
       (rif (chars_at fn 2 (bs ''t''))
          (rif (chars_at fn 1 (bs ''g''))
             (rif (chars_at fn 3 [0]) (Inr (Some GT))
                (rif (chars_at fn 3 (bs ''e'' @ [0])) (Inr (Some GTE)) (Inr None)))
          (rif (chars_at fn 1 (bs ''l''))
             (rif (chars_at fn 3 [0]) (Inr (Some LT))
                (rif (chars_at fn 3 (bs ''e'' @ [0])) (Inr (Some LTE)) (Inr None)))
           (Inr None)))
       (rif (chars_at fn 1 (bs ''ne''))
          (rif (chars_at fn 3 [0]) (Inr (Some NE))
             (rif (chars_at fn 3 (bs ''ar'')) (Inr (Some opNEAR)) (Inr None)))
       (rif (chars_at fn 1 (bs ''m''))
          (rif (chars_at fn 2 (bs ''od'' @ [0])) (Inr (Some opMOD))
             (rif (chars_at fn 2 (bs ''axDistance'' @ [0])) (Inr (Some opMAX_DISTANCE)) (Inr None)))
       (rif (chars_at fn 1 (bs ''type'' @ [0])) (Inr (Some opTYPE))
       (rif (chars_at fn 1 (bs ''in'' @ [0])) (Inr (Some opIN))
       (rif (chars_at fn 1 (bs ''nin'' @ [0])) (Inr (Some NIN))
       (rif (chars_at fn 1 (bs ''all'' @ [0])) (Inr (Some opALL))
       (rif (chars_at fn 1 (bs ''size'' @ [0])) (Inr (Some opSIZE))
       (rif (chars_at fn 1 (bs ''e''))
          (rif (chars_at fn 2 (bs ''xists'' @ [0])) (Inr (Some opEXISTS))
             (rif (chars_at fn 2 (bs ''lemMatch'' @ [0])) (Inr (Some opELEM_MATCH)) (Inr None)))
       (rif (chars_at fn 1 (bs ''regex'' @ [0])) (Inr (Some opREGEX))
       (rif (chars_at fn 1 (bs ''options'' @ [0])) (Inr (Some opOPTIONS))
       (rif (chars_at fn 1 (bs ''within'' @ [0])) (Inr (Some opWITHIN))
       (rif (name_equals fn 1 (bs ''geoIntersects'')) (Inr (Some opGEO_INTERSECTS))
       (rif (name_equals fn 1 (bs ''geoNear'')) (Inr (Some opNEAR))
       (rif (name_equals fn 1 (bs ''geoWithin'')) (Inr (Some opWITHIN))
        (Inr None)))))))))))))))))
     (Inr None)"

definition elem_getGtLtOp :: "mem \<Rightarrow> int \<Rightarrow> int res" where
  "elem_getGtLtOp e d =
     rbind (fieldName e) (\<lambda>fn. rmap (\<lambda>t. case t of Some m \<Rightarrow> match_code m | None \<Rightarrow> d) (gtlt_chars fn))"

definition getGtLtOp :: "mem \<Rightarrow> int res" where
  "getGtLtOp e =
     rbind (elem_type e) (\<lambda>t.
       if t \<noteq> Object then Inr (match_code Equality)
       else rbind (embeddedObject e) (\<lambda>ob. rbind (firstElement ob) (\<lambda>fe. elem_getGtLtOp fe 0)))"

definition appendElementHandlingGtLt :: "BSONObjBuilder \<Rightarrow> mem \<Rightarrow> BSONObjBuilder res" where
  "appendElementHandlingGtLt b e =
     rbind (elem_type e) (\<lambda>t.
       if t = Object
       then rbind (embeddedObject e) (\<lambda>ob. rbind (firstElement ob) (\<lambda>fe. rbind (fieldName fe) (\<lambda>fn.
         rif (chars_at fn 0 (bs ''$''))
           (rif (chars_at fn 1 [0]) (append_elem b e)
             (rif (chars_at fn 2 (bs ''t''))
               (rbind (fieldName e) (\<lambda>p. rbind (cstr p) (appendAs b fe)))
               (append_elem b e)))
           (append_elem b e))))
       else append_elem b e)"

section \<open>The table of operators\<close>

definition operator_table :: "(byte list \<times> MatchType) list" where
  "operator_table =
     [(bs ''gt'', GT), (bs ''gte'', GTE), (bs ''lt'', LT), (bs ''lte'', LTE), (bs ''ne'', NE),
      (bs ''mod'', opMOD), (bs ''maxDistance'', opMAX_DISTANCE), (bs ''type'', opTYPE), (bs ''in'', opIN),
      (bs ''nin'', NIN), (bs ''all'', opALL), (bs ''size'', opSIZE), (bs ''exists'', opEXISTS),
      (bs ''elemMatch'', opELEM_MATCH), (bs ''regex'', opREGEX), (bs ''options'', opOPTIONS),
      (bs ''within'', opWITHIN), (bs ''geoIntersects'', opGEO_INTERSECTS), (bs ''geoNear'', opNEAR),
      (bs ''geoWithin'', opWITHIN)]"

definition operator_of :: "byte list \<Rightarrow> MatchType option" where
  "operator_of name =
     (case name of
        [] \<Rightarrow> None
      | c # rest \<Rightarrow>
          if c \<noteq> 36 then None
          else if prefix (bs ''near'') rest then Some opNEAR
          else map_of operator_table rest)"

lemma rif_simps [simp]:
  "rif (Inr True) t e = t" "rif (Inr False) t e = e" "rif (Inl x) t e = Inl x"
  by (simp_all add: rif_def)

lemma rif_Inr: "rif (Inr b) t e = (if b then t else e)"
  by simp

lemma chars_at_prefix:
  "nul_free cs \<Longrightarrow> k \<le> length name \<Longrightarrow> chars_at (name @ 0 # m) k cs = Inr (prefix cs (drop k name))"
proof (induction cs arbitrary: k)
  case (Cons c cs)
  show ?case
  proof (cases "k = length name")
    case True
    then show ?thesis using Cons.prems by (auto simp: ptr_add_def)
  next
    case False
    then have k: "k < length name" using Cons.prems(2) by simp
    then have "drop k name = name ! k # drop (Suc k) name" by (simp add: Cons_nth_drop_Suc)
    then show ?thesis using Cons k by (auto simp: ptr_add_def)
  qed
qed simp

lemma chars_at_end:
  "nul_free name \<Longrightarrow> nul_free cs \<Longrightarrow> k \<le> length name \<Longrightarrow>
   chars_at (name @ 0 # m) k (cs @ [0]) = Inr (drop k name = cs)"
proof (induction cs arbitrary: k)
  case Nil
  show ?case
  proof (cases "k = length name")
    case False
    then have k: "k < length name" using Nil by simp
    then have d: "drop k name = name ! k # drop (Suc k) name" by (simp add: Cons_nth_drop_Suc)
    have "name ! k \<noteq> 0" using nth_mem [OF k] Nil.prems(1) by (auto simp: nul_free_def)
    then show ?thesis using Nil k by (simp add: ptr_add_def d)
  qed (simp add: ptr_add_def)
next
  case (Cons c cs)
  show ?case
  proof (cases "k = length name")
    case True
    then show ?thesis using Cons.prems by (auto simp: ptr_add_def)
  next
    case False
    then have k: "k < length name" using Cons.prems(3) by simp
    then have "drop k name = name ! k # drop (Suc k) name" by (simp add: Cons_nth_drop_Suc)
    then show ?thesis using Cons k by (auto simp: ptr_add_def)
  qed
qed

lemma name_equals_iff:
  assumes "nul_free name" "nul_free s" "k \<le> length name"
  shows "name_equals (name @ 0 # m) k s = Inr (drop k name = s)"
proof -
  have "nul_free (drop k name)" using assms(1) by (auto simp: nul_free_def dest: in_set_dropD)
  then have "strcmp (drop k name @ 0 # m) (s @ [0]) = Inr (bytes_cmp (drop k name) s)"
    using assms(2) by (rule strcmp_nul)
  then show ?thesis using assms(3) by (simp add: name_equals_def ptr_add_def)
qed

lemma chars_at_nul:
  "nul_free name \<Longrightarrow> k \<le> length name \<Longrightarrow> chars_at (name @ 0 # m) k [0] = Inr (drop k name = [])"
  using chars_at_end [of name "[]" k m] by (simp only: nul_free_simps append_Nil simp_thms)

lemma nul_free_literals:
  "nul_free (bs ''$'')" "nul_free (bs ''t'')" "nul_free (bs ''g'')" "nul_free (bs ''e'')" "nul_free (bs ''l'')"
  "nul_free (bs ''ne'')" "nul_free (bs ''ar'')" "nul_free (bs ''m'')" "nul_free (bs ''od'')"
  "nul_free (bs ''axDistance'')" "nul_free (bs ''type'')" "nul_free (bs ''in'')" "nul_free (bs ''nin'')"
  "nul_free (bs ''all'')" "nul_free (bs ''size'')" "nul_free (bs ''xists'')" "nul_free (bs ''lemMatch'')"
  "nul_free (bs ''regex'')" "nul_free (bs ''options'')" "nul_free (bs ''within'')"
  "nul_free (bs ''geoIntersects'')" "nul_free (bs ''geoNear'')" "nul_free (bs ''geoWithin'')"
  by simp_all

lemma gtlt_table:
  "(if c0 = 36 then
    if c2 = 116 then
      (if c1 = 103 then (if t = [] then Some GT else if t = bs ''e'' then Some GTE else None)
       else if c1 = 108 then (if t = [] then Some LT else if t = bs ''e'' then Some LTE else None)
       else None)
    else if prefix (bs ''ne'') (c1 # c2 # t) then
      (if t = [] then Some NE else if prefix (bs ''ar'') t then Some opNEAR else None)
    else if c1 = 109 then
      (if c2 # t = bs ''od'' then Some opMOD else if c2 # t = bs ''axDistance'' then Some opMAX_DISTANCE else None)
    else if c1 # c2 # t = bs ''type'' then Some opTYPE
    else if c1 # c2 # t = bs ''in'' then Some opIN
    else if c1 # c2 # t = bs ''nin'' then Some NIN
    else if c1 # c2 # t = bs ''all'' then Some opALL
    else if c1 # c2 # t = bs ''size'' then Some opSIZE
    else if c1 = 101 then
      (if c2 # t = bs ''xists'' then Some opEXISTS else if c2 # t = bs ''lemMatch'' then Some opELEM_MATCH else None)
    else if c1 # c2 # t = bs ''regex'' then Some opREGEX
    else if c1 # c2 # t = bs ''options'' then Some opOPTIONS
    else if c1 # c2 # t = bs ''within'' then Some opWITHIN
    else if c1 # c2 # t = bs ''geoIntersects'' then Some opGEO_INTERSECTS
    else if c1 # c2 # t = bs ''geoNear'' then Some opNEAR
    else if c1 # c2 # t = bs ''geoWithin'' then Some opWITHIN
    else None
    else None) = operator_of (c0 # c1 # c2 # t)"
proof -
  consider (g) "c1 = 103" | (l) "c1 = 108" | (n) "c1 = 110" | (m) "c1 = 109" | (t) "c1 = 116" | (i) "c1 = 105" | (a) "c1 = 97" | (s) "c1 = 115" | (e) "c1 = 101" | (r) "c1 = 114" | (o) "c1 = 111" | (w) "c1 = 119"
    | (other) "c1 \<noteq> 103" "c1 \<noteq> 108" "c1 \<noteq> 110" "c1 \<noteq> 109" "c1 \<noteq> 116" "c1 \<noteq> 105" "c1 \<noteq> 97" "c1 \<noteq> 115" "c1 \<noteq> 101" "c1 \<noteq> 114" "c1 \<noteq> 111" "c1 \<noteq> 119"
    by blast
  then show ?thesis
    by cases (simp_all add: operator_of_def operator_table_def)
qed

lemma gtlt_long:
  assumes "nul_free name" "3 \<le> length name"
  shows "gtlt_chars (name @ 0 # m) = Inr (operator_of name)"
proof -
  obtain c0 c1 c2 t where name: "name = c0 # c1 # c2 # t"
    using assms(2) by (auto simp: Suc_le_length_iff numeral_3_eq_3)
  have le: "0 \<le> length name" "1 \<le> length name" "2 \<le> length name" "3 \<le> length name" using assms(2) by simp_all
  have drop: "drop 0 name = c0 # c1 # c2 # t" "drop 1 name = c1 # c2 # t" "drop 2 name = c2 # t" "drop 3 name = t"
    by (simp_all add: name numeral_3_eq_3)
  note pre = le [THEN chars_at_prefix [rotated], unfolded drop]
    and fin = le [THEN chars_at_end [OF assms(1), rotated], unfolded drop]
    and nul = le [THEN chars_at_nul [OF assms(1)], unfolded drop]
    and eqs = le [THEN name_equals_iff [OF assms(1), rotated], unfolded drop]
  let ?r = "if c2 = 116 then
      (if c1 = 103 then (if t = [] then Some GT else if t = bs ''e'' then Some GTE else None)
       else if c1 = 108 then (if t = [] then Some LT else if t = bs ''e'' then Some LTE else None)
       else None)
    else if prefix (bs ''ne'') (c1 # c2 # t) then
      (if t = [] then Some NE else if prefix (bs ''ar'') t then Some opNEAR else None)
    else if c1 = 109 then
      (if c2 # t = bs ''od'' then Some opMOD else if c2 # t = bs ''axDistance'' then Some opMAX_DISTANCE else None)
    else if c1 # c2 # t = bs ''type'' then Some opTYPE
    else if c1 # c2 # t = bs ''in'' then Some opIN
    else if c1 # c2 # t = bs ''nin'' then Some NIN
    else if c1 # c2 # t = bs ''all'' then Some opALL
    else if c1 # c2 # t = bs ''size'' then Some opSIZE
    else if c1 = 101 then
      (if c2 # t = bs ''xists'' then Some opEXISTS else if c2 # t = bs ''lemMatch'' then Some opELEM_MATCH else None)
    else if c1 # c2 # t = bs ''regex'' then Some opREGEX
    else if c1 # c2 # t = bs ''options'' then Some opOPTIONS
    else if c1 # c2 # t = bs ''within'' then Some opWITHIN
    else if c1 # c2 # t = bs ''geoIntersects'' then Some opGEO_INTERSECTS
    else if c1 # c2 # t = bs ''geoNear'' then Some opNEAR
    else if c1 # c2 # t = bs ''geoWithin'' then Some opWITHIN
    else None"
  have one: "prefix (bs ''$'') (c # x) = (c = 36)" "prefix (bs ''t'') (c # x) = (c = 116)"
    "prefix (bs ''g'') (c # x) = (c = 103)" "prefix (bs ''l'') (c # x) = (c = 108)"
    "prefix (bs ''m'') (c # x) = (c = 109)" "prefix (bs ''e'') (c # x) = (c = 101)" for c x
    by auto
  have "gtlt_chars (name @ 0 # m) = Inr (if c0 = 36 then ?r else None)"
    unfolding gtlt_chars_def
    by (simp only: nul pre fin eqs nul_free_literals rif_Inr one list.distinct if_False if_distrib [of Inr])
  also have "(if c0 = 36 then ?r else None) = operator_of name"
    unfolding name by (rule gtlt_table)
  finally show ?thesis .
qed

lemma gtlt_short:
  assumes "nul_free name" "length name < 3"
  shows "gtlt_chars (name @ 0 # m) = Inr (operator_of name)"
proof -
  consider (a) "name = []" | (b) c0 where "name = [c0]" | (c) c0 c1 where "name = [c0, c1]"
    using assms(2) by (cases name; cases "tl name") (auto simp: less_Suc_eq numeral_3_eq_3)
  then show ?thesis
  proof cases
    case (c c0 c1)
    have "c1 \<noteq> 0" using assms(1) c by simp
    then show ?thesis
      using c by (simp add: gtlt_chars_def operator_of_def operator_table_def ptr_add_def rif_def name_equals_def)
  qed (simp_all add: gtlt_chars_def operator_of_def operator_table_def ptr_add_def rif_def)
qed

lemma gtlt_chars_table: "nul_free name \<Longrightarrow> gtlt_chars (name @ 0 # m) = Inr (operator_of name)"
  using gtlt_short [of name m] gtlt_long [of name m] by (cases "length name < 3") simp_all

definition operator_code :: "byte list \<Rightarrow> int" where
  "operator_code name = (case operator_of name of Some m \<Rightarrow> match_code m | None \<Rightarrow> 0)"

lemma elem_getGtLtOp_enc:
  "elem_ok n v \<Longrightarrow> elem_getGtLtOp (enc_elem n v @ t) d =
     Inr (case operator_of n of Some m \<Rightarrow> match_code m | None \<Rightarrow> d)"
  using elem_okD(1) [of n v] by (simp add: elem_getGtLtOp_def gtlt_chars_table)

lemma firstElement_enc:
  "firstElement (encode d @ r) = Inr (case d of [] \<Rightarrow> 0 # r | (n, v) # d' \<Rightarrow> enc_elem n v @ enc_elems d' @ 0 # r)"
  using drop_encode [of d r]
  by (auto simp: firstElement_def ptr_add_def length_encode enc_elems_Cons simp del: enc_elems.simps(2) split: list.splits)

text \<open>The operator of a query element: that of the first name of its value, when the value is an object.\<close>

fun query_operator :: "bval \<Rightarrow> int" where
  "query_operator (VObject ((n, _) # _)) = operator_code n"
| "query_operator _ = 0"

lemma getGtLtOp_enc:
  assumes "elem_ok n v" "length (enc_value v) \<le> BSONObjMaxInternalSize"
  shows "getGtLtOp (enc_elem n v @ t) = Inr (query_operator v)"
proof (cases "\<exists>d. v = VObject d")
  case True
  then obtain d where v: "v = VObject d" by blast
  have wf: "wf_doc d" using assms v wf_doc_sub by blast
  have e: "embeddedObject (enc_elem n v @ t) = Inr (encode d @ t)"
    using assms(1) wf v by (intro embeddedObject_enc) auto
  show ?thesis
  proof (cases d)
    case Nil
    then show ?thesis
      using e v gtlt_chars_table [of "[]" "[]"]
      by (simp add: getGtLtOp_def firstElement_enc elem_getGtLtOp_def fieldName_def operator_of_def)
  next
    case (Cons a d')
    obtain k w where a: "a = (k, w)" by (cases a) auto
    then have "elem_ok k w" using wf_docD(4) [OF wf] Cons by simp
    then show ?thesis
      using e v elem_getGtLtOp_enc [of k w _ 0]
      by (simp add: getGtLtOp_def firstElement_enc Cons a operator_code_def)
  qed
next
  case False
  then have "vtype v \<noteq> Object" "query_operator v = 0" by (cases v; simp)+
  then show ?thesis by (simp add: getGtLtOp_def)
qed

lemma appendElementHandlingGtLt_enc:
  assumes "elem_ok n v" "length (enc_value v) \<le> BSONObjMaxInternalSize"
  shows "writes (\<lambda>b. appendElementHandlingGtLt b (enc_elem n v @ t))
    (enc_elem n (case v of VObject ((k, w) # _) \<Rightarrow>
        if (\<exists>c x. k = 36 # c # 116 # x) then w else v | _ \<Rightarrow> v))"
proof (cases "\<exists>d. v = VObject d")
  case True
  then obtain d where v: "v = VObject d" by blast
  have wf: "wf_doc d" using assms v wf_doc_sub by blast
  have e: "embeddedObject (enc_elem n v @ t) = Inr (encode d @ t)"
    using assms(1) wf v by (intro embeddedObject_enc) auto
  have plain: "writes (\<lambda>b. append_elem b (enc_elem n v @ t)) (enc_elem n v)"
    using appends_elem [OF assms(1)] by (simp add: appends_def)
  show ?thesis
  proof (cases d)
    case Nil
    have "appendElementHandlingGtLt b (enc_elem n v @ t) = append_elem b (enc_elem n v @ t)" for b
      using e v by (simp add: appendElementHandlingGtLt_def firstElement_enc Nil fieldName_def ptr_add_def)
    then show ?thesis using plain v Nil by simp
  next
    case (Cons a d')
    obtain k w where a: "a = (k, w)" by (cases a) auto
    then have ok: "elem_ok k w" using wf_docD(4) [OF wf] Cons by simp
    have nf: "nul_free k" using elem_okD(1) [OF ok] .
    let ?P = "\<exists>c x. k = 36 # c # 116 # x"
    let ?fe = "enc_elem k w @ enc_elems d' @ 0 # t"
    have "appendElementHandlingGtLt b (enc_elem n v @ t) =
        (if ?P then appendAs b ?fe n else append_elem b (enc_elem n v @ t))" for b
    proof -
      have c0: "chars_at (k @ 0 # x) 0 (bs ''$'') = Inr (prefix (bs ''$'') k)" for x
        using chars_at_prefix [of "bs ''$''" 0 k x] by (simp del: chars_at.simps)
      have c1: "chars_at (k @ 0 # x) 1 [0] = Inr (drop 1 k = [])" if "1 \<le> length k" for x
        using nf that by (rule chars_at_nul)
      have c2: "chars_at (k @ 0 # x) 2 (bs ''t'') = Inr (prefix (bs ''t'') (drop 2 k))" if "2 \<le> length k" for x
        using nul_free_literals(2) that by (rule chars_at_prefix)
      have name: "rbind (fieldName (enc_elem n v @ t)) (\<lambda>p. rbind (cstr p) f) = f n" for f :: "_ \<Rightarrow> BSONObjBuilder res"
        using elem_okD(1) [OF assms(1)] by (simp add: cstr_nul)
      consider (dollar) "k = []" | (other) c x where "k = c # x" "c \<noteq> 36" | (only) "k = [36]"
        | (two) c where "k = [36, c]" | (more) c y x where "k = 36 # c # y # x"
        by (metis list.exhaust)
      then show ?thesis
        by cases (use e v c0 c1 c2 name in \<open>simp_all add: appendElementHandlingGtLt_def firstElement_enc Cons a rif_def del: chars_at.simps\<close>)
    qed
    moreover have "writes (\<lambda>b. appendAs b ?fe n) (enc_elem n w)"
      using appends_as [OF ok] by (simp add: appends_def)
    ultimately show ?thesis using plain v Cons a by auto
  qed
next
  case False
  then have "vtype v \<noteq> Object" by (cases v; simp)
  moreover have "(case v of VObject ((k, w) # _) \<Rightarrow> if (\<exists>c x. k = 36 # c # 116 # x) then w else v | _ \<Rightarrow> v) = v"
    using False by (cases v) auto
  ultimately show ?thesis
    using appends_elem [OF assms(1)] by (simp add: appendElementHandlingGtLt_def appends_def)
qed

section \<open>Properties\<close>

text \<open>
  C40: The character tests of \<open>getGtLtOp\<close> are the table of operators: for every name, the result is the
  operator the table gives for what follows the dollar sign, \<open>$near\<close> with anything after it
  included, and the default otherwise; no character after the end of the name is read.
\<close>

theorem getGtLtOp_table:
  assumes "nul_free name" "b \<noteq> 0"
  shows "elem_getGtLtOp (b # name @ 0 # m) d =
    Inr (case operator_of name of Some mt \<Rightarrow> match_code mt | None \<Rightarrow> d)"
proof -
  have "type_of_code n = EOO \<longleftrightarrow> n = 0" for n
    using type_code_of_code [of n] by (auto simp: type_of_code_def)
  moreover have "sint b \<noteq> 0" using assms(2) signed_word_eqI [of b 0] by auto
  ultimately have "fieldName (b # name @ 0 # m) = Inr (name @ 0 # m)"
    using assms(2) by (simp add: fieldName_def eoo_def elem_type_def ptr_add_def)
  then show ?thesis using assms(1) by (simp add: elem_getGtLtOp_def gtlt_chars_table)
qed

theorem getGtLtOp_table_witness:
  "elem_getGtLtOp (16 # bs ''$nearSphere'' @ 0 # [1, 0, 0, 0]) 0 = Inr (match_code opNEAR)"
  using getGtLtOp_table [of "bs ''$nearSphere''" 16 "[1, 0, 0, 0]" 0]
  by (simp add: operator_of_def del: match_code.simps)

end
