(* ===== verification/Compare.thy ===== *)
theory Compare
  imports ObjRefine
begin

text \<open>
  The comparison of elements and objects: \<open>compareElementValues\<close>, \<open>BSONElement::woCompare\<close> and
  \<open>BSONObj::equal\<close> (\<open>bson/bson-inl.h\<close>), the two \<open>BSONObj::woCompare\<close>, \<open>woSortOrder\<close> and the prefix
  tests (\<open>db/jsobj.cpp\<close>), and \<open>Ordering\<close> (\<open>bson/ordering.h\<close>).

  Element and object comparison call each other.  The element comparison is written over the object
  comparison it calls, and the knot is tied by fuel that counts the nesting of objects: an embedded
  object lies strictly inside the memory of its element, so nesting deeper than the number of bytes
  does not occur.  The loops over two iterators have as much fuel as there are pairs of positions.
\<close>

section \<open>Elements\<close>

definition sub_sizes :: "32 word \<Rightarrow> 32 word \<Rightarrow> int" where
  "sub_sizes l r = sint (l - r)"

text \<open>\<open>memcmp\<close> with a length that was computed as an \<open>int\<close>.\<close>

definition memcmp_int :: "mem \<Rightarrow> mem \<Rightarrow> 32 word \<Rightarrow> int res" where
  "memcmp_int l r n = (if sint n < 0 then Inl BadRead else memcmp l r (nat (sint n)))"

definition compare_doubles :: "64 word \<Rightarrow> 64 word \<Rightarrow> int" where
  "compare_doubles left right =
     (if d_lt left right then -1
      else if d_eq left right then 0
      else if is_NaN left then (if is_NaN right then 0 else -1)
      else 1)"

definition compare_number :: "mem \<Rightarrow> mem \<Rightarrow> int res" where
  "compare_number l r =
     rbind (numberDouble l) (\<lambda>left. rbind (numberDouble r) (\<lambda>right.
       Inr (compare_doubles left right)))"

definition compareElementValues_with ::
  "(mem \<Rightarrow> mem \<Rightarrow> int res) \<Rightarrow> mem \<Rightarrow> mem \<Rightarrow> int res" where
  "compareElementValues_with obj_cmp l r =
     rbind (elem_type l) (\<lambda>t.
       let marker = rbind (canonicalType l) (\<lambda>cl. rbind (canonicalType r) (\<lambda>cr.
             Inr (if cl - cr < 0 then -1 else if cl - cr = 0 then 0 else 1)));
           strings = rbind (valuestrsize l) (\<lambda>lsz. rbind (valuestrsize r) (\<lambda>rsz.
             rbind (valuestr l) (\<lambda>ls. rbind (valuestr r) (\<lambda>rs.
               rbind (memcmp_int ls rs (if sint rsz < sint lsz then rsz else lsz)) (\<lambda>c.
                 Inr (if c \<noteq> 0 then c else sub_sizes lsz rsz))))));
           objects = rbind (embeddedObject l) (\<lambda>lo. rbind (embeddedObject r) (obj_cmp lo))
       in case t of
         EOO \<Rightarrow> marker
       | Undefined \<Rightarrow> marker
       | jstNULL \<Rightarrow> marker
       | MaxKey \<Rightarrow> marker
       | MinKey \<Rightarrow> marker
       | Bool \<Rightarrow>
           rbind (elem_value l) (\<lambda>lv. rbind (elem_value r) (\<lambda>rv.
             rbind (get8 lv) (\<lambda>a. rbind (get8 rv) (\<lambda>b. Inr (sint a - sint b)))))
       | Timestamp \<Rightarrow>
           rbind (date l) (\<lambda>a. rbind (date r) (\<lambda>b.
             Inr (if uint a < uint b then -1 else if a = b then 0 else 1)))
       | Date \<Rightarrow>
           rbind (Date_checked l) (\<lambda>a. rbind (Date_checked r) (\<lambda>b.
             Inr (if sint a < sint b then -1 else if a = b then 0 else 1)))
       | NumberLong \<Rightarrow>
           rbind (elem_type r) (\<lambda>rt.
             if rt = NumberLong
             then rbind (numberLong_raw l) (\<lambda>a. rbind (numberLong_raw r) (\<lambda>b.
               Inr (if sint a < sint b then -1 else if a = b then 0 else 1)))
             else compare_number l r)
       | NumberInt \<Rightarrow>
           rbind (elem_type r) (\<lambda>rt.
             if rt = NumberInt
             then rbind (numberInt_raw l) (\<lambda>a. rbind (numberInt_raw r) (\<lambda>b.
               Inr (if sint a < sint b then -1 else if a = b then 0 else 1)))
             else compare_number l r)
       | NumberDouble \<Rightarrow> compare_number l r
       | jstOID \<Rightarrow> rbind (elem_value l) (\<lambda>lv. rbind (elem_value r) (\<lambda>rv. memcmp lv rv 12))
       | Code \<Rightarrow> strings
       | Symbol \<Rightarrow> strings
       | String \<Rightarrow> strings
       | Object \<Rightarrow> objects
       | Array \<Rightarrow> objects
       | DBRef \<Rightarrow>
           rbind (valuesize l) (\<lambda>lsz. rbind (valuesize r) (\<lambda>rsz.
             if lsz - rsz \<noteq> 0 then Inr (sub_sizes lsz rsz)
             else rbind (elem_value l) (\<lambda>lv. rbind (elem_value r) (\<lambda>rv. memcmp_int lv rv lsz))))
       | BinData \<Rightarrow>
           rbind (elem_objsize l) (\<lambda>lsz. rbind (elem_objsize r) (\<lambda>rsz.
             if lsz - rsz \<noteq> 0 then Inr (sub_sizes lsz rsz)
             else rbind (elem_value l) (\<lambda>lv. rbind (elem_value r) (\<lambda>rv.
               rbind (ptr_add lv 4) (\<lambda>lv. rbind (ptr_add rv 4) (\<lambda>rv. memcmp_int lv rv (lsz + 1)))))))
       | RegEx \<Rightarrow>
           rbind (elem_regex l) (\<lambda>lp. rbind (elem_regex r) (\<lambda>rp. rbind (strcmp lp rp) (\<lambda>c.
             if c \<noteq> 0 then Inr c
             else rbind (elem_regexFlags l) (\<lambda>lf. rbind (elem_regexFlags r) (strcmp lf)))))
       | CodeWScope \<Rightarrow>
           rbind (canonicalType l) (\<lambda>cl. rbind (canonicalType r) (\<lambda>cr.
             if cl - cr \<noteq> 0 then Inr (cl - cr)
             else rbind (codeWScopeCode l) (\<lambda>lc. rbind (codeWScopeCode r) (\<lambda>rc.
               rbind (strcmp lc rc) (\<lambda>c.
                 if c \<noteq> 0 then Inr c
                 else rbind (codeWScopeScopeDataUnsafe l) (\<lambda>ls.
                   rbind (codeWScopeScopeDataUnsafe r) (strcmp ls)))))))
       | BadType n \<Rightarrow> Inl VerifyFailed)"

definition elem_woCompare_with ::
  "(mem \<Rightarrow> mem \<Rightarrow> int res) \<Rightarrow> bool \<Rightarrow> mem \<Rightarrow> mem \<Rightarrow> int res" where
  "elem_woCompare_with values considerFieldName l r =
     rbind (canonicalType l) (\<lambda>lt. rbind (canonicalType r) (\<lambda>rt.
       rbind (isNumber l) (\<lambda>ln. rbind (isNumber r) (\<lambda>rn.
         if lt - rt \<noteq> 0 \<and> (\<not> ln \<or> \<not> rn) then Inr (lt - rt)
         else rbind
           (if considerFieldName
            then rbind (fieldName l) (\<lambda>lp. rbind (fieldName r) (strcmp lp))
            else Inr 0)
           (\<lambda>x. if x \<noteq> 0 then Inr x else values l r)))))"

section \<open>Objects\<close>

text \<open>\<open>while (1) { l = i.next(); r = j.next(); ... }\<close>\<close>

fun loop2 ::
  "nat \<Rightarrow> bson_iter \<Rightarrow> bson_iter \<Rightarrow> ('s \<Rightarrow> mem \<Rightarrow> mem \<Rightarrow> ('s, 'r) flow res) \<Rightarrow> 's \<Rightarrow> 'r res" where
  "loop2 0 i j body s = Inl NoReturn"
| "loop2 (Suc k) i j body s =
     rbind (next_elem i) (\<lambda>(l, i'). rbind (next_elem j) (\<lambda>(r, j').
       rbind (body s l r) (\<lambda>f.
         case f of Ret x \<Rightarrow> Inr x | Go s' \<Rightarrow> loop2 k i' j' body s')))"

text \<open>The step the two object comparisons share, after the ends have been handled.\<close>

definition compare_step ::
  "(mem \<Rightarrow> mem \<Rightarrow> int res) \<Rightarrow> bool res \<Rightarrow> 's \<Rightarrow> mem \<Rightarrow> mem \<Rightarrow> ('s, int) flow res" where
  "compare_step elem_cmp descending s l r =
     rbind (eoo l) (\<lambda>le. rbind (eoo r) (\<lambda>re.
       if le then Inr (Ret (if re then 0 else -1))
       else if re then Inr (Ret 1)
       else rbind (elem_cmp l r) (\<lambda>x. rbind descending (\<lambda>desc.
         let x = (if desc then - x else x) in
         Inr (if x \<noteq> 0 then Ret x else Go s)))))"

definition obj_woCompare_with ::
  "(mem \<Rightarrow> mem \<Rightarrow> int res) \<Rightarrow> mem \<Rightarrow> mem \<Rightarrow> mem \<Rightarrow> int res" where
  "obj_woCompare_with elem_cmp idxKey a b =
     rbind (isEmpty a) (\<lambda>ae. rbind (isEmpty b) (\<lambda>be.
       if ae then Inr (if be then 0 else -1)
       else if be then Inr 1
       else rbind (isEmpty idxKey) (\<lambda>ke.
         rbind (iter_of a) (\<lambda>i. rbind (iter_of b) (\<lambda>j. rbind (iter_of idxKey) (\<lambda>k.
           loop2 (it_fuel i * it_fuel j * it_fuel k) i j
             (\<lambda>k l r.
               rbind (if ke then Inr (eooElement, k) else next_elem k) (\<lambda>(ko, k').
                 compare_step elem_cmp
                   (if ke then Inr False else rmap (\<lambda>d. d_lt d 0) (numberDouble ko)) k' l r))
             k))))))"

fun cev_fuel :: "nat \<Rightarrow> mem \<Rightarrow> mem \<Rightarrow> int res" where
  "cev_fuel 0 l r = Inl NoReturn"
| "cev_fuel (Suc k) l r =
     compareElementValues_with
       (obj_woCompare_with (elem_woCompare_with (cev_fuel k) True) emptyObj) l r"

definition compareElementValues :: "mem \<Rightarrow> mem \<Rightarrow> int res" where
  "compareElementValues l r = cev_fuel (length l + 1) l r"

definition elem_woCompare :: "mem \<Rightarrow> mem \<Rightarrow> bool \<Rightarrow> int res" where
  "elem_woCompare l r considerFieldName =
     elem_woCompare_with compareElementValues considerFieldName l r"

definition elem_equal :: "mem \<Rightarrow> mem \<Rightarrow> bool res" where
  "elem_equal l r = rmap (\<lambda>x. x = 0) (elem_woCompare l r True)"

definition valuesEqual :: "mem \<Rightarrow> mem \<Rightarrow> bool res" where
  "valuesEqual l r = rmap (\<lambda>x. x = 0) (elem_woCompare l r False)"

definition elem_less :: "mem \<Rightarrow> mem \<Rightarrow> bool res" where
  "elem_less l r =
     rbind (canonicalType l) (\<lambda>cl. rbind (canonicalType r) (\<lambda>cr.
       if cl - cr < 0 then Inr True
       else if cl - cr > 0 then Inr False
       else rmap (\<lambda>x. x < 0) (compareElementValues l r)))"

definition woCompare :: "mem \<Rightarrow> mem \<Rightarrow> mem \<Rightarrow> bool \<Rightarrow> int res" where
  "woCompare a b idxKey considerFieldName =
     obj_woCompare_with (\<lambda>l r. elem_woCompare l r considerFieldName) idxKey a b"

text \<open>The operators \<open><\<close>, \<open><=\<close>, \<open>>\<close> and \<open>>=\<close> of \<open>BSONObj\<close>.\<close>

definition obj_lt :: "mem \<Rightarrow> mem \<Rightarrow> bool res" where
  "obj_lt a b = rmap (\<lambda>x. x < 0) (woCompare a b emptyObj True)"

definition obj_le :: "mem \<Rightarrow> mem \<Rightarrow> bool res" where
  "obj_le a b = rmap (\<lambda>x. x \<le> 0) (woCompare a b emptyObj True)"

definition obj_gt :: "mem \<Rightarrow> mem \<Rightarrow> bool res" where
  "obj_gt a b = rmap (\<lambda>x. x > 0) (woCompare a b emptyObj True)"

definition obj_ge :: "mem \<Rightarrow> mem \<Rightarrow> bool res" where
  "obj_ge a b = rmap (\<lambda>x. x \<ge> 0) (woCompare a b emptyObj True)"

text \<open>\<open>BSONObj::equal\<close>\<close>

definition obj_equal :: "mem \<Rightarrow> mem \<Rightarrow> bool res" where
  "obj_equal a b =
     rbind (iter_of a) (\<lambda>i. rbind (iter_of b) (\<lambda>j.
       loop2 (it_fuel i * it_fuel j) i j
         (\<lambda>_ l r. rbind (eoo l) (\<lambda>le.
            if le then rmap Ret (eoo r)
            else rmap (\<lambda>eq. if eq then Go () else Ret False) (elem_equal l r))) ()))"

section \<open>Comparison under a key pattern\<close>

definition ordering_descending :: "32 word \<Rightarrow> 32 word \<Rightarrow> bool" where
  "ordering_descending bits m = (and bits m \<noteq> 0)"

definition ordering_get :: "32 word \<Rightarrow> nat \<Rightarrow> int" where
  "ordering_get bits i = (if and (push_bit i 1) bits \<noteq> 0 then -1 else 1)"

text \<open>\<open>Ordering::make\<close>: the state of the loop is \<open>(b, n)\<close>.\<close>

definition ordering_make :: "mem \<Rightarrow> (32 word) res" where
  "ordering_make ob =
     rbind (iter_of ob) (\<lambda>k. ret_or (\<lambda>_. Inl NoReturn)
       (for_each (\<lambda>_. True) next_elem (it_fuel k) k
         (\<lambda>(b, n) e. rbind (eoo e) (\<lambda>z.
            if z then Inr (Ret b)
            else uassert 13103 (n \<le> 31) (rmap (\<lambda>d.
              Go (if d_lt d 0 then or b (push_bit n 1) else b, n + 1)) (numberDouble e))))
         (0, 0)))"

definition woCompare_ordering :: "mem \<Rightarrow> mem \<Rightarrow> 32 word \<Rightarrow> bool \<Rightarrow> int res" where
  "woCompare_ordering a b bits considerFieldName =
     rbind (isEmpty a) (\<lambda>ae. rbind (isEmpty b) (\<lambda>be.
       if ae then Inr (if be then 0 else -1)
       else if be then Inr 1
       else rbind (iter_of a) (\<lambda>i. rbind (iter_of b) (\<lambda>j.
         loop2 (it_fuel i * it_fuel j * 33) i j
           (\<lambda>mask l r.
             compare_step (\<lambda>l r. elem_woCompare l r considerFieldName)
               (Inr (ordering_descending bits mask)) (push_bit 1 mask) l r)
           1))))"

text \<open>\<open>woSortOrder\<close>; \<open>staticNull\<close> is the document \<open>{'': null}\<close>.\<close>

definition staticNull :: mem where
  "staticNull = encode [([], VNull)]"

definition sort_field :: "bool \<Rightarrow> mem \<Rightarrow> byte list \<Rightarrow> mem res" where
  "sort_field useDotted ob name =
     rbind (if useDotted then getFieldDotted ob name else getField ob name) (\<lambda>e.
       rbind (eoo e) (\<lambda>z. if z then firstElement staticNull else Inr e))"

definition sort_step :: "bool \<Rightarrow> mem \<Rightarrow> mem \<Rightarrow> unit \<Rightarrow> mem \<Rightarrow> (unit, int) flow res" where
  "sort_step useDotted a b s f =
     rbind (eoo f) (\<lambda>z.
       if z then Inr (Ret 0)
       else rbind (fieldName f) (\<lambda>p. rbind (cstr p) (\<lambda>name.
         rbind (sort_field useDotted a name) (\<lambda>l. rbind (sort_field useDotted b name) (\<lambda>r.
           rbind (elem_woCompare l r False) (\<lambda>x. rbind (numberDouble f) (\<lambda>d.
             let x = (if d_lt d 0 then - x else x) in
             Inr (if x \<noteq> 0 then Ret x else Go ()))))))))"

definition woSortOrder :: "mem \<Rightarrow> mem \<Rightarrow> mem \<Rightarrow> bool \<Rightarrow> int res" where
  "woSortOrder a b sortKey useDotted =
     rbind (isEmpty a) (\<lambda>ae. rbind (isEmpty b) (\<lambda>be.
       if ae then Inr (if be then 0 else -1)
       else if be then Inr 1
       else rbind (isEmpty sortKey) (\<lambda>ke. uassert 10060 (\<not> ke)
         (rbind (iter_of sortKey) (\<lambda>i. ret_or (\<lambda>_. Inl NoReturn)
           (for_each (\<lambda>_. True) next_elem (it_fuel i) i (sort_step useDotted a b) ()))))))"

section \<open>Prefixes\<close>

text \<open>\<open>while (a.more() && b.more())\<close>, then \<open>return !a.more()\<close>.\<close>

fun prefix_loop :: "nat \<Rightarrow> bson_iter \<Rightarrow> bson_iter \<Rightarrow> (mem \<Rightarrow> mem \<Rightarrow> bool res) \<Rightarrow> bool res" where
  "prefix_loop 0 a b same = Inl NoReturn"
| "prefix_loop (Suc k) a b same =
     (if more a \<and> more b
      then rbind (next_elem a) (\<lambda>(x, a'). rbind (next_elem b) (\<lambda>(y, b').
        rbind (same x y) (\<lambda>eq. if eq then prefix_loop k a' b' same else Inr False)))
      else Inr (\<not> more a))"

definition isPrefixOf :: "mem \<Rightarrow> mem \<Rightarrow> bool res" where
  "isPrefixOf ob other =
     rbind (iter_of ob) (\<lambda>a. rbind (iter_of other) (\<lambda>b.
       prefix_loop (it_fuel a * it_fuel b) a b elem_equal))"

definition isFieldNamePrefixOf :: "mem \<Rightarrow> mem \<Rightarrow> bool res" where
  "isFieldNamePrefixOf ob other =
     rbind (iter_of ob) (\<lambda>a. rbind (iter_of other) (\<lambda>b.
       prefix_loop (it_fuel a * it_fuel b) a b
         (\<lambda>x y. rbind (fieldName x) (\<lambda>p. rbind (fieldName y) (\<lambda>q. rmap (\<lambda>c. c = 0) (strcmp p q))))))"

end
