(* ===== verification/ObjExtract.thy ===== *)
theory ObjExtract
  imports BuilderRefine Compare
begin

text \<open>
  The operations of \<open>db/jsobj.cpp\<close> that make a new object out of the fields of another one, or look
  at the names of its fields: extraction, filtering, renaming, the array test, matching of names.
  Each is followed, in the second half, by what it does on the encoding of a document.
\<close>

section \<open>Operations\<close>

definition field_name :: "mem \<Rightarrow> byte list res" where
  "field_name e = rbind (fieldName e) cstr"

text \<open>
  \<open>while (i.moreWithEOO()) { e = i.next(); if (e.eoo()) break; ... }\<close>: a loop that leaves with its
  state at the end-of-object element.
\<close>

definition until_eoo ::
  "bson_iter \<Rightarrow> ('s \<Rightarrow> mem \<Rightarrow> ('s, 'r) flow res) \<Rightarrow> 's \<Rightarrow> ('s, 'r) flow res" where
  "until_eoo i body s =
     ret_or (\<lambda>s. Inr (Go s))
       (while_moreWithEOO i (\<lambda>s e. rbind (eoo e) (\<lambda>z.
          if z then Inr (Ret (Go s))
          else rmap (\<lambda>f. case f of Go s' \<Rightarrow> Go s' | Ret r \<Rightarrow> Ret (Ret r)) (body s e))) s)"

definition extractFieldsUnDotted :: "mem \<Rightarrow> mem \<Rightarrow> mem res" where
  "extractFieldsUnDotted ob pattern =
     rbind (bob_new 512) (\<lambda>b. rbind (iter_of pattern) (\<lambda>i. ret_or obj
       (until_eoo i (\<lambda>b e. rbind (field_name e) (\<lambda>n. rbind (getField ob n) (\<lambda>x. rbind (eoo x) (\<lambda>z.
          if z then Inr (Go b) else rmap Go (appendAs b x []))))) b)))"

definition extractFields :: "mem \<Rightarrow> mem \<Rightarrow> bool \<Rightarrow> mem res" where
  "extractFields ob pattern fillWithNull =
     rbind (bob_new 32) (\<lambda>b. rbind (iter_of pattern) (\<lambda>i. ret_or obj
       (until_eoo i (\<lambda>b e. rbind (field_name e) (\<lambda>n. rbind (getFieldDotted ob n) (\<lambda>x. rbind (eoo x) (\<lambda>z.
          if \<not> z then rmap Go (appendAs b x n)
          else if fillWithNull then rmap Go (appendNull b n)
          else Inr (Go b))))) b)))"

definition filterFieldsUndotted :: "mem \<Rightarrow> mem \<Rightarrow> bool \<Rightarrow> mem res" where
  "filterFieldsUndotted ob flt inFilter =
     rbind (bob_new 512) (\<lambda>b. rbind (iter_of ob) (\<lambda>i. ret_or obj
       (until_eoo i (\<lambda>b e. rbind (field_name e) (\<lambda>n. rbind (getField flt n) (\<lambda>x. rbind (eoo x) (\<lambda>z.
          if (z \<and> \<not> inFilter) \<or> (\<not> z \<and> inFilter) then rmap Go (append_elem b e)
          else Inr (Go b))))) b)))"

text \<open>
  \<open>getFieldUsingIndexNames\<close>: the position of the name among the names of the index key, then the
  element at that position.  The first loop can also leave when there is nothing more to read.
\<close>

definition getFieldUsingIndexNames :: "mem \<Rightarrow> byte list \<Rightarrow> mem \<Rightarrow> mem res" where
  "getFieldUsingIndexNames ob name indexKey =
     rbind (iter_of indexKey) (\<lambda>i. rbind
       (ret_or (\<lambda>j. Inr (Some j))
         (while_moreWithEOO i (\<lambda>j f. rbind (eoo f) (\<lambda>z.
            if z then Inr (Ret None)
            else rbind (fieldName f) (\<lambda>p. rmap (\<lambda>c. if c = 0 then Ret (Some j) else Go (j + 1))
              (strcmp p (name @ [0]))))) (0 :: 32 word)))
       (\<lambda>pos. case pos of
          None \<Rightarrow> Inr eooElement
        | Some j \<Rightarrow>
            rbind (iter_of ob) (\<lambda>k. ret_or (\<lambda>_. Inr eooElement)
              (while_moreWithEOO k (\<lambda>j g. rmap (\<lambda>z.
                 if z then Ret eooElement else if j = 0 then Ret g else Go (j - 1)) (eoo g)) j))))"

definition getFieldNames :: "mem \<Rightarrow> byte list set \<Rightarrow> (byte list set \<times> 32 word) res" where
  "getFieldNames ob fs =
     rbind (iter_of ob) (\<lambda>i. ret_or Inr
       (until_eoo i (\<lambda>(fs, n) e. rmap (\<lambda>s. Go (insert s fs, n + 1)) (field_name e)) (fs, 0)))"

text \<open>
  \<open>addFields\<close>: the loop has no test for the end-of-object element, whose name reads as the empty
  string.  The result is the new object, none when nothing was added, and the count.
\<close>

type_synonym add_state = "BSONObjBuilder \<times> nat \<times> bool"

definition addFields_step :: "byte list set \<Rightarrow> add_state \<Rightarrow> mem \<Rightarrow> (add_state, add_state) flow res" where
  "addFields_step fs st e =
     (case st of (b, n, gotId) \<Rightarrow>
       rbind (field_name e) (\<lambda>fname.
         let fin = (\<lambda>b n gotId. if n = card fs \<and> gotId then Ret (b, n, gotId) else Go (b, n, gotId)) in
         if fname \<in> fs
         then rmap (\<lambda>b. fin b (n + 1) (gotId \<or> fname = bs ''_id'')) (append_elem b e)
         else if fname = bs ''_id''
         then rmap (\<lambda>b. fin b n True) (append_elem b e)
         else Inr (Go st)))"

definition addFields :: "mem \<Rightarrow> bool \<Rightarrow> mem \<Rightarrow> byte list set \<Rightarrow> (mem option \<times> nat) res" where
  "addFields ob isOwned from fs =
     rbind (isEmpty ob) (\<lambda>z. verify (z \<and> \<not> isOwned)
       (rbind (bob_new 512) (\<lambda>b. rbind (iter_of from) (\<lambda>i. rbind
         (ret_or Inr (while_moreWithEOO i (addFields_step fs) (b, 0, False)))
         (\<lambda>(b, n, gotId). if n \<noteq> 0 then rmap (\<lambda>m. (Some m, n)) (obj b) else Inr (None, 0))))))"

definition couldBeArray :: "mem \<Rightarrow> bool res" where
  "couldBeArray ob =
     rbind (iter_of ob) (\<lambda>i. ret_or (\<lambda>_. Inr True)
       (until_eoo i (\<lambda>index e. rbind (fieldName e) (\<lambda>p.
          rmap (\<lambda>c. if c \<noteq> 0 then Ret False else Go (index + 1)) (strcmp p (numStr (sint index) @ [0]))))
          (0 :: 32 word)))"

definition readable_key :: "BSONObjBuilder \<Rightarrow> byte list \<Rightarrow> byte list \<Rightarrow> BSONObjBuilder res" where
  "readable_key b name key =
     rbind (bob_new 512) (\<lambda>m. rbind (append_int m key 1) (\<lambda>m. rbind (done_obj m) (\<lambda>(x, _).
       append_obj b name x)))"

definition clientReadable :: "mem \<Rightarrow> mem res" where
  "clientReadable ob =
     rbind (bob_new 512) (\<lambda>b. rbind (iter_of ob) (\<lambda>i. ret_or obj
       (until_eoo i (\<lambda>b e. rbind (elem_type e) (\<lambda>t. rbind (field_name e) (\<lambda>n. rmap Go
          (if t = MinKey then readable_key b n (bs ''$minElement'')
           else if t = MaxKey then readable_key b n (bs ''$maxElement'')
           else append_elem b e)))) b)))"

definition rename_step ::
  "BSONObjBuilder \<times> mem \<times> bson_iter \<Rightarrow> mem \<Rightarrow> (BSONObjBuilder \<times> mem \<times> bson_iter, mem) flow res" where
  "rename_step st e =
     (case st of (b, f, j) \<Rightarrow>
       rbind (eoo f) (\<lambda>z.
         if \<not> z
         then rbind (field_name f) (\<lambda>n. rbind (appendAs b e n) (\<lambda>b.
           rmap (\<lambda>(f', j'). Go (b, f', j')) (next_elem j)))
         else rmap (\<lambda>b. Go (b, f, j)) (append_elem b e)))"

definition replaceFieldNames :: "mem \<Rightarrow> mem \<Rightarrow> mem res" where
  "replaceFieldNames ob names =
     rbind (bob_new 512) (\<lambda>b. rbind (iter_of ob) (\<lambda>i. rbind (iter_of names) (\<lambda>j. rbind
       (if moreWithEOO j then next_elem j else rmap (\<lambda>f. (f, j)) (firstElement emptyObj))
       (\<lambda>(f, j). ret_or (\<lambda>(b, _). obj b) (until_eoo i rename_step (b, f, j))))))"

text \<open>\<open>while (i.more() && j.more())\<close>, with the iterators as the loop leaves them.\<close>

fun while_both ::
  "nat \<Rightarrow> bson_iter \<Rightarrow> bson_iter \<Rightarrow> ('s \<Rightarrow> mem \<Rightarrow> mem \<Rightarrow> ('s, 'r) flow res) \<Rightarrow> 's
     \<Rightarrow> ('s \<times> bson_iter \<times> bson_iter, 'r) flow res" where
  "while_both 0 i j body s = Inl NoReturn"
| "while_both (Suc k) i j body s =
     (if BsonObj.more i \<and> BsonObj.more j
      then rbind (next_elem i) (\<lambda>(x, i'). rbind (next_elem j) (\<lambda>(y, j').
        rbind (body s x y) (\<lambda>f. case f of Ret r \<Rightarrow> Inr (Ret r) | Go s' \<Rightarrow> while_both k i' j' body s')))
      else Inr (Go (s, i, j)))"

definition fieldsMatch :: "mem \<Rightarrow> mem \<Rightarrow> bool res" where
  "fieldsMatch lhs rhs =
     rbind (iter_of lhs) (\<lambda>l. rbind (iter_of rhs) (\<lambda>r. ret_or (\<lambda>(_, l, r). Inr (\<not> (BsonObj.more l \<or> BsonObj.more r)))
       (while_both (it_fuel l * it_fuel r) l r
         (\<lambda>_ x y. rbind (fieldName x) (\<lambda>p. rbind (fieldName y) (\<lambda>q.
            rmap (\<lambda>c. if c \<noteq> 0 then Ret False else Go ()) (strcmp p q)))) ())))"

definition appendKeys :: "BSONObjBuilder \<Rightarrow> mem \<Rightarrow> mem \<Rightarrow> BSONObjBuilder res" where
  "appendKeys b keyPattern values =
     rbind (iter_of keyPattern) (\<lambda>i. rbind (iter_of values) (\<lambda>j. ret_or
       (\<lambda>(b, i, j). verify (\<not> BsonObj.more i) (verify (\<not> BsonObj.more j) (Inr b)))
       (while_both (it_fuel i * it_fuel j) i j
         (\<lambda>b x y. rbind (field_name x) (\<lambda>n. rmap Go (appendAs b y n))) b)))"

section \<open>Specifications\<close>

definition keep_found :: "(byte list \<Rightarrow> bval option) \<Rightarrow> bool \<Rightarrow> bdoc \<Rightarrow> bdoc" where
  "keep_found look fill pat =
     concat (map (\<lambda>(n, _). case look n of Some v \<Rightarrow> [(n, v)] | None \<Rightarrow> if fill then [(n, VNull)] else []) pat)"

fun rename_fields :: "bdoc \<Rightarrow> bdoc \<Rightarrow> bdoc" where
  "rename_fields ((n, _) # ns) ((_, v) # d) = (n, v) # rename_fields ns d"
| "rename_fields [] d = d"
| "rename_fields ns [] = []"

definition readable :: "bval \<Rightarrow> bval" where
  "readable v =
     (case v of
        VMinKey \<Rightarrow> VObject [(bs ''$minElement'', VInt 1)]
      | VMaxKey \<Rightarrow> VObject [(bs ''$maxElement'', VInt 1)]
      | _ \<Rightarrow> v)"

section \<open>Loops that build an object\<close>

lemma field_name_enc [simp]: "elem_ok n v \<Longrightarrow> field_name (enc_elem n v @ m) = Inr n"
  using elem_okD(1) [of n v] by (simp add: field_name_def cstr_nul)

lemma until_eoo_enc [simp]:
  assumes "wf_doc d"
  shows "until_eoo (enc_iter d r) body s = each body s (elem_ptrs d (0 # r))"
proof -
  let ?body = "\<lambda>s e. rbind (eoo e) (\<lambda>z. if z then Inr (Ret (Go s))
    else rmap (\<lambda>f. case f of Go s' \<Rightarrow> Go s' | Ret r \<Rightarrow> Ret (Ret r)) (body s e))"
  have "ret_or (\<lambda>s. Inr (Go s)) (each ?body s (elem_ptrs d (0 # r) @ [0 # r])) =
      each body s (elem_ptrs d (0 # r))" for d
  proof (induction d arbitrary: s)
    case (Cons a d)
    obtain n v where "a = (n, v)" by (cases a) auto
    with Cons show ?case
      by (cases "body s (enc_elem n v @ enc_elems d @ 0 # r)") (auto split: flow.splits)
  qed simp
  then show ?thesis using assms by (simp add: until_eoo_def)
qed

text \<open>A body that appends what \<open>g\<close> gives for the element, whatever follows the element.\<close>

lemma each_emit:
  assumes "\<And>n v m. (n, v) \<in> set d \<Longrightarrow>
      \<exists>h. (\<forall>b. body b (enc_elem n v @ m) = rmap Go (h b)) \<and> writes h (enc_elems (g n v))"
  shows "\<exists>h. (\<forall>b. each body b (elem_ptrs d r) = rmap Go (h b)) \<and>
    writes h (enc_elems (concat (map (\<lambda>(n, v). g n v) d)))"
  using assms
proof (induction d)
  case Nil
  show ?case by (rule exI [of _ Inr]) (simp add: bob_sink.writes_return)
next
  case (Cons a d)
  obtain n v where a: "a = (n, v)" by (cases a) auto
  obtain h where h: "\<And>b. each body b (elem_ptrs d r) = rmap Go (h b)"
      "writes h (enc_elems (concat (map (\<lambda>(n, v). g n v) d)))"
    using Cons.IH Cons.prems by (metis list.set_intros(2))
  obtain h1 where h1: "\<And>b. body b (enc_elem n v @ enc_elems d @ r) = rmap Go (h1 b)" "writes h1 (enc_elems (g n v))"
    using Cons.prems [of n v "enc_elems d @ r"] a by auto
  have "each body b (elem_ptrs (a # d) r) = rmap Go (rbind (h1 b) h)" for b
    by (cases "h1 b") (simp_all add: a h1(1) h(1))
  moreover have "writes (\<lambda>b. rbind (h1 b) h) (enc_elems (g n v) @ enc_elems (concat (map (\<lambda>(n, v). g n v) d)))"
    using h1(2) h(2) by (rule bob_sink.writes_bind)
  ultimately show ?case by (intro exI [of _ "\<lambda>b. rbind (h1 b) h"]) (simp add: a)
qed

lemma obj_emit:
  assumes "wf_doc res" "writes h (enc_elems res)"
  shows "rbind (bob_new k) (\<lambda>b. ret_or obj (rmap Go (h b))) = Inr (encode res)"
proof -
  obtain b where b: "bob_new k = Inr b" "builds b []" using bob_new_builds by blast
  obtain b' where "h b = Inr b'" "builds b' res" using writes_builds [OF assms(2) b(2)] assms(1) by auto
  then show ?thesis using b(1) obj_builds assms(1) by simp
qed

lemma obj_each_emit:
  assumes "\<And>n v m. (n, v) \<in> set d \<Longrightarrow>
      \<exists>h. (\<forall>b. body b (enc_elem n v @ m) = rmap Go (h b)) \<and> writes h (enc_elems (g n v))"
    and "wf_doc (concat (map (\<lambda>(n, v). g n v) d))"
  shows "rbind (bob_new k) (\<lambda>b. ret_or obj (each body b (elem_ptrs d r))) =
    Inr (encode (concat (map (\<lambda>(n, v). g n v) d)))"
proof -
  obtain h where h: "\<And>b. each body b (elem_ptrs d r) = rmap Go (h b)"
      "writes h (enc_elems (concat (map (\<lambda>(n, v). g n v) d)))"
    using each_emit [of d body g r] assms(1) by blast
  then show ?thesis using obj_emit [OF assms(2) h(2)] by simp
qed

lemma writes_appendAs:
  "elem_ok n v \<Longrightarrow> writes (\<lambda>b. appendAs b (enc_elem n v @ m) n') (enc_elems [(n', v)])"
  using appends_as [of n v m n'] by (simp only: appends_def enc_elems_single)

lemma writes_append_elem:
  "elem_ok n v \<Longrightarrow> writes (\<lambda>b. append_elem b (enc_elem n v @ m)) (enc_elems [(n, v)])"
  using appends_elem [of n v m] by (simp only: appends_def enc_elems_single)

lemma writes_nothing: "writes Inr (enc_elems [])"
  by (simp add: bob_sink.writes_return)

lemma wf_doc_elem_ok: "wf_doc d \<Longrightarrow> (n, v) \<in> set d \<Longrightarrow> elem_ok n v"
  using wf_docD(4) [of d] by (auto simp: elems_ok_def)

section \<open>What the operations return\<close>

lemma extractFieldsUnDotted_enc:
  assumes "wf_doc d" "wf_doc pat"
    and "wf_doc (map (\<lambda>(n, v). ([], v)) (keep_found (map_of d) False pat))"
  shows "extractFieldsUnDotted (encode d @ r) (encode pat @ q) =
    Inr (encode (map (\<lambda>(n, v). ([], v)) (keep_found (map_of d) False pat)))"
proof -
  let ?g = "\<lambda>n (_ :: bval). case map_of d n of Some v \<Rightarrow> [([], v)] | None \<Rightarrow> []"
  let ?body = "\<lambda>b e. rbind (field_name e) (\<lambda>n. rbind (getField (encode d @ r) n) (\<lambda>x. rbind (eoo x) (\<lambda>z.
          if z then Inr (Go b) else rmap Go (appendAs b x []))))"
  have eq: "map (\<lambda>(n, v). ([], v)) (keep_found (map_of d) False pat) = concat (map (\<lambda>(n, v). ?g n v) pat)"
    unfolding keep_found_def by (induction pat) (auto split: option.splits)
  have "\<exists>h. (\<forall>b. ?body b (enc_elem n w @ m) = rmap Go (h b)) \<and> writes h (enc_elems (?g n w))"
    if "(n, w) \<in> set pat" for n w m
  proof -
    obtain e where e: "getField (encode d @ r) n = Inr e" "denotes e n (map_of d n)"
      using assms(1) by (rule getField_denotesE)
    have ok: "elem_ok n w" using assms(2) that by (rule wf_doc_elem_ok)
    show ?thesis
    proof (cases "map_of d n")
      case None
      then show ?thesis
        using e ok denotes_eoo [OF e(2)] writes_nothing by (intro exI [of _ Inr]) simp
    next
      case (Some v)
      then show ?thesis
        using e ok denotes_eoo [OF e(2)] writes_appendAs [of n v _ "[]"]
        by (intro exI [of _ "\<lambda>b. appendAs b e []"]) (auto simp: denotes_def)
    qed
  qed
  from obj_each_emit [where d = pat and body = ?body and g = ?g and k = 512 and r = "0 # q", OF this] show ?thesis
    using assms(2,3) by (simp add: extractFieldsUnDotted_def eq)
qed

lemma extractFields_enc:
  assumes "wf_doc d" "wf_doc pat" "wf_doc (keep_found (lookup_dotted d) fill pat)"
  shows "extractFields (encode d @ r) (encode pat @ q) fill =
    Inr (encode (keep_found (lookup_dotted d) fill pat))"
proof -
  let ?g = "\<lambda>n (_ :: bval). case lookup_dotted d n of Some v \<Rightarrow> [(n, v)] | None \<Rightarrow> if fill then [(n, VNull)] else []"
  let ?body = "\<lambda>b e. rbind (field_name e) (\<lambda>n. rbind (getFieldDotted (encode d @ r) n) (\<lambda>x. rbind (eoo x) (\<lambda>z.
          if \<not> z then rmap Go (appendAs b x n)
          else if fill then rmap Go (appendNull b n)
          else Inr (Go b))))"
  have "\<exists>h. (\<forall>b. ?body b (enc_elem n w @ m) = rmap Go (h b)) \<and> writes h (enc_elems (?g n w))"
    if "(n, w) \<in> set pat" for n w m
  proof -
    obtain e n' where e: "getFieldDotted (encode d @ r) n = Inr e" "denotes e n' (lookup_dotted d n)"
      using getFieldDotted_denotes [OF assms(1)] by blast
    have ok: "elem_ok n w" using assms(2) that by (rule wf_doc_elem_ok)
    show ?thesis
    proof (cases "lookup_dotted d n")
      case None
      have "writes (\<lambda>b. appendNull b n) (enc_elems [(n, VNull)])"
        using appends_markers(1) [of n] unfolding appends_def enc_elems_single by blast
      then show ?thesis
        using None e ok denotes_eoo [OF e(2)] writes_nothing
        by (intro exI [of _ "\<lambda>b. if fill then appendNull b n else Inr b"]) auto
    next
      case (Some v)
      then show ?thesis
        using e ok denotes_eoo [OF e(2)] writes_appendAs [of n' v _ n]
        by (intro exI [of _ "\<lambda>b. appendAs b e n"]) (auto simp: denotes_def)
    qed
  qed
  from obj_each_emit [where d = pat and body = ?body and g = ?g and k = 32 and r = "0 # q", OF this] show ?thesis
    using assms(2,3) by (simp add: extractFields_def keep_found_def)
qed

lemma wf_doc_filter: "wf_doc d \<Longrightarrow> wf_doc (filter P d)"
proof -
  have "length (enc_elems (filter P d)) \<le> length (enc_elems d)" "wf_elems d \<Longrightarrow> wf_elems (filter P d)"
    by (induction d) auto
  then show "wf_doc d \<Longrightarrow> wf_doc (filter P d)" by (auto simp: wf_doc_iff)
qed

lemma filterFieldsUndotted_enc:
  assumes "wf_doc d" "wf_doc flt"
  shows "filterFieldsUndotted (encode d @ r) (encode flt @ q) inFilter =
    Inr (encode (filter (\<lambda>(n, v). (map_of flt n \<noteq> None) = inFilter) d))"
proof -
  let ?P = "\<lambda>n. (map_of flt n \<noteq> None) = inFilter"
  let ?g = "\<lambda>n v. if ?P n then [(n, v)] else []"
  let ?body = "\<lambda>b e. rbind (field_name e) (\<lambda>n. rbind (getField (encode flt @ q) n) (\<lambda>x. rbind (eoo x) (\<lambda>z.
          if (z \<and> \<not> inFilter) \<or> (\<not> z \<and> inFilter) then rmap Go (append_elem b e) else Inr (Go b))))"
  have eq: "filter (\<lambda>(n, v). ?P n) d = concat (map (\<lambda>(n, v). ?g n v) d)"
    by (induction d) (simp_all add: case_prod_beta')
  have "\<exists>h. (\<forall>b. ?body b (enc_elem n w @ m) = rmap Go (h b)) \<and> writes h (enc_elems (?g n w))"
    if "(n, w) \<in> set d" for n w m
  proof -
    obtain e where e: "getField (encode flt @ q) n = Inr e" "denotes e n (map_of flt n)"
      using assms(2) by (rule getField_denotesE)
    have ok: "elem_ok n w" using assms(1) that by (rule wf_doc_elem_ok)
    show ?thesis
      using e ok denotes_eoo [OF e(2)] writes_append_elem [OF ok, of m] writes_nothing
      by (intro exI [of _ "\<lambda>b. if ?P n then append_elem b (enc_elem n w @ m) else Inr b"])
        (cases "map_of flt n"; cases inFilter; simp)
  qed
  from obj_each_emit [where d = d and body = ?body and g = ?g and k = 512 and r = "0 # r", OF this] show ?thesis
    using assms(1) wf_doc_filter [OF assms(1), of "\<lambda>(n, v). ?P n"]
    by (simp only: filterFieldsUndotted_def eq iter_of_encode rbind_simps until_eoo_enc)
qed

text \<open>Names compare with \<open>strcmp\<close> as strings.\<close>

lemma strcmp_name:
  "elem_ok n v \<Longrightarrow> nul_free name \<Longrightarrow> strcmp (n @ 0 # m) (name @ [0]) = Inr (bytes_cmp n name)"
  using elem_okD(1) [of n v] strcmp_nul [of n name m "[]"] by simp

lemma couldBeArray_enc:
  assumes "wf_doc d"
  shows "couldBeArray (encode d @ r) = Inr (map fst d = map (\<lambda>i. numStr (int i)) [0..<length d])"
proof -
  let ?body = "\<lambda>index e. rbind (fieldName e) (\<lambda>p.
    rmap (\<lambda>c. if c \<noteq> 0 then Ret False else Go (index + 1)) (strcmp p (numStr (sint index) @ [0])))"
  have "ret_or (\<lambda>_. Inr True) (each ?body (int32 k) (elem_ptrs d r)) =
      Inr (map fst d = map (\<lambda>i. numStr (int i)) [k..<k + length d])"
    if "elems_ok d" "k + length d < 2 ^ 31" for k d r
    using that
  proof (induction d arbitrary: k)
    case (Cons a d)
    obtain n v where a: "a = (n, v)" by (cases a) auto
    have s: "sint (int32 k) = int k" using Cons.prems(2) by (intro sint_int32) simp
    have k: "int32 k + 1 = int32 (Suc k)" by (simp add: int32_def)
    have "ret_or (\<lambda>_. Inr True) (each ?body (int32 (Suc k)) (elem_ptrs d r)) =
        Inr (map fst d = map (\<lambda>i. numStr (int i)) [Suc k..<Suc k + length d])"
      using Cons.prems by (intro Cons.IH) (simp_all add: a)
    moreover have "[k..<k + length (a # d)] = k # [Suc k..<Suc k + length d]"
      by (simp add: upt_rec)
    moreover have "strcmp (n @ 0 # m) (numStr (int k) @ [0]) = Inr (bytes_cmp n (numStr (int k)))" for m
      using Cons.prems(1) a by (intro strcmp_name [of n v]) simp_all
    ultimately show ?case by (simp add: a s k del: upt_Suc)
  qed simp
  from this [of d 0 "0 # r"] have "ret_or (\<lambda>_. Inr True) (each ?body (0 :: 32 word) (elem_ptrs d (0 # r))) =
      Inr (map fst d = map (\<lambda>i. numStr (int i)) [0..<length d])"
    if "length d < 2 ^ 31"
    using wf_docD(4) [OF assms] that by (simp add: int32_def)
  moreover have "length d < 2 ^ 31"
    using length_enc_elems [of d] wf_docD(3) [OF assms] by (simp add: length_encode)
  ultimately show ?thesis
    using assms by (simp add: couldBeArray_def)
qed

lemma getFieldNames_enc:
  assumes "wf_doc d"
  shows "getFieldNames (encode d @ r) fs = Inr (fs \<union> fst ` set d, int32 (length d))"
proof -
  let ?body = "(\<lambda>(fs, n) e. rmap (\<lambda>s. Go (insert s fs, n + 1)) (field_name e))
    :: _ \<Rightarrow> _ \<Rightarrow> (_, byte list set \<times> 32 word) flow res"
  have "each ?body (fs, int32 k) (elem_ptrs d r) = Inr (Go (fs \<union> fst ` set d, int32 (k + length d)))"
    if "elems_ok d" for d fs k r
    using that
  proof (induction d arbitrary: fs k)
    case (Cons a d)
    obtain n v where a: "a = (n, v)" by (cases a) auto
    have "int32 k + 1 = int32 (Suc k)" by (simp add: int32_def)
    then show ?case using Cons.prems Cons.IH [of "insert n fs" "Suc k"] by (simp add: a)
  qed simp
  from this [of d fs 0] show ?thesis
    using assms wf_docD(4) [OF assms] by (simp add: getFieldNames_def int32_def)
qed

lemma readable_key_writes:
  assumes "nul_free key" "length key \<le> 100"
  shows "writes (\<lambda>b. readable_key b n key) (enc_elems [(n, VObject [(key, VInt 1)])])"
proof -
  let ?d = "[(key, VInt 1)]"
  have wf: "wf_doc ?d" using assms by (simp add: wf_doc_iff)
  obtain b0 where b0: "bob_new 512 = Inr b0" "builds b0 []" using bob_new_builds by blast
  obtain b1 where b1: "append_int b0 key 1 = Inr b1" "builds b1 ?d"
    using appends_builds [OF appends_scalars(1) [of key 1] b0(2)] wf by auto
  have "bob_rep b1 ?d" using b1(2) unfolding builds_def by blast
  from bob_done_rep [OF this builds_room [OF b1(2) wf]] obtain b2 where
    b2: "bob_done b1 = Inr b2" "bob_bytes b2 = encode ?d" by blast
  have "readable_key b n key = append_obj b n (encode ?d)" for b
    using b0(1) b1(1) done_obj_bytes [OF b2 wf] by (simp add: readable_key_def)
  then show ?thesis
    using appends_obj(1) [OF wf, of n "[]"] unfolding appends_def enc_elems_single by simp
qed

lemma clientReadable_enc:
  assumes "wf_doc d" "wf_doc (map (\<lambda>(n, v). (n, readable v)) d)"
  shows "clientReadable (encode d @ r) = Inr (encode (map (\<lambda>(n, v). (n, readable v)) d))"
proof -
  let ?g = "\<lambda>n v. [(n, readable v)]"
  let ?body = "\<lambda>b e. rbind (elem_type e) (\<lambda>t. rbind (field_name e) (\<lambda>n. rmap Go
          (if t = MinKey then readable_key b n (bs ''$minElement'')
           else if t = MaxKey then readable_key b n (bs ''$maxElement'')
           else append_elem b e)))"
  have eq: "map (\<lambda>(n, v). (n, readable v)) d = concat (map (\<lambda>(n, v). ?g n v) d)" by (induction d) auto
  have "\<exists>h. (\<forall>b. ?body b (enc_elem n v @ m) = rmap Go (h b)) \<and> writes h (enc_elems (?g n v))"
    if "(n, v) \<in> set d" for n v m
  proof -
    have ok: "elem_ok n v" using assms(1) that by (rule wf_doc_elem_ok)
    let ?h = "\<lambda>b. if vtype v = MinKey then readable_key b n (bs ''$minElement'')
           else if vtype v = MaxKey then readable_key b n (bs ''$maxElement'')
           else append_elem b (enc_elem n v @ m)"
    have k: "nul_free (bs ''$minElement'')" "length (bs ''$minElement'') \<le> 100"
      "nul_free (bs ''$maxElement'')" "length (bs ''$maxElement'') \<le> 100" by simp_all
    have "writes ?h (enc_elems (?g n v))"
    proof (cases v)
      case VMinKey
      then show ?thesis using readable_key_writes [OF k(1,2), of n] by (simp add: readable_def del: enc_elems.simps bs_simps)
    next
      case VMaxKey
      then show ?thesis using readable_key_writes [OF k(3,4), of n] by (simp add: readable_def del: enc_elems.simps bs_simps)
    qed (use writes_append_elem [OF ok, of m] in \<open>simp_all add: readable_def del: enc_elems.simps bs_simps\<close>)
    then show ?thesis using ok by (intro exI [of _ ?h]) (simp del: enc_elems.simps bs_simps)
  qed
  from obj_each_emit [where d = d and body = ?body and g = ?g and k = 512 and r = "0 # r", OF this] show ?thesis
    using assms by (simp only: clientReadable_def eq iter_of_encode rbind_simps until_eoo_enc)
qed

text \<open>Renaming: the names still to come are at the element \<open>f\<close> and after the iterator \<open>j\<close>.\<close>

fun names_at :: "mem \<Rightarrow> bson_iter \<Rightarrow> bdoc \<Rightarrow> bool" where
  "names_at f j [] = (eoo f = Inr True)"
| "names_at f j ((n, w) # ns) = (elem_ok n w \<and> (\<exists>t. f = enc_elem n w @ t) \<and> (\<exists>r. it_at j ns r))"

lemma names_at_next: "it_at j ns r \<Longrightarrow> \<exists>f j'. next_elem j = Inr (f, j') \<and> names_at f j' ns"
proof (cases ns)
  case Nil
  assume "it_at j ns r"
  then show ?thesis using it_at_next_EOO [of j r] Nil by simp
next
  case (Cons a ns')
  assume i: "it_at j ns r"
  obtain n w where a: "a = (n, w)" by (cases a) auto
  show ?thesis
    using i it_at_next [of j n w ns' r] it_at_step [of j n w ns' r] it_at_elem_ok [of j n w ns' r]
    by (auto simp: Cons a)
qed

lemma each_rename:
  assumes "elems_ok d" "names_at f j ns"
  shows "\<exists>h f' j'. (\<forall>b. each rename_step (b, f, j) (elem_ptrs d r) = rmap (\<lambda>b. Go (b, f', j')) (h b)) \<and>
    writes h (enc_elems (rename_fields ns d))"
  using assms
proof (induction d arbitrary: f j ns)
  case Nil
  have "rename_fields ns [] = []" by (cases ns) auto
  then show ?case using bob_sink.writes_return by (intro exI [of _ Inr]) simp
next
  case (Cons a d)
  obtain n v where a: "a = (n, v)" by (cases a) auto
  have ok: "elem_ok n v" "elems_ok d" using Cons.prems(1) by (simp_all add: a)
  let ?e = "enc_elem n v @ enc_elems d @ r"
  show ?case
  proof (cases ns)
    case Nil
    then have z: "eoo f = Inr True" using Cons.prems(2) by simp
    obtain h f' j' where h: "\<And>b. each rename_step (b, f, j) (elem_ptrs d r) = rmap (\<lambda>b. Go (b, f', j')) (h b)"
        "writes h (enc_elems (rename_fields [] d))"
      using Cons.IH [OF ok(2), of f j "[]"] z by auto
    have "each rename_step (b, f, j) (elem_ptrs (a # d) r) =
        rmap (\<lambda>b. Go (b, f', j')) (rbind (append_elem b ?e) h)" for b
      by (cases "append_elem b ?e") (simp_all add: a rename_step_def z h(1))
    moreover have "writes (\<lambda>b. rbind (append_elem b ?e) h) (enc_elems [(n, v)] @ enc_elems (rename_fields [] d))"
      using writes_append_elem [OF ok(1)] h(2) by (rule bob_sink.writes_bind)
    ultimately show ?thesis
      by (intro exI [of _ "\<lambda>b. rbind (append_elem b ?e) h"] exI [of _ f'] exI [of _ j']) (simp add: Nil a)
  next
    case (Cons m ns')
    obtain k w where m: "m = (k, w)" by (cases m) auto
    obtain t q where f: "elem_ok k w" "f = enc_elem k w @ t" "it_at j ns' q"
      using Cons.prems(2) by (auto simp: Cons m)
    obtain f1 j1 where j1: "next_elem j = Inr (f1, j1)" "names_at f1 j1 ns'"
      using names_at_next [OF f(3)] by blast
    obtain h f' j' where h: "\<And>b. each rename_step (b, f1, j1) (elem_ptrs d r) = rmap (\<lambda>b. Go (b, f', j')) (h b)"
        "writes h (enc_elems (rename_fields ns' d))"
      using Cons.IH [OF ok(2) j1(2)] by auto
    have "each rename_step (b, f, j) (elem_ptrs (a # d) r) =
        rmap (\<lambda>b. Go (b, f', j')) (rbind (appendAs b ?e k) h)" for b
      by (cases "appendAs b ?e k") (simp_all add: a rename_step_def f j1(1) h(1))
    moreover have "writes (\<lambda>b. rbind (appendAs b ?e k) h) (enc_elems [(k, v)] @ enc_elems (rename_fields ns' d))"
      using writes_appendAs [OF ok(1)] h(2) by (rule bob_sink.writes_bind)
    ultimately show ?thesis
      by (intro exI [of _ "\<lambda>b. rbind (appendAs b ?e k) h"] exI [of _ f'] exI [of _ j']) (simp add: Cons m a)
  qed
qed

lemma replaceFieldNames_enc:
  assumes "wf_doc d" "wf_doc names" "wf_doc (rename_fields names d)"
  shows "replaceFieldNames (encode d @ r) (encode names @ q) = Inr (encode (rename_fields names d))"
proof -
  have at: "it_at (enc_iter names q) names q" using assms(2) by (rule it_at_enc_iter)
  obtain f j where fj: "next_elem (enc_iter names q) = Inr (f, j)" "names_at f j names"
    using names_at_next [OF at] by blast
  obtain h f' j' where h: "\<And>b. each rename_step (b, f, j) (elem_ptrs d (0 # r)) = rmap (\<lambda>b. Go (b, f', j')) (h b)"
      "writes h (enc_elems (rename_fields names d))"
    using each_rename [OF wf_docD(4) [OF assms(1)] fj(2)] by blast
  have "replaceFieldNames (encode d @ r) (encode names @ q) =
      rbind (bob_new 512) (\<lambda>b. ret_or obj (rmap Go (h b)))"
  proof -
    have "ret_or (\<lambda>(b, _). obj b) (rmap (\<lambda>b. Go (b, f', j')) x) = ret_or obj (rmap Go x)" for x
      by (cases x) auto
    then show ?thesis
      using assms fj(1) it_at_moreWithEOO [OF at] by (simp add: replaceFieldNames_def h(1))
  qed
  then show ?thesis using obj_emit [OF assms(3) h(2)] by simp
qed

text \<open>Two iterators in step.\<close>

fun each2 :: "('s \<Rightarrow> mem \<Rightarrow> mem \<Rightarrow> ('s, 'r) flow res) \<Rightarrow> 's \<Rightarrow> mem list \<Rightarrow> mem list \<Rightarrow> ('s, 'r) flow res" where
  "each2 body s (x # xs) (y # ys) =
     rbind (body s x y) (\<lambda>f. case f of Ret r \<Rightarrow> Inr (Ret r) | Go s' \<Rightarrow> each2 body s' xs ys)"
| "each2 body s _ _ = Inr (Go s)"

lemma while_both_at:
  assumes "it_at i d r" "it_at j e q" "length d < k"
  shows "ret_or (\<lambda>(s, i, j). fin s (BsonObj.more i) (BsonObj.more j)) (while_both k i j body s) =
    ret_or (\<lambda>s. fin s (length e < length d) (length d < length e))
      (each2 body s (elem_ptrs d (0 # r)) (elem_ptrs e (0 # q)))"
  using assms
proof (induction d arbitrary: i j e k s)
  case Nil
  then obtain k' where "k = Suc k'" by (cases k) auto
  then show ?case using it_at_more [OF Nil(1)] it_at_more [OF Nil(2)] by simp
next
  case (Cons a d)
  then obtain k' where k: "k = Suc k'" "length d < k'" by (cases k) auto
  obtain n v where a: "a = (n, v)" by (cases a) auto
  note i = Cons.prems(1) [unfolded a]
  show ?case
  proof (cases e)
    case Nil
    then show ?thesis using it_at_more [OF i] it_at_more [OF Cons.prems(2)] k by simp
  next
    case (Cons b e')
    obtain m w where b: "b = (m, w)" by (cases b) auto
    note j = Cons.prems(2) [unfolded Cons b]
    let ?i = "i\<lparr>it_pos := it_pos i + int (length (enc_elem n v))\<rparr>"
    let ?j = "j\<lparr>it_pos := it_pos j + int (length (enc_elem m w))\<rparr>"
    have IH: "ret_or (\<lambda>(s, i, j). fin s (BsonObj.more i) (BsonObj.more j)) (while_both k' ?i ?j body s') =
        ret_or (\<lambda>s. fin s (length e' < length d) (length d < length e'))
          (each2 body s' (elem_ptrs d (0 # r)) (elem_ptrs e' (0 # q)))" for s'
      using it_at_step [OF i] it_at_step [OF j] k(2) by (rule Cons.IH)
    show ?thesis
      using it_at_more [OF i] it_at_more [OF j] it_at_next [OF i] it_at_next [OF j] IH
      by (cases "body s (enc_elem n v @ enc_elems d @ 0 # r) (enc_elem m w @ enc_elems e' @ 0 # q)")
        (auto simp: k a b Cons split: flow.splits)
  qed
qed

lemma fuel_both: "length d < it_fuel (enc_iter d r) * it_fuel (enc_iter e q)"
proof -
  have "length d * 1 < it_fuel (enc_iter d r) * it_fuel (enc_iter e q)"
    using fuel_enc_iter [of d r] fuel_enc_iter [of e q] by (intro mult_less_le_imp_less) simp_all
  then show ?thesis by simp
qed

lemma while_both_enc:
  assumes "wf_doc d" "wf_doc e"
  shows "ret_or (\<lambda>(s, i, j). fin s (BsonObj.more i) (BsonObj.more j))
      (while_both (it_fuel (enc_iter d r) * it_fuel (enc_iter e q)) (enc_iter d r) (enc_iter e q) body s) =
    ret_or (\<lambda>s. fin s (length e < length d) (length d < length e))
      (each2 body s (elem_ptrs d (0 # r)) (elem_ptrs e (0 # q)))"
  using it_at_enc_iter [OF assms(1)] it_at_enc_iter [OF assms(2)] fuel_both by (rule while_both_at)

lemma fieldsMatch_enc:
  assumes "wf_doc d" "wf_doc e"
  shows "fieldsMatch (encode d @ r) (encode e @ q) = Inr (map fst d = map fst e)"
proof -
  let ?body = "\<lambda>_ x y. rbind (fieldName x) (\<lambda>p. rbind (fieldName y) (\<lambda>q.
            rmap (\<lambda>c. if c \<noteq> 0 then Ret False else Go ()) (strcmp p q)))"
  have "ret_or (\<lambda>_. Inr (\<not> (l < length d \<or> length d < l))) (each2 ?body () (elem_ptrs d r) (elem_ptrs e q)) =
      Inr (map fst d = map fst e)" if "elems_ok d" "elems_ok e" "l = length e" for d e r q l
    using that
  proof (induction d e arbitrary: l rule: list_induct2')
    case (4 a d b e)
    obtain n v m w where ab: "a = (n, v)" "b = (m, w)" by (cases a; cases b) auto
    have "strcmp (n @ 0 # x) (m @ 0 # y) = Inr (bytes_cmp n m)" for x y
      using 4 elem_okD(1) [of n v] elem_okD(1) [of m w] by (intro strcmp_nul) (simp_all add: ab)
    then show ?case using 4 by (simp add: ab)
  qed simp_all
  from this [OF wf_docD(4) [OF assms(1)] wf_docD(4) [OF assms(2)] refl, of "0 # r" "0 # q"] show ?thesis
    using assms while_both_enc [OF assms, of "\<lambda>_ x y. Inr (\<not> (x \<or> y))" r q ?body "()"]
    by (simp add: fieldsMatch_def)
qed

lemma appendKeys_enc:
  assumes "wf_doc pat" "wf_doc vals"
  shows "length pat = length vals \<Longrightarrow>
      writes (\<lambda>b. appendKeys b (encode pat @ r) (encode vals @ q)) (enc_elems (zip (map fst pat) (map snd vals)))"
    and "length pat \<noteq> length vals \<Longrightarrow> (\<exists>err. appendKeys b (encode pat @ r) (encode vals @ q) = Inl err)"
proof -
  let ?body = "(\<lambda>b x y. rbind (field_name x) (\<lambda>n. rmap Go (appendAs b y n)))
    :: _ \<Rightarrow> _ \<Rightarrow> _ \<Rightarrow> (_, BSONObjBuilder) flow res"
  have run: "\<exists>h. (\<forall>b. each2 ?body b (elem_ptrs d r) (elem_ptrs e q) = rmap Go (h b)) \<and>
      writes h (enc_elems (zip (map fst d) (map snd e)))" if "elems_ok d" "elems_ok e" for d e r q
    using that
  proof (induction d e rule: list_induct2')
    case (4 a d b e)
    obtain n v m w where ab: "a = (n, v)" "b = (m, w)" by (cases a; cases b) auto
    have ok: "elem_ok n v" "elem_ok m w" using 4 by (simp_all add: ab)
    obtain h where h: "\<And>b. each2 ?body b (elem_ptrs d r) (elem_ptrs e q) = rmap Go (h b)"
        "writes h (enc_elems (zip (map fst d) (map snd e)))"
      using 4 by (auto simp: ab)
    let ?y = "enc_elem m w @ enc_elems e @ q"
    have "each2 ?body c (elem_ptrs (a # d) r) (elem_ptrs (b # e) q) = rmap Go (rbind (appendAs c ?y n) h)" for c
      by (cases "appendAs c ?y n") (simp_all add: ab ok h(1))
    moreover have "writes (\<lambda>b. rbind (appendAs b ?y n) h) (enc_elems [(n, w)] @ enc_elems (zip (map fst d) (map snd e)))"
      using writes_appendAs [OF ok(2)] h(2) by (rule bob_sink.writes_bind)
    ultimately show ?case by (intro exI [of _ "\<lambda>b. rbind (appendAs b ?y n) h"]) (simp add: ab)
  qed (use bob_sink.writes_return in \<open>auto intro!: exI [of _ Inr]\<close>)
  from run [OF wf_docD(4) [OF assms(1)] wf_docD(4) [OF assms(2)], of "0 # r" "0 # q"]
  obtain h where h: "\<And>b. each2 ?body b (elem_ptrs pat (0 # r)) (elem_ptrs vals (0 # q)) = rmap Go (h b)"
    "writes h (enc_elems (zip (map fst pat) (map snd vals)))" by blast
  have eq: "appendKeys b (encode pat @ r) (encode vals @ q) =
      ret_or (\<lambda>b. verify (\<not> length vals < length pat) (verify (\<not> length pat < length vals) (Inr b))) (rmap Go (h b))" for b
    using assms while_both_enc [OF assms, of "\<lambda>b x y. verify (\<not> x) (verify (\<not> y) (Inr b))" r q ?body b]
    by (simp add: appendKeys_def h(1))
  show "writes (\<lambda>b. appendKeys b (encode pat @ r) (encode vals @ q)) (enc_elems (zip (map fst pat) (map snd vals)))"
    if "length pat = length vals"
  proof -
    have "appendKeys b (encode pat @ r) (encode vals @ q) = h b" for b
      using that by (cases "h b") (simp_all add: eq)
    then show ?thesis using h(2) by simp
  qed
  show "\<exists>err. appendKeys b (encode pat @ r) (encode vals @ q) = Inl err" if "length pat \<noteq> length vals"
    using that by (cases "h b") (auto simp: eq linorder_neq_iff verify_def)
qed

text \<open>The field at the position of a name in the index key.\<close>

lemma each_position:
  assumes "elems_ok key" "nul_free name"
  shows "each (\<lambda>j f. rbind (eoo f) (\<lambda>z.
            if z then Inr (Ret None)
            else rbind (fieldName f) (\<lambda>p. rmap (\<lambda>c. if c = 0 then Ret (Some j) else Go (j + 1))
              (strcmp p (name @ [0]))))) (int32 k) (elem_ptrs key (0 # r) @ [0 # r]) =
    Inr (Ret (map_option int32 (map_of (zip (map fst key) [k..<k + length key]) name)))"
  using assms(1)
proof (induction key arbitrary: k)
  case (Cons a key)
  obtain n v where a: "a = (n, v)" by (cases a) auto
  have k: "int32 k + 1 = int32 (Suc k)" by (simp add: int32_def)
  have "strcmp (n @ 0 # m) (name @ [0]) = Inr (bytes_cmp n name)" for m
    using Cons.prems assms(2) a by (intro strcmp_name [of n v]) simp_all
  moreover have "[k..<k + length (a # key)] = k # [Suc k..<Suc k + length key]" by (simp add: upt_rec)
  ultimately show ?case using Cons.prems Cons.IH [of "Suc k"] by (simp add: a k del: upt_Suc)
qed simp

lemma each_nth:
  assumes "elems_ok d" "k < 2 ^ 32"
  shows "\<exists>e. ret_or (\<lambda>_. Inr eooElement) (each (\<lambda>j g. rmap (\<lambda>z.
                 if z then Ret eooElement else if j = 0 then Ret g else Go (j - 1)) (eoo g))
               (int32 k) (elem_ptrs d (0 # r) @ [0 # r])) = Inr e \<and>
    (if k < length d then denotes e (fst (d ! k)) (Some (snd (d ! k))) else e = eooElement)"
  using assms
proof (induction d arbitrary: k)
  case (Cons a d)
  obtain n v where a: "a = (n, v)" by (cases a) auto
  show ?case
  proof (cases k)
    case 0
    then show ?thesis using Cons.prems by (auto simp: a int32_def denotes_def)
  next
    case (Suc k')
    have "int32 k - 1 = int32 k'" by (simp add: Suc int32_def)
    moreover have "unat (int32 k) = k"
      using Cons.prems(2) by (simp add: int32_def unat_of_nat take_bit_nat_eq_self)
    then have "int32 k \<noteq> 0" using Suc by auto
    ultimately show ?thesis
      using Cons.IH [of k'] Cons.prems by (cases "k' < length d") (simp_all add: a Suc)
  qed
qed simp

lemma getFieldUsingIndexNames_enc:
  assumes "wf_doc d" "wf_doc key" "nul_free name"
  shows "\<exists>e. getFieldUsingIndexNames (encode d @ r) name (encode key @ q) = Inr e \<and>
    (case map_of (zip (map fst key) d) name of
       None \<Rightarrow> e = eooElement
     | Some (n, v) \<Rightarrow> denotes e n (Some v))"
proof -
  have zip_pos: "map_of (zip (map fst key) d) name =
      (case map_of (zip (map fst key) [0..<length key]) name of
         None \<Rightarrow> None | Some k \<Rightarrow> if k < length d then Some (d ! k) else None)"
  proof -
    have "map_of (zip ns (drop k d)) name =
        (case map_of (zip ns [k..<k + length ns]) name of
           None \<Rightarrow> None | Some k \<Rightarrow> if k < length d then Some (d ! k) else None)" for ns k
    proof (induction ns arbitrary: k)
      case (Cons n ns)
      have "[k..<k + length (n # ns)] = k # [Suc k..<Suc k + length ns]" by (simp add: upt_rec)
      moreover have "map_of (zip ns (drop (Suc k) d)) name = None" if "length d \<le> k" using that by simp
      ultimately show ?case
        using Cons [of "Suc k"] by (cases "k < length d") (auto simp: Cons_nth_drop_Suc [symmetric] simp del: upt_Suc split: option.splits)
    qed simp
    from this [of "map fst key" 0] show ?thesis by simp
  qed
  have small: "k < 2 ^ 32" if "map_of (zip (map fst key) [0..<length key]) name = Some k" for k
  proof -
    have "k \<in> set [0..<length key]" using map_of_SomeD [OF that] by (rule set_zip_rightD)
    then show ?thesis using length_enc_elems [of key] wf_docD(3) [OF assms(2)] by (simp add: length_encode)
  qed
  define P where "P = map_of (zip (map fst key) [0..<length key]) name"
  note zip_pos = zip_pos [folded P_def] and small = small [folded P_def]
  note pos = each_position [OF wf_docD(4) [OF assms(2)] assms(3), of 0 q, unfolded add_0, folded P_def]
  show ?thesis
  proof (cases P)
    case None
    then show ?thesis using assms pos zip_pos by (simp add: getFieldUsingIndexNames_def int32_def)
  next
    case (Some k)
    obtain e where e: "ret_or (\<lambda>_. Inr eooElement) (each (\<lambda>j g. rmap (\<lambda>z.
                 if z then Ret eooElement else if j = 0 then Ret g else Go (j - 1)) (eoo g))
               (int32 k) (elem_ptrs d (0 # r) @ [0 # r])) = Inr e"
      "if k < length d then denotes e (fst (d ! k)) (Some (snd (d ! k))) else e = eooElement"
      using each_nth [OF wf_docD(4) [OF assms(1)] small [OF Some], of r] by blast
    have "getFieldUsingIndexNames (encode d @ r) name (encode key @ q) = Inr e"
      using assms pos Some e(1) by (simp add: getFieldUsingIndexNames_def int32_def)
    then show ?thesis using e(2) Some zip_pos by (cases "d ! k") auto
  qed
qed

text \<open>
  \<open>addFields\<close> stops early when it has found as many fields as were asked for and the identifier; with
  distinct names nothing that it leaves out was wanted.
\<close>

abbreviation wanted :: "byte list set \<Rightarrow> bdoc \<Rightarrow> bdoc" where
  "wanted fs d \<equiv> filter (\<lambda>(n, v). n \<in> fs) d"

abbreviation wanted_id :: "byte list set \<Rightarrow> bdoc \<Rightarrow> bdoc" where
  "wanted_id fs d \<equiv> filter (\<lambda>(n, v). n \<in> fs \<or> n = bs ''_id'') d"

lemma field_name_EOO [simp]: "field_name (0 # r) = Inr []"
  by (simp add: field_name_def fieldName_def)

lemma each_addFields:
  assumes "elems_ok d" "[] \<notin> fs" "distinct (map fst d)"
    and "k + length (wanted fs d) \<le> card fs" "gotId \<longrightarrow> bs ''_id'' \<notin> fst ` set d"
  shows "\<exists>h g. (\<forall>b. ret_or Inr (each (addFields_step fs) (b, k, gotId) (elem_ptrs d (0 # r) @ [0 # r])) =
      rmap (\<lambda>b. (b, k + length (wanted fs d), g)) (h b)) \<and> writes h (enc_elems (wanted_id fs d))"
  using assms
proof (induction d arbitrary: k gotId)
  case Nil
  then show ?case
    using bob_sink.writes_return by (intro exI [of _ Inr] exI [of _ gotId]) (simp add: addFields_step_def)
next
  case (Cons a d)
  obtain n v where a: "a = (n, v)" by (cases a) auto
  let ?e = "enc_elem n v @ enc_elems d @ 0 # r"
  have ok: "elem_ok n v" "elems_ok d" using Cons.prems(1) by (simp_all add: a)
  define k' where "k' = k + (if n \<in> fs then 1 else 0)"
  define g' where "g' = (gotId \<or> n = bs ''_id'')"
  have k': "k' + length (wanted fs d) = k + length (wanted fs (a # d))" by (simp add: k'_def a)
  obtain h g where h: "\<And>b. ret_or Inr (each (addFields_step fs) (b, k', g') (elem_ptrs d (0 # r) @ [0 # r])) =
      rmap (\<lambda>b. (b, k' + length (wanted fs d), g)) (h b)" "writes h (enc_elems (wanted_id fs d))"
    using Cons.IH [of k' g'] Cons.prems ok(2) k' by (auto simp: a g'_def)
  show ?case
  proof (cases "n \<in> fs \<or> n = bs ''_id''")
    case False
    then have "k' = k" "g' = gotId" by (simp_all add: k'_def g'_def)
    moreover have "addFields_step fs (b, k, gotId) ?e = Inr (Go (b, k, gotId))" for b
      using False ok(1) by (auto simp: addFields_step_def)
    ultimately show ?thesis
      using False h k' by (intro exI [of _ h] exI [of _ g]) (simp add: a)
  next
    case sel: True
    have step: "addFields_step fs (b, k, gotId) ?e =
        rmap (\<lambda>b. if k' = card fs \<and> g' then Ret (b, k', g') else Go (b, k', g')) (append_elem b ?e)" for b
      using sel ok(1)
      by (cases "n \<in> fs"; cases "n = bs ''_id''")
        (simp_all add: addFields_step_def k'_def g'_def Let_def del: bs_simps cong: if_cong)
    have w: "writes (\<lambda>b. append_elem b ?e) (enc_elems [(n, v)])" using ok(1) by (rule writes_append_elem)
    show ?thesis
    proof (cases "k' = card fs \<and> g'")
      case True
      then have "length (wanted fs d) = 0" using Cons.prems(4) k' by linarith
      then have none: "wanted fs d = []" by simp
      moreover have "bs ''_id'' \<notin> fst ` set d"
        using True Cons.prems(3,5) by (auto simp: g'_def a)
      ultimately have "wanted_id fs d = []" by (auto simp: filter_empty_conv image_iff)
      then have "wanted_id fs (a # d) = [(n, v)]" using sel by (simp add: a)
      then show ?thesis
        using step True none k' w
        by (intro exI [of _ "\<lambda>b. append_elem b ?e"] exI [of _ g'])
          (simp add: a rbind_def rmap_def ret_or_def split: sum.splits del: enc_elems.simps filter.simps bs_simps)
    next
      case False
      have "ret_or Inr (each (addFields_step fs) (b, k, gotId) (elem_ptrs (a # d) (0 # r) @ [0 # r])) =
          rmap (\<lambda>b. (b, k + length (wanted fs (a # d)), g)) (rbind (append_elem b ?e) h)" for b
        using step [of b] False h(1) k' by (cases "append_elem b ?e") (simp_all add: a del: filter.simps)
      moreover have "writes (\<lambda>b. rbind (append_elem b ?e) h) (enc_elems [(n, v)] @ enc_elems (wanted_id fs d))"
        using w h(2) by (rule bob_sink.writes_bind)
      moreover have "wanted_id fs (a # d) = [(n, v)] @ wanted_id fs d" using sel by (simp add: a)
      ultimately show ?thesis
        by (intro exI [of _ "\<lambda>b. rbind (append_elem b ?e) h"] exI [of _ g]) (simp only: enc_elems_append simp_thms)
    qed
  qed
qed

lemma addFields_enc:
  assumes "wf_doc d" "distinct (map fst d)" "finite fs" "[] \<notin> fs"
  shows "addFields (encode [] @ q) False (encode d @ r) fs =
    Inr (if wanted fs d = [] then (None, 0) else (Some (encode (wanted_id fs d)), length (wanted fs d)))"
proof -
  have "length (wanted fs d) = card (fst ` set (wanted fs d))"
    using distinct_card [of "map fst (wanted fs d)"] assms(2) distinct_map_filter [of fst d] by simp
  also have "\<dots> \<le> card fs" using assms(3) by (intro card_mono) auto
  finally have "0 + length (wanted fs d) \<le> card fs" by simp
  from each_addFields [OF wf_docD(4) [OF assms(1)] assms(4,2) this, of False r] obtain h g where
    h: "\<And>b. ret_or Inr (each (addFields_step fs) (b, 0, False) (elem_ptrs d (0 # r) @ [0 # r])) =
      rmap (\<lambda>b. (b, length (wanted fs d), g)) (h b)" "writes h (enc_elems (wanted_id fs d))"
    by auto
  obtain b where b: "bob_new 512 = Inr b" "builds b []" using bob_new_builds by blast
  have wf: "wf_doc (wanted_id fs d)" using assms(1) by (rule wf_doc_filter)
  then obtain b' where b': "h b = Inr b'" "builds b' (wanted_id fs d)"
    using writes_builds [OF h(2) b(2)] by auto
  show ?thesis
    using assms(1) b(1) b'(1) h(1) [of b] obj_builds [OF b'(2) wf] isEmpty_encode [OF wf_doc_Nil, of q]
    by (simp add: addFields_def del: bs_simps)
qed

text \<open>Tests of the field names.\<close>

lemma field_name_tests:
  assumes "wf_doc d" "wf_doc e"
  shows "couldBeArray (encode d @ r) = Inr (map fst d = map (\<lambda>i. numStr (int i)) [0..<length d]) \<and>
    fieldsMatch (encode d @ r) (encode e @ q) = Inr (map fst d = map fst e) \<and>
    getFieldNames (encode d @ r) {} = Inr (fst ` set d, int32 (length d))"
  using couldBeArray_enc fieldsMatch_enc getFieldNames_enc [of d r "{}"] assms by simp

section \<open>Properties\<close>

text \<open>
  C36: \<open>extractFields\<close> returns, in the order of the pattern, the values the dotted lookup finds for its
  names, with null for those that are missing when asked to; \<open>extractFieldsUnDotted\<close> does the same with
  the plain lookup and empty names.
\<close>

theorem extractFields_refines:
  assumes "wf_doc d" "wf_doc pat"
    and "wf_doc (keep_found (lookup_dotted d) fillWithNull pat)" "wf_doc (keep_found (map_of d) False pat)"
  shows "extractFields (encode d @ r) (encode pat @ q) fillWithNull =
      Inr (encode (keep_found (lookup_dotted d) fillWithNull pat)) \<and>
    extractFieldsUnDotted (encode d @ r) (encode pat @ q) =
      Inr (encode (map (\<lambda>(n, v). ([], v)) (keep_found (map_of d) False pat)))"
proof -
  have "length (enc_elems (map (\<lambda>(n, v). ([], v)) x)) \<le> length (enc_elems x)"
    "wf_elems x \<Longrightarrow> wf_elems (map (\<lambda>(n, v). ([], v)) x)" for x by (induction x) auto
  then have "wf_doc (map (\<lambda>(n, v). ([], v)) (keep_found (map_of d) False pat))"
    using assms(4) by (meson le_trans wf_doc_iff)
  then show ?thesis using extractFields_enc extractFieldsUnDotted_enc assms by blast
qed

theorem extractFields_refines_witness:
  "extractFields (encode [(bs ''a'', VObject [(bs ''b'', VInt 1)])] @ [])
     (encode [(bs ''a.b'', VInt 1), (bs ''c'', VInt 1)] @ []) True =
   Inr (encode [(bs ''a.b'', VInt 1), (bs ''c'', VNull)])"
  using extractFields_refines [of "[(bs ''a'', VObject [(bs ''b'', VInt 1)])]"
      "[(bs ''a.b'', VInt 1), (bs ''c'', VInt 1)]" True "[]" "[]"]
  by (simp add: keep_found_def lookup_dotted.simps wf_doc_iff)

text \<open>
  C38: \<open>filterFieldsUndotted\<close> keeps the fields whose names are in the filter, or those that are not, and
  \<open>replaceFieldNames\<close> gives the fields the names of another object as far as that has any; both keep
  the order and the values.
\<close>

theorem filter_and_replace:
  assumes "wf_doc d" "wf_doc flt" "wf_doc (rename_fields flt d)"
  shows "filterFieldsUndotted (encode d @ r) (encode flt @ q) inFilter =
      Inr (encode (filter (\<lambda>(n, v). (map_of flt n \<noteq> None) = inFilter) d)) \<and>
    replaceFieldNames (encode d @ r) (encode flt @ q) = Inr (encode (rename_fields flt d))"
  using filterFieldsUndotted_enc replaceFieldNames_enc assms by blast

theorem filter_and_replace_witness:
  "filterFieldsUndotted (encode [(bs ''a'', VNull), (bs ''b'', VInt 2)] @ []) (encode [(bs ''b'', VNull)] @ []) False =
     Inr (encode [(bs ''a'', VNull)]) \<and>
   replaceFieldNames (encode [(bs ''a'', VNull), (bs ''b'', VInt 2)] @ []) (encode [(bs ''b'', VNull)] @ []) =
     Inr (encode [(bs ''b'', VNull), (bs ''b'', VInt 2)])"
  using filter_and_replace [of "[(bs ''a'', VNull), (bs ''b'', VInt 2)]" "[(bs ''b'', VNull)]" "[]" "[]" False]
  by (simp add: wf_doc_iff)



end
