(* ===== verification/JsonPrint.thy ===== *)
theory JsonPrint
  imports BsonObj TextCodecs CNumbers
begin

text \<open>
  The JSON printer: \<open>escape\<close> (\<open>bson/bson-inl.h\<close>) and the \<open>jsonString\<close> of elements and objects
  (\<open>db/jsobj.cpp\<close>).  The stream is the list of bytes written.  \<open>ctime\<close>, the text the C library
  gives for a time in the local time zone, is a parameter; it is reached only with pretty printing.
  Elements and objects recurse through each other with a bound on the nesting; the length of the
  object is always enough for a well-formed one (\<open>JsonRefine\<close>).
\<close>

section \<open>Escapes\<close>

definition escape_byte :: "bool \<Rightarrow> byte \<Rightarrow> byte list" where
  "escape_byte escape_slash c =
     (if c = 34 then [92, 34]
      else if c = 92 then [92, 92]
      else if c = 47 then (if escape_slash then [92, 47] else [47])
      else if c = 8 then [92, 98]
      else if c = 12 then [92, 102]
      else if c = 10 then [92, 110]
      else if c = 13 then [92, 114]
      else if c = 9 then [92, 116]
      else if c \<le> 0x1f then bs [CHR 0x5C] @ bs ''u00'' @ toHexLower [c]
      else [c])"

definition escape :: "bool \<Rightarrow> byte list \<Rightarrow> byte list" where
  "escape escape_slash s = concat (map (escape_byte escape_slash) s)"

section \<open>Pieces of elements\<close>

text \<open>\<open>std::string(p, n)\<close>, which throws for a length that is negative as an \<open>int\<close>.\<close>

definition std_string :: "mem \<Rightarrow> int \<Rightarrow> byte list res" where
  "std_string p n = (if n < 0 then Inl (BadStatus ''length_error'') else read_bytes p (nat n))"

definition value_string :: "mem \<Rightarrow> byte list res" where
  "value_string e =
     rbind (valuestr e) (\<lambda>p. rbind (valuestrsize e) (\<lambda>n. std_string p (sint (n - 1))))"

definition asCode :: "mem \<Rightarrow> byte list res" where
  "asCode e =
     rbind (elem_type e) (\<lambda>t.
       if t = String \<or> t = Code then value_string e
       else if t = CodeWScope then
         rbind (codeWScopeCode e) (\<lambda>p. rbind (valuestr e) (\<lambda>q. rbind (get32 q) (\<lambda>n.
           std_string p (sint (n - 1)))))
       else Inl (UserAssert 10062))"

text \<open>\<open>Date_t::toTimeT\<close> and \<open>toString\<close>.\<close>

definition date_toTimeT :: "64 word \<Rightarrow> int res" where
  "date_toTimeT millis =
     verify (0 \<le> sint millis) (verify (sint millis div 1000 < 2 ^ 63 - 1) (Inr (sint millis div 1000)))"

definition date_toString :: "(int \<Rightarrow> byte list) \<Rightarrow> 64 word \<Rightarrow> byte list res" where
  "date_toString ctime millis = rmap (\<lambda>t. take 24 (ctime t)) (date_toTimeT millis)"

definition quoted :: "byte list \<Rightarrow> byte list" where
  "quoted s = 34 # s @ [34]"

datatype json_format = Strict | TenGen | JS

definition max_double :: "64 word" where
  "max_double = 0x7FEFFFFFFFFFFFFF"

definition min_double :: "64 word" where
  "min_double = 0xFFEFFFFFFFFFFFFF"

definition d_le :: "64 word \<Rightarrow> 64 word \<Rightarrow> bool" where
  "d_le a b \<longleftrightarrow> d_lt a b \<or> d_eq a b"

definition json_number :: "64 word \<Rightarrow> byte list res" where
  "json_number d =
     (if d_le min_double d \<and> d_le d max_double then Inr (fmt_g 16 d)
      else if is_NaN d then Inr (bs ''NaN'')
      else if fst (is_Inf d) then Inr (if snd (is_Inf d) = 1 then bs ''Infinity'' else bs ''-Infinity'')
      else Inl (MsgAssert 10311))"

definition json_dbref :: "json_format \<Rightarrow> mem \<Rightarrow> byte list res" where
  "json_dbref format e =
     rbind (valuestr e) (\<lambda>p. rbind (valuestrsize e) (\<lambda>n. rbind (ptr_addi p (sint n)) (\<lambda>q.
     rbind (cstr p) (\<lambda>ns. rbind (read_bytes q 12) (\<lambda>x.
       Inr ((if format = TenGen then bs ''Dbref( '' else bs ''{ '' @ quoted (bs ''$ref'') @ bs '' : '') @
            quoted ns @ bs '', '' @
            (if format \<noteq> TenGen then quoted (bs ''$id'') @ bs '' : '' else []) @
            quoted (oid_str x) @ bs '' '' @
            (if format = TenGen then bs '')'' else bs ''}'')))))))"

definition json_oid :: "json_format \<Rightarrow> byte list \<Rightarrow> byte list" where
  "json_oid format x =
     (if format = TenGen then bs ''ObjectId( '' else bs ''{ '' @ quoted (bs ''$oid'') @ bs '' : '') @
     quoted (oid_str x) @
     (if format = TenGen then bs '' )'' else bs '' }'')"

definition json_bindata :: "mem \<Rightarrow> byte list res" where
  "json_bindata e =
     rbind (elem_value e) (\<lambda>p. rbind (get32 p) (\<lambda>len. rbind (ptr_add p 4) (\<lambda>q. rbind (get8 q) (\<lambda>t.
     rbind (ptr_add p 5) (\<lambda>start. rbind (read_bytes start (nat (sint len))) (\<lambda>data.
       Inr (bs ''{ '' @ quoted (bs ''$binary'') @ bs '' : '' @ quoted (b64_encode data) @
            bs '', '' @ quoted (bs ''$type'') @ bs '' : '' @ quoted (toHexLower [t]) @ bs '' }'')))))))"

definition json_date :: "(int \<Rightarrow> byte list) \<Rightarrow> json_format \<Rightarrow> nat \<Rightarrow> 64 word \<Rightarrow> byte list res" where
  "json_date ctime format pretty d =
     rmap (\<lambda>body.
         (if format = Strict then bs ''{ '' @ quoted (bs ''$date'') @ bs '' : '' else bs ''Date( '') @ body @
         (if format = Strict then bs '' }'' else bs '' )''))
       (if pretty \<noteq> 0 then
          if d = 0 then Inr (bs ''0'') else rmap quoted (date_toString ctime d)
        else Inr (dec_int (sint d)))"

definition json_regex :: "json_format \<Rightarrow> mem \<Rightarrow> byte list res" where
  "json_regex format e =
     rbind (elem_regex e) (\<lambda>p. rbind (cstr p) (\<lambda>pat.
     rbind (elem_regexFlags e) (\<lambda>q. rbind (cstr q) (\<lambda>flags.
       Inr (if format = Strict
            then bs ''{ '' @ quoted (bs ''$regex'') @ bs '' : '' @ quoted (escape False pat) @ bs '', '' @
                 quoted (bs ''$options'') @ bs '' : '' @ quoted flags @ bs '' }''
            else bs ''/'' @ escape True pat @ bs ''/'' @
                 filter (\<lambda>c. c \<in> set (bs ''gim'')) flags)))))"

definition json_timestamp :: "json_format \<Rightarrow> mem \<Rightarrow> byte list res" where
  "json_timestamp format e =
     rbind (timestampTime e) (\<lambda>t. rbind (timestampInc e) (\<lambda>i.
       Inr (if format = TenGen
            then bs ''Timestamp( '' @ dec_nat (unat (t div 1000)) @ bs '', '' @ dec_nat (unat i) @ bs '' )''
            else bs ''{ '' @ quoted (bs ''$timestamp'') @ bs '' : { '' @ quoted (bs ''t'') @ bs '' : '' @
                 dec_nat (unat (t div 1000)) @ bs '', '' @ quoted (bs ''i'') @ bs '' : '' @
                 dec_nat (unat i) @ bs '' } }'')))"

definition indent :: "nat \<Rightarrow> byte list" where
  "indent pretty = (if pretty \<noteq> 0 then 10 # replicate (2 * pretty) 32 else [])"

definition deeper :: "nat \<Rightarrow> nat" where
  "deeper pretty = (if pretty \<noteq> 0 then pretty + 1 else 0)"

section \<open>Arrays, objects and elements\<close>

text \<open>
  The members of an array.  An element whose name is a number above the position is preceded by
  \<open>undefined\<close> for each missing position; the position is an \<open>int\<close>, so a name above its range is
  never reached and the loop does not end.
\<close>

definition json_array_step ::
  "(mem \<Rightarrow> byte list res) \<Rightarrow> nat \<Rightarrow> int \<times> byte list \<Rightarrow> mem \<Rightarrow> (int \<times> byte list, byte list) flow res" where
  "json_array_step ej pretty st e =
     rbind (eoo e) (\<lambda>z.
       if z then Inr (Ret (snd st))
       else rbind (fieldName e) (\<lambda>p. rbind (cstr p) (\<lambda>name.
         let (count, out) = st; k = fst (strtoll name); holes = nat (k - count)
         in if k > 2 ^ 31 - 1 then Inl NoReturn
            else rmap (\<lambda>t. Go (count + int holes + 1,
                    (if count = 0 then out else out @ bs '', '') @
                    concat (replicate holes (indent pretty @ bs ''undefined, '')) @ indent pretty @ t))
                  (ej e))))"

definition json_array :: "(mem \<Rightarrow> byte list res) \<Rightarrow> nat \<Rightarrow> mem \<Rightarrow> byte list res" where
  "json_array ej pretty m =
     rbind (isEmpty m) (\<lambda>z.
       if z then Inr (bs ''[]'')
       else rbind (iter_of m) (\<lambda>i.
         rmap (\<lambda>body. bs ''[ '' @ body @ bs '' ]'')
           (ret_or (\<lambda>_. Inl VerifyFailed)
             (while_moreWithEOO i (json_array_step ej pretty) (0, [])))))"

definition json_object_step ::
  "(mem \<Rightarrow> byte list res) \<Rightarrow> nat \<Rightarrow> byte list option \<Rightarrow> mem \<Rightarrow> (byte list option, byte list) flow res" where
  "json_object_step ej pretty st e =
     rbind (eoo e) (\<lambda>z.
       if z then Inr (Ret (case st of None \<Rightarrow> [] | Some out \<Rightarrow> out))
       else rmap (\<lambda>t. Go (Some
              (case st of
                 None \<Rightarrow> t
               | Some out \<Rightarrow> out @ bs '','' @ (if pretty \<noteq> 0 then indent pretty else bs '' '') @ t)))
            (ej e))"

definition json_object_with :: "(mem \<Rightarrow> byte list res) \<Rightarrow> nat \<Rightarrow> mem \<Rightarrow> byte list res" where
  "json_object_with ej pretty m =
     rbind (isEmpty m) (\<lambda>z.
       if z then Inr (bs ''{}'')
       else rbind (iter_of m) (\<lambda>i.
         rmap (\<lambda>body. bs ''{ '' @ body @ bs '' }'')
           (ret_or (\<lambda>_. Inl VerifyFailed)
             (while_moreWithEOO i (json_object_step ej pretty) None))))"

text \<open>
  The value of an element; \<open>ej format includeFieldNames pretty\<close> prints the elements inside it.
\<close>

definition json_value ::
  "(json_format \<Rightarrow> bool \<Rightarrow> nat \<Rightarrow> mem \<Rightarrow> byte list res) \<Rightarrow> (int \<Rightarrow> byte list) \<Rightarrow> json_format \<Rightarrow> nat \<Rightarrow> mem
     \<Rightarrow> byte list res" where
  "json_value ej ctime format pretty e =
     rbind (elem_type e) (\<lambda>t.
       case t of
         String \<Rightarrow> rmap (\<lambda>s. quoted (escape False s)) (value_string e)
       | Symbol \<Rightarrow> rmap (\<lambda>s. quoted (escape False s)) (value_string e)
       | NumberLong \<Rightarrow> rmap (\<lambda>n. dec_int (sint n)) (numberLong_raw e)
       | NumberInt \<Rightarrow> rbind (numberDouble e) json_number
       | NumberDouble \<Rightarrow> rbind (numberDouble e) json_number
       | Bool \<Rightarrow> rmap (\<lambda>b. if b then bs ''true'' else bs ''false'') (boolean e)
       | jstNULL \<Rightarrow> Inr (bs ''null'')
       | Undefined \<Rightarrow>
           Inr (if format = Strict then bs ''{ '' @ quoted (bs ''$undefined'') @ bs '' : true }''
                else bs ''undefined'')
       | Object \<Rightarrow>
           rbind (embeddedObject e) (json_object_with (ej format True (deeper pretty)) pretty)
       | Array \<Rightarrow>
           rbind (embeddedObject e) (json_array (ej format False (deeper pretty)) pretty)
       | DBRef \<Rightarrow> json_dbref format e
       | jstOID \<Rightarrow> rmap (json_oid format) (elem_oid e)
       | BinData \<Rightarrow> json_bindata e
       | Date \<Rightarrow> rbind (date e) (json_date ctime format pretty)
       | RegEx \<Rightarrow> json_regex format e
       | CodeWScope \<Rightarrow>
           rbind (codeWScopeObject e) (\<lambda>scope. rbind (isEmpty scope) (\<lambda>z.
             if z then asCode e
             else rbind (asCode e) (\<lambda>code.
               rmap (\<lambda>s. bs ''{ '' @ quoted (bs ''$code'') @ bs '' : '' @ code @ bs '' , '' @
                         bs '' '' @ quoted (bs ''$scope'') @ bs '' : '' @ s @ bs '' }'')
                 (json_object_with (ej Strict True 0) 0 scope))))
       | Code \<Rightarrow> asCode e
       | Timestamp \<Rightarrow> json_timestamp format e
       | MinKey \<Rightarrow> Inr (bs ''{ '' @ quoted (bs ''$minKey'') @ bs '' : 1 }'')
       | MaxKey \<Rightarrow> Inr (bs ''{ '' @ quoted (bs ''$maxKey'') @ bs '' : 1 }'')
       | _ \<Rightarrow> Inl (MsgAssert 10312))"

fun elem_jsonString ::
  "(int \<Rightarrow> byte list) \<Rightarrow> nat \<Rightarrow> json_format \<Rightarrow> bool \<Rightarrow> nat \<Rightarrow> mem \<Rightarrow> byte list res" where
  "elem_jsonString ctime 0 format includeFieldNames pretty e = Inl NoReturn"
| "elem_jsonString ctime (Suc n) format includeFieldNames pretty e =
     rbind (if includeFieldNames
            then rbind (fieldName e) (\<lambda>p. rmap (\<lambda>s. quoted (escape False s) @ bs '' : '') (cstr p))
            else Inr []) (\<lambda>name.
       rmap (\<lambda>v. name @ v) (json_value (elem_jsonString ctime n) ctime format pretty e))"

definition jsonString :: "(int \<Rightarrow> byte list) \<Rightarrow> json_format \<Rightarrow> nat \<Rightarrow> mem \<Rightarrow> byte list res" where
  "jsonString ctime format pretty m =
     json_object_with (elem_jsonString ctime (length m) format True (deeper pretty)) pretty m"

end
