(* ===== verification/JsonText.thy ===== *)
theory JsonText
  imports JsonPrint BuilderRefine
begin

text \<open>
  What the printer prints: the strict JSON text of an abstract document, and the theorem that
  \<open>jsonString\<close> returns it on every well-formed encoding whose arrays carry their positions as names.
\<close>

section \<open>The text of a document\<close>

fun join :: "byte list \<Rightarrow> byte list list \<Rightarrow> byte list" where
  "join sep [] = []"
| "join sep [x] = x"
| "join sep (x # y # xs) = x @ sep @ join sep (y # xs)"

definition sp_colon :: "byte list" where
  "sp_colon = bs '' : ''"

definition comma_sp :: "byte list" where
  "comma_sp = bs '', ''"

text \<open>A brace, a quoted key, a colon, a body and a brace: the notation for special values.\<close>

definition special :: "string \<Rightarrow> byte list \<Rightarrow> byte list" where
  "special key body = bs ''{ '' @ quoted (bs key) @ sp_colon @ body @ bs '' }''"

definition ts_secs :: "64 word \<Rightarrow> 32 word" where
  "ts_secs w = ucast (drop_bit 32 w)"

definition ts_inc :: "64 word \<Rightarrow> 32 word" where
  "ts_inc w = ucast w"

definition double_text :: "64 word \<Rightarrow> byte list" where
  "double_text w =
     (if d_nan w then bs ''NaN''
      else if d_finite w then fmt_g 16 w
      else if d_neg w then bs ''-Infinity'' else bs ''Infinity'')"

fun json_text :: "bval \<Rightarrow> byte list"
and json_members :: "(byte list \<times> bval) list \<Rightarrow> byte list list"
and json_items :: "(byte list \<times> bval) list \<Rightarrow> byte list list" where
  "json_text (VDouble w) = double_text w"
| "json_text (VString s) = quoted (escape False s)"
| "json_text (VObject d) = (if d = [] then bs ''{}'' else bs ''{ '' @ join comma_sp (json_members d) @ bs '' }'')"
| "json_text (VArray d) = (if d = [] then bs ''[]'' else bs ''[ '' @ join comma_sp (json_items d) @ bs '' ]'')"
| "json_text (VBinData t b) =
     special ''$binary'' (quoted (b64_encode b) @ comma_sp @ quoted (bs ''$type'') @ sp_colon @ quoted (toHexLower [t]))"
| "json_text VUndefined = special ''$undefined'' (bs ''true'')"
| "json_text (VOID x) = special ''$oid'' (quoted (oid_str x))"
| "json_text (VBool b) = (if b \<noteq> 0 then bs ''true'' else bs ''false'')"
| "json_text (VDate w) = special ''$date'' (dec_int (sint w))"
| "json_text VNull = bs ''null''"
| "json_text (VRegEx p f) =
     special ''$regex'' (quoted (escape False p) @ comma_sp @ quoted (bs ''$options'') @ sp_colon @ quoted f)"
| "json_text (VDBRef n x) =
     bs ''{ '' @ quoted (bs ''$ref'') @ sp_colon @ quoted n @ comma_sp @
     quoted (bs ''$id'') @ sp_colon @ quoted (oid_str x) @ bs '' }''"
| "json_text (VCode c) = c"
| "json_text (VSymbol s) = quoted (escape False s)"
| "json_text (VCodeWScope c d) =
     (if d = [] then c
      else special ''$code'' (c @ bs '' ,  '' @ quoted (bs ''$scope'') @ sp_colon @
             bs ''{ '' @ join comma_sp (json_members d) @ bs '' }''))"
| "json_text (VInt n) = dec_int (sint n)"
| "json_text (VTimestamp w) =
     special ''$timestamp'' (bs ''{ '' @ quoted (bs ''t'') @ sp_colon @ dec_nat (unat (ts_secs w)) @ comma_sp @
       quoted (bs ''i'') @ sp_colon @ dec_nat (unat (ts_inc w)) @ bs '' }'')"
| "json_text (VLong n) = dec_int (sint n)"
| "json_text VMinKey = special ''$minKey'' (bs ''1'')"
| "json_text VMaxKey = special ''$maxKey'' (bs ''1'')"
| "json_members [] = []"
| "json_members ((n, v) # d) = (quoted (escape False n) @ sp_colon @ json_text v) # json_members d"
| "json_items [] = []"
| "json_items ((n, v) # d) = json_text v # json_items d"

definition json_doc :: "bdoc \<Rightarrow> byte list" where
  "json_doc d = json_text (VObject d)"

text \<open>
  Documents the printer handles without surprise: the elements of an array are named by their
  positions, and the namespace of a reference holds no zero byte.
\<close>

definition positions_ok :: "bdoc \<Rightarrow> bool" where
  "positions_ok d \<longleftrightarrow> d = indexed 0 (map snd d)"

fun printable :: "bval \<Rightarrow> bool"
and printables :: "(byte list \<times> bval) list \<Rightarrow> bool" where
  "printable (VObject d) = printables d"
| "printable (VArray d) = (positions_ok d \<and> printables d)"
| "printable (VCodeWScope c d) = printables d"
| "printable (VDBRef n x) = nul_free n"
| "printable (VDouble w) = True"
| "printable (VString s) = True"
| "printable (VBinData t b) = True"
| "printable VUndefined = True"
| "printable (VOID x) = True"
| "printable (VBool b) = True"
| "printable (VDate w) = True"
| "printable VNull = True"
| "printable (VRegEx p f) = True"
| "printable (VCode c) = True"
| "printable (VSymbol s) = True"
| "printable (VInt n) = True"
| "printable (VTimestamp w) = True"
| "printable (VLong n) = True"
| "printable VMinKey = True"
| "printable VMaxKey = True"
| "printables [] = True"
| "printables ((n, v) # d) = (printable v \<and> printables d)"

section \<open>Values\<close>

lemma printables_iff: "printables d \<longleftrightarrow> (\<forall>(n, v) \<in> set d. printable v)"
  by (induction d) auto

lemma json_members_map:
  "json_members d = map (\<lambda>(n, v). quoted (escape False n) @ sp_colon @ json_text v) d"
  by (induction d) auto

lemma json_items_map: "json_items d = map (\<lambda>(n, v). json_text v) d"
  by (induction d) auto

lemma std_string_append:
  "length s < 2 ^ 31 \<Longrightarrow> std_string (s @ m) (sint (int32 (Suc (length s)) - 1)) = Inr s"
proof -
  assume "length s < 2 ^ 31"
  then have "sint (int32 (Suc (length s)) - 1) = int (length s)"
    using sint_int32 [of "length s"] by (simp add: int32_def)
  then show ?thesis by (simp add: std_string_def read_bytes_def)
qed

lemma value_string_enc:
  assumes "elem_ok n v" "enc_value v = enc_str s"
  shows "value_string (enc_elem n v @ m) = Inr s"
proof -
  have "length s < 2 ^ 31"
    using elem_okD(3) [OF assms(1)] assms(2) by simp
  then show ?thesis
    using assms by (simp add: value_string_def valuestr_def valuestrsize_def std_string_append)
qed

lemma json_number_double: "json_number w = Inr (double_text w)"
proof -
  have mx: "d_key max_double = 9218868437227405311" "\<not> d_nan max_double"
    and mn: "d_key min_double = - 9218868437227405311" "\<not> d_nan min_double"
    by (simp_all add: max_double_def min_double_def d_key_def d_neg_def d_mag_def d_nan_def d_exp_def d_frac_def)
  have k: "\<bar>d_key w\<bar> = int (d_mag w)"
    by (simp add: d_key_def)
  have fin: "d_finite w \<longleftrightarrow> d_mag w \<le> 9218868437227405311"
    by (auto simp: d_finite_def d_exp_def div_less_iff_less_mult)
  have in_range: "d_le min_double w \<and> d_le w max_double \<longleftrightarrow> \<not> d_nan w \<and> d_finite w"
    using mx mn k fin by (auto simp: d_le_def d_lt_def d_eq_def d_key_def split: if_splits)
  show ?thesis
  proof (cases "d_nan w")
    case True
    then show ?thesis
      using in_range by (auto simp: json_number_def double_text_def is_NaN_iff)
  next
    case False
    have z: "d_lt w 0 \<longleftrightarrow> d_neg w" if "\<not> d_finite w"
      using that False fin
      by (auto simp: d_lt_def d_nan_def d_key_def d_mag_def d_neg_def d_exp_def d_frac_def)
    show ?thesis
      using False in_range z
      by (auto simp: json_number_def double_text_def is_NaN_iff is_Inf_def d_eq_def)
  qed
qed

section \<open>Loops\<close>

lemma each_doc_json_object:
  assumes "\<And>n v m. (n, v) \<in> set d \<Longrightarrow> ej (enc_elem n v @ m) = Inr (t n v)"
  shows "each (json_object_step ej 0) st (elem_ptrs d r @ [0 # q]) =
    Inr (Ret (case st of
        None \<Rightarrow> join comma_sp (map (\<lambda>(n, v). t n v) d)
      | Some out \<Rightarrow> join comma_sp (out # map (\<lambda>(n, v). t n v) d)))"
  using assms
proof (induction d arbitrary: st)
  case Nil
  then show ?case by (auto simp: json_object_step_def split: option.splits)
next
  case (Cons a d)
  obtain n v where a: "a = (n, v)" by (cases a) auto
  have s: "json_object_step ej 0 st (enc_elem n v @ m) =
      Inr (Go (Some (case st of None \<Rightarrow> t n v | Some out \<Rightarrow> out @ comma_sp @ t n v)))" for m
    using Cons.prems [of n v] by (auto simp: a json_object_step_def comma_sp_def split: option.splits)
  have j: "join sep ((x @ sep @ y) # zs) = join sep (x # y # zs)" for sep x y zs
    by (cases zs) auto
  show ?case
    using Cons.IH Cons.prems by (auto simp: a s j split: option.splits)
qed

lemma json_object_with_encode:
  assumes "wf_doc d" "\<And>n v m. (n, v) \<in> set d \<Longrightarrow> ej (enc_elem n v @ m) = Inr (t n v)"
  shows "json_object_with ej 0 (encode d @ r) =
    Inr (if d = [] then bs ''{}'' else bs ''{ '' @ join comma_sp (map (\<lambda>(n, v). t n v) d) @ bs '' }'')"
  using assms
  by (simp add: json_object_with_def isEmpty_encode each_doc_json_object [where t = t] del: bs_simps)

lemma isdigit_ends: "\<not> isdigit 0"
  by (simp add: isdigit_def)

lemma strtoll_numStr:
  assumes "i < 2 ^ 63"
  shows "fst (strtoll (numStr (int i))) = int i"
proof -
  have "scan_int (dec_nat i) = Some (False, i, [])"
  proof -
    obtain c t where c: "dec_nat i = c # t" "isdigit c" by (rule dec_nat_hd)
    have td: "takeWhile isdigit (dec_nat i) = dec_nat i" "dropWhile isdigit (dec_nat i) = []"
      using isdigit_dec_nat by (auto simp: takeWhile_eq_all_conv dropWhile_eq_Nil_conv)
    have "skip_space (dec_nat i) = dec_nat i" "extractSign (dec_nat i) = (False, dec_nat i)"
      using c by (simp_all add: skip_space_def extractSign_def digit_not_sign_space)
    then show ?thesis
      unfolding scan_int_def using digits_dec_nat [of i] by (simp add: td)
  qed
  then show ?thesis
    using assms by (simp add: numStr_def dec_int_def strtoll_def)
qed

lemma each_json_array:
  assumes "\<And>n v m. (n, v) \<in> set d \<Longrightarrow> ej (enc_elem n v @ m) = Inr (t v)"
    and "d = indexed k vs" "k + length vs < 2 ^ 31"
  shows "each (json_array_step ej 0) (int k, out) (elem_ptrs d r @ [0 # q]) =
    Inr (Ret (if k = 0 then out @ join comma_sp (map t vs) else join comma_sp (out # map t vs)))"
  using assms
proof (induction vs arbitrary: d k out)
  case Nil
  then show ?case by (simp add: json_array_step_def)
next
  case (Cons v vs)
  have fst0: "fst (strtoll (numStr (int k))) = int k"
    using Cons.prems(3) by (intro strtoll_numStr) simp
  have s: "json_array_step ej 0 (int k, out) (enc_elem (numStr (int k)) v @ m) =
      Inr (Go (int (Suc k), (if k = 0 then out else out @ comma_sp) @ t v))" for m
    using Cons.prems by (simp add: json_array_step_def cstr_nul fst0 indent_def comma_sp_def)
  have j: "join sep ((x @ sep @ y) # zs) = join sep (x # y # zs)" for sep x y zs
    by (cases zs) auto
  have ih: "each (json_array_step ej 0) (int (Suc k), out') (elem_ptrs (indexed (Suc k) vs) r @ [0 # q]) =
      Inr (Ret (join comma_sp (out' # map t vs)))" for out'
    using Cons.IH [of "indexed (Suc k) vs" "Suc k" out'] Cons.prems by auto
  have j0: "join sep ((x @ y) # zs) = x @ join sep (y # zs)" for sep x y zs
    by (cases zs) auto
  show ?case
    using ih [of "(if k = 0 then out else out @ comma_sp) @ t v"]
    by (auto simp: Cons.prems(2) s j j0 simp del: of_nat_Suc)
qed

lemma json_array_encode:
  assumes "wf_doc d" "positions_ok d" "\<And>n v m. (n, v) \<in> set d \<Longrightarrow> ej (enc_elem n v @ m) = Inr (t v)"
  shows "json_array ej 0 (encode d @ r) =
    Inr (if d = [] then bs ''[]'' else bs ''[ '' @ join comma_sp (map (\<lambda>(n, v). t v) d) @ bs '' ]'')"
proof -
  have d: "d = indexed 0 (map snd d)"
    using assms(2) by (simp add: positions_ok_def)
  have l: "0 + length (map snd d) < 2 ^ 31"
    using wf_docD(3) [OF assms(1)] length_enc_elems [of d] by (simp add: length_encode)
  have "each (json_array_step ej 0) (0, []) (elem_ptrs d (0 # r) @ [0 # r]) =
      Inr (Ret (join comma_sp (map (\<lambda>(n, v). t v) d)))"
    using each_json_array [of d ej t 0 "map snd d" "[]", OF assms(3) d l]
    by (simp add: comp_def case_prod_beta')
  then show ?thesis
    using assms(1) by (simp add: json_array_def isEmpty_encode del: bs_simps)
qed

section \<open>The printer prints the text\<close>

text \<open>One element with its name, when it is asked for.\<close>

definition elem_text :: "bool \<Rightarrow> byte list \<Rightarrow> bval \<Rightarrow> byte list" where
  "elem_text incl n v = (if incl then quoted (escape False n) @ sp_colon else []) @ json_text v"

lemma elem_texts: "map (\<lambda>(n, v). elem_text True n v) d = json_members d"
  by (induction d) (auto simp: elem_text_def)

lemma asCode_enc:
  assumes "elem_ok n v" "v = VCode c"
  shows "asCode (enc_elem n v @ m) = Inr c"
  using assms value_string_enc [OF assms(1), of c] by (simp add: asCode_def)

lemma codeWScope_enc:
  assumes "elem_ok n (VCodeWScope c d)" "wf_doc d"
  shows "asCode (enc_elem n (VCodeWScope c d) @ m) = Inr c"
    and "codeWScopeObject (enc_elem n (VCodeWScope c d) @ m) = Inr (encode d @ m)"
proof -
  let ?v = "VCodeWScope c d"
  have l: "length c < 2 ^ 31" "length c + 5 < 2 ^ 31"
    using elem_okD(3) [OF assms(1)] by simp_all
  have v: "elem_value (enc_elem n ?v @ m) =
      Inr (put32 (int32 (length (enc_str c) + length (encode d) + 4)) @ enc_str c @ encode d @ m)"
    using assms(1) by (simp add: encode_def)
  have p4: "ptr_add (put32 w @ enc_str c @ x) 4 = Inr (enc_str c @ x)" for w x
    by (simp add: ptr_add_def)
  have p8: "ptr_add (put32 w @ enc_str c @ x) (4 + 4) = Inr (c @ 0 # x)" for w x
    by (simp add: ptr_add_def enc_str_def)
  show "asCode (enc_elem n ?v @ m) = Inr c"
    using std_string_append [OF l(1), of "0 # encode d @ m"]
    by (simp add: asCode_def codeWScopeCode_def valuestr_def v p4 p8 [simplified])
  have "sint (int32 (length c + 1)) = int (length c + 1)"
    by (rule sint_int32) (use l in simp)
  then have "ptr_addi (put32 w @ enc_str c @ encode d @ m) (4 + 4 + sint (int32 (length c + 1))) = Inr (encode d @ m)" for w
    by (simp add: ptr_addi_def ptr_add_def nat_add_distrib enc_str_def)
  then show "codeWScopeObject (enc_elem n ?v @ m) = Inr (encode d @ m)"
    by (simp add: codeWScopeObject_def v p4 bson_obj_encode [OF assms(2)])
qed

lemma le_bytes_add: "le_bytes (j + k) n = le_bytes j n @ le_bytes k (n div 256 ^ j)"
  by (induction j arbitrary: n) (auto simp: div_mult2_eq)

lemma put64_halves: "put64 w = put32 (ts_inc w) @ put32 (ts_secs w)"
proof -
  have s: "unat (ts_secs w) = unat w div 2 ^ 32"
  proof -
    have "unat w div 2 ^ 32 < 2 ^ 32"
      using unsigned_less [of w, where ?'a = nat] by (intro less_mult_imp_div_less) simp
    then show ?thesis
      by (simp add: ts_secs_def unsigned_ucast_eq unat_drop_bit_eq drop_bit_eq_div take_bit_eq_mod unat_div)
  qed
  have i: "le_bytes 4 (unat (ts_inc w)) = le_bytes 4 (unat w)"
    using le_bytes_le_nat [of "le_bytes 4 (unat w)"]
    by (simp add: le_nat_le_bytes ts_inc_def unsigned_ucast_eq take_bit_eq_mod)
  show ?thesis
    using le_bytes_add [of 4 4 "unat w"] by (simp add: put64_def put32_def s i)
qed

lemma ucast_thousand:
  fixes t :: "32 word"
  shows "unat ((ucast t :: 64 word) * 1000 div 1000) = unat (ucast t :: 64 word)"
    and "unat (ucast t :: 64 word) = unat t"
proof -
  have l: "unat t < 2 ^ 32" using unsigned_less [of t, where ?'a = nat] by simp
  then show t: "unat (ucast t :: 64 word) = unat t"
    by (simp add: unsigned_ucast_eq take_bit_nat_eq_self_iff less_trans [OF unsigned_less])
  from l have "unat ((ucast t :: 64 word) * 1000) = unat t * 1000"
    by (simp add: unat_word_ariths t)
  then show "unat ((ucast t :: 64 word) * 1000 div 1000) = unat (ucast t :: 64 word)"
    by (simp add: unat_div t)
qed

lemma json_timestamp_enc:
  assumes "elem_ok n (VTimestamp w)"
  shows "json_timestamp Strict (enc_elem n (VTimestamp w) @ m) = Inr (json_text (VTimestamp w))"
proof -
  have p: "ptr_add (put64 w @ m) 4 = Inr (put32 (ts_secs w) @ m)"
    by (simp add: put64_halves ptr_add_def)
  have g: "get32 (put64 w @ m) = Inr (ts_inc w)"
    by (simp add: put64_halves)
  show ?thesis
    using assms ucast_thousand [of "ts_secs w"]
    by (simp add: json_timestamp_def timestampTime_def timestampInc_def p g special_def sp_colon_def comma_sp_def)
qed

lemma json_value_leaf:
  assumes "elem_ok n v" "length (enc_value v) \<le> BSONObjMaxInternalSize" "printable v"
    and "\<forall>d. v \<noteq> VObject d \<and> v \<noteq> VArray d" "\<forall>c d. v \<noteq> VCodeWScope c d"
  shows "json_value ej ctime Strict 0 (enc_elem n v @ m) = Inr (json_text v)"
proof (cases v)
  case (VTimestamp w)
  then show ?thesis
    using json_timestamp_enc assms(1) by (simp add: json_value_def)
next
  case (VString x)
  then show ?thesis
    using value_string_enc [OF assms(1)] by (simp add: json_value_def)
next
  case (VSymbol x)
  then show ?thesis
    using value_string_enc [OF assms(1)] by (simp add: json_value_def)
next
  case (VCode x)
  then show ?thesis
    using asCode_enc [OF assms(1)] by (simp add: json_value_def)
next
  case (VDouble w)
  then show ?thesis
    using assms(1) json_number_double
    by (simp add: json_value_def numberDouble_def numberDouble_raw_def)
next
  case (VInt k)
  have "\<bar>sint k\<bar> < 2 ^ 53"
    using sint_greater_eq [of k] sint_less [of k] by auto
  from fmt_g_int [OF this] d_scaled_double_of_int(2) [OF this] double_of_int_finite [OF this]
  show ?thesis
    using VInt assms(1) json_number_double
    by (simp add: json_value_def numberDouble_def numberInt_raw_def double_text_def)
next
  case (VOID x)
  then show ?thesis
    using assms(1) elem_okD(2) [OF assms(1)]
    by (simp add: json_value_def elem_oid_def read_bytes_def json_oid_def special_def sp_colon_def)
next
  case (VDBRef ns x)
  have x: "length x = 12" and ns: "nul_free ns"
    using VDBRef elem_okD(2) [OF assms(1)] assms(3) by simp_all
  have "sint (int32 (length ns + 1)) = int (length ns + 1)"
    using VDBRef elem_okD(3) [OF assms(1)] by (intro sint_int32) simp
  then have "ptr_addi (ns @ 0 # x @ m) (sint (int32 (length ns + 1))) = Inr (x @ m)"
    by (simp add: ptr_addi_def ptr_add_def nat_add_distrib)
  then show ?thesis
    using VDBRef assms(1) x ns
    by (simp add: json_value_def json_dbref_def valuestr_def valuestrsize_def cstr_nul read_bytes_def
        sp_colon_def comma_sp_def)
next
  case (VBinData t b)
  have "sint (int32 (length b)) = int (length b)"
    using VBinData elem_okD(3) [OF assms(1)] by (intro sint_int32) simp
  then show ?thesis
    using VBinData assms(1)
    by (simp add: json_value_def json_bindata_def ptr_add_def read_bytes_def special_def sp_colon_def comma_sp_def)
next
  case (VRegEx p f)
  have "nul_free p" "nul_free f"
    using VRegEx elem_okD(2) [OF assms(1)] by simp_all
  then show ?thesis
    using VRegEx assms(1)
    by (simp add: json_value_def json_regex_def elem_regex_def elem_regexFlags_def strlen_nul cstr_nul
        ptr_add_def special_def sp_colon_def comma_sp_def)
next
  case (VDate w)
  then show ?thesis
    using assms(1) by (simp add: json_value_def date_def json_date_def special_def sp_colon_def)
next
  case (VLong w)
  then show ?thesis
    using assms(1) by (simp add: json_value_def numberLong_raw_def)
next
  case (VBool b)
  then show ?thesis
    using assms(1) by (simp add: json_value_def boolean_def)
qed (use assms(4,5) in \<open>simp_all add: json_value_def special_def sp_colon_def\<close>)

lemma elem_jsonString_enc:
  assumes "elem_ok n v" "length (enc_value v) \<le> BSONObjMaxInternalSize" "printable v"
    and "length (enc_value v) < N"
  shows "elem_jsonString ctime N Strict incl 0 (enc_elem n v @ m) = Inr (elem_text incl n v)"
  using assms
proof (induction N arbitrary: n v incl m)
  case (Suc N)
  let ?ej = "elem_jsonString ctime N"
  have name: "(if incl then rbind (fieldName (enc_elem n v @ m))
      (\<lambda>p. rmap (\<lambda>s. quoted (escape False s) @ bs '' : '') (cstr p)) else Inr []) =
      Inr (if incl then quoted (escape False n) @ sp_colon else [])"
    using elem_okD(1) [OF Suc.prems(1)] by (simp add: cstr_nul sp_colon_def)
  have sub: "?ej Strict i 0 (enc_elem n' v' @ m') = Inr (elem_text i n' v')"
    if "wf_doc d" "printables d" "length (enc_elems d) < N" "(n', v') \<in> set d" for d i n' v' m'
  proof (rule Suc.IH)
    show "elem_ok n' v'" using wf_docD(4) [OF that(1)] that(4) by (auto simp: elems_ok_def)
    show "length (enc_value v') \<le> BSONObjMaxInternalSize" using enc_value_bound [OF that(1,4)] by simp
    show "printable v'" using that(2,4) by (auto simp: printables_iff)
    show "length (enc_value v') < N" using enc_value_in_elems [OF that(4)] that(3) by simp
  qed
  note wf = sub_wf_doc [OF elem_okD(2) [OF Suc.prems(1)] Suc.prems(2)]
  have "json_value ?ej ctime Strict 0 (enc_elem n v @ m) = Inr (json_text v)"
  proof (cases v)
    case (VObject d)
    have "json_object_with (?ej Strict True 0) 0 (encode d @ m) =
        Inr (if d = [] then bs ''{}'' else bs ''{ '' @ join comma_sp (map (\<lambda>(n, v). elem_text True n v) d) @ bs '' }'')"
      using VObject wf Suc.prems(3,4) by (intro json_object_with_encode sub) auto
    then show ?thesis
      using VObject Suc.prems(1) wf embeddedObject_enc [of n v d m]
      by (simp add: json_value_def deeper_def elem_texts del: bs_simps)
  next
    case (VArray d)
    have "json_array (?ej Strict False 0) 0 (encode d @ m) =
        Inr (if d = [] then bs ''[]'' else bs ''[ '' @ join comma_sp (map (\<lambda>(n, v). json_text v) d) @ bs '' ]'')"
      using VArray wf Suc.prems(3,4) sub [of d _ _ False] by (intro json_array_encode) (auto simp: elem_text_def)
    then show ?thesis
      using VArray Suc.prems(1) wf embeddedObject_enc [of n v d m]
      by (simp add: json_value_def deeper_def json_items_map del: bs_simps)
  next
    case (VCodeWScope c d)
    have "json_object_with (?ej Strict True 0) 0 (encode d @ m) =
        Inr (if d = [] then bs ''{}'' else bs ''{ '' @ join comma_sp (map (\<lambda>(n, v). elem_text True n v) d) @ bs '' }'')"
      using VCodeWScope wf Suc.prems(3,4) by (intro json_object_with_encode sub) auto
    then show ?thesis
      using VCodeWScope Suc.prems(1) wf codeWScope_enc [of n c d m]
      by (cases "d = []") (simp_all add: json_value_def isEmpty_encode elem_texts special_def sp_colon_def)
  qed (use Suc.prems(1-3) in \<open>simp_all only: json_value_leaf bval.distinct not_False_eq_True simp_thms\<close>)
  then show ?case
    by (simp add: name elem_text_def)
qed simp

lemma jsonString_encode:
  assumes "wf_doc d" "printables d"
  shows "jsonString ctime Strict 0 (encode d @ r) = Inr (json_doc d)"
proof -
  have "elem_jsonString ctime (length (encode d @ r)) Strict True 0 (enc_elem n v @ m) = Inr (elem_text True n v)"
    if "(n, v) \<in> set d" for n v m
  proof (rule elem_jsonString_enc)
    show "elem_ok n v" using wf_docD(4) [OF assms(1)] that by (auto simp: elems_ok_def)
    show "length (enc_value v) \<le> BSONObjMaxInternalSize" using enc_value_bound [OF assms(1) that] by simp
    show "printable v" using assms(2) that by (auto simp: printables_iff)
    show "length (enc_value v) < length (encode d @ r)"
      using enc_value_in_elems [OF that] by (simp add: length_encode)
  qed
  then have "json_object_with (elem_jsonString ctime (length (encode d @ r)) Strict True 0) 0 (encode d @ r) =
      Inr (if d = [] then bs ''{}'' else bs ''{ '' @ join comma_sp (map (\<lambda>(n, v). elem_text True n v) d) @ bs '' }'')"
    using assms(1) by (intro json_object_with_encode)
  then show ?thesis
    by (simp add: jsonString_def deeper_def json_doc_def elem_texts del: bs_simps)
qed

section \<open>Property\<close>



end
