(* ===== verification/NestedOps.thy ===== *)
theory NestedOps
  imports ObjExtract JsonText
begin

text \<open>
  The operations of \<open>db/jsobj.cpp\<close> that go down into nested objects: the test whether an object may be
  stored, flattening to dotted names, and the two lookups of dotted names that look inside arrays.
  Those that call themselves on an embedded object carry fuel; an embedded object of a document is
  shorter than the document, so the length of the buffer is enough.
\<close>

section \<open>Operations\<close>

definition okForStorage_step :: "(mem \<Rightarrow> bool res) \<Rightarrow> unit \<Rightarrow> mem \<Rightarrow> (unit, bool) flow res" where
  "okForStorage_step okr s e =
     rbind (field_name e) (\<lambda>name.
       if 46 \<in> set name \<or> 36 \<in> set name
       then Inr (Ret (name = bs ''$ref'' \<or> name = bs ''$id''))
       else rbind (elem_type e) (\<lambda>t.
         if name = bs ''_id'' \<and> t = RegEx then Inr (Ret False)
         else rbind (mayEncapsulate e) (\<lambda>m.
           if m
           then rbind
             (if t = Object \<or> t = Array then rbind (embeddedObject e) okr
              else if t = CodeWScope then rbind (codeWScopeObject e) okr
              else Inl (UserAssert 12579))
             (\<lambda>ok. Inr (if ok then Go () else Ret False))
           else Inr (Go ()))))"

fun okForStorage_fuel :: "nat \<Rightarrow> mem \<Rightarrow> bool res" where
  "okForStorage_fuel 0 ob = Inl NoReturn"
| "okForStorage_fuel (Suc k) ob =
     rbind (iter_of ob) (\<lambda>i. ret_or (\<lambda>_. Inr True)
       (while_more i (okForStorage_step (okForStorage_fuel k)) ()))"

definition okForStorage :: "mem \<Rightarrow> bool res" where
  "okForStorage ob = okForStorage_fuel (length ob + 1) ob"

definition nested2dotted_step ::
  "(BSONObjBuilder \<Rightarrow> mem \<Rightarrow> byte list \<Rightarrow> BSONObjBuilder res) \<Rightarrow> byte list \<Rightarrow> BSONObjBuilder \<Rightarrow> mem
     \<Rightarrow> (BSONObjBuilder, BSONObjBuilder) flow res" where
  "nested2dotted_step n2d base b e =
     rmap Go (rbind (elem_type e) (\<lambda>t. rbind (field_name e) (\<lambda>name.
       if t = Object
       then rbind (embeddedObject e) (\<lambda>sub. n2d b sub (base @ name @ bs ''.''))
       else appendAs b e (base @ name))))"

fun nested2dotted_fuel :: "nat \<Rightarrow> BSONObjBuilder \<Rightarrow> mem \<Rightarrow> byte list \<Rightarrow> BSONObjBuilder res" where
  "nested2dotted_fuel 0 b ob base = Inl NoReturn"
| "nested2dotted_fuel (Suc k) b ob base =
     rbind (iter_of ob) (\<lambda>i. ret_or Inr
       (while_more i (nested2dotted_step (nested2dotted_fuel k) base) b))"

definition nested2dotted :: "BSONObjBuilder \<Rightarrow> mem \<Rightarrow> byte list \<Rightarrow> BSONObjBuilder res" where
  "nested2dotted b ob base = nested2dotted_fuel (length ob + 1) b ob base"

text \<open>
  \<open>_getFieldsDotted\<close> is a template over the collection; \<open>ins\<close> is the \<open>insert\<close> of the collection.  The
  scan for digits stops at the first other character, which has to be a dot.
\<close>

definition all_digits_part :: "byte list \<Rightarrow> bool" where
  "all_digits_part nxt =
     (case nxt of
        [] \<Rightarrow> False
      | c # cs \<Rightarrow> isdigit c \<and> (case dropWhile isdigit cs of [] \<Rightarrow> True | x # _ \<Rightarrow> x = 46))"

definition insert_elems :: "(mem \<Rightarrow> 'c \<Rightarrow> 'c res) \<Rightarrow> mem \<Rightarrow> 'c \<Rightarrow> 'c res" where
  "insert_elems ins ob ret =
     rbind (iter_of ob) (\<lambda>i. ret_or Inr (while_more i (\<lambda>ret e. rmap Go (ins e ret)) ret))"

definition descend_step :: "(mem \<Rightarrow> 'c \<Rightarrow> 'c res) \<Rightarrow> 'c \<Rightarrow> mem \<Rightarrow> ('c, 'c) flow res" where
  "descend_step gfd ret e2 =
     rbind (elem_type e2) (\<lambda>t.
       if t = Object \<or> t = Array then rmap Go (rbind (embeddedObject e2) (\<lambda>ob. gfd ob ret))
       else Inr (Go ret))"

function getFieldsDotted ::
  "(mem \<Rightarrow> 'c \<Rightarrow> 'c res) \<Rightarrow> bool \<Rightarrow> byte list \<Rightarrow> mem \<Rightarrow> 'c \<Rightarrow> 'c res" where
  "getFieldsDotted ins expandLastArray name =
     (\<lambda>ob ret.
       rbind (getField ob name) (\<lambda>e. rbind (elem_type e) (\<lambda>t.
         if t = EOO then
           (case split_at 46 name of
              None \<Rightarrow> Inr ret
            | Some (left, nxt) \<Rightarrow>
                rbind (getField ob left) (\<lambda>e. rbind (elem_type e) (\<lambda>t.
                  if t = Object then
                    rbind (embeddedObject e) (\<lambda>sub. getFieldsDotted ins expandLastArray nxt sub ret)
                  else if t = Array then
                    if all_digits_part nxt then
                      rbind (embeddedObject e) (\<lambda>sub. getFieldsDotted ins expandLastArray nxt sub ret)
                    else rbind (embeddedObject e) (\<lambda>sub. rbind (iter_of sub) (\<lambda>i. ret_or Inr
                      (while_more i (descend_step (getFieldsDotted ins expandLastArray nxt)) ret)))
                  else Inr ret)))
         else if t = Array \<and> expandLastArray then rbind (embeddedObject e) (\<lambda>sub. insert_elems ins sub ret)
         else ins e ret)))"
  by pat_completeness auto
termination
  by (relation "measure (\<lambda>(ins, x, name). length name)") (auto dest: split_at_shorter)

declare getFieldsDotted.simps [simp del]

text \<open>\<open>getFieldDottedOrArray\<close>: the element and what is left of the name.\<close>

function getFieldDottedOrArray :: "mem \<Rightarrow> byte list \<Rightarrow> (mem \<times> byte list) res" where
  "getFieldDottedOrArray ob name =
     (let (left, nxt) = (case split_at 46 name of Some (l, r) \<Rightarrow> (l, r) | None \<Rightarrow> (name, []))
      in rbind (getField ob left) (\<lambda>sub. rbind (elem_type sub) (\<lambda>t.
        if t = EOO then Inr (eooElement, nxt)
        else if t = Array \<or> nxt = [] then Inr (sub, nxt)
        else if t = Object then rbind (embeddedObject sub) (\<lambda>ob. getFieldDottedOrArray ob nxt)
        else Inr (eooElement, nxt))))"
  by pat_completeness auto
termination
  by (relation "measure (\<lambda>(ob, name). length name)") (auto dest: split_at_shorter split: option.splits)

declare getFieldDottedOrArray.simps [simp del]

section \<open>Storable documents\<close>

fun ok_value :: "bval \<Rightarrow> bool"
and ok_elems :: "(byte list \<times> bval) list \<Rightarrow> bool" where
  "ok_value (VObject d) = ok_elems d"
| "ok_value (VArray d) = ok_elems d"
| "ok_value (VCodeWScope c d) = ok_elems d"
| "ok_value (VOID x) = True"
| "ok_value (VDBRef n x) = True"
| "ok_value (VRegEx p f) = True"
| "ok_value (VDouble w) = True"
| "ok_value (VString s) = True"
| "ok_value (VBinData t b) = True"
| "ok_value VUndefined = True"
| "ok_value (VBool b) = True"
| "ok_value (VDate w) = True"
| "ok_value VNull = True"
| "ok_value (VCode c) = True"
| "ok_value (VSymbol s) = True"
| "ok_value (VInt n) = True"
| "ok_value (VTimestamp w) = True"
| "ok_value (VLong n) = True"
| "ok_value VMinKey = True"
| "ok_value VMaxKey = True"
| "ok_elems [] = True"
| "ok_elems ((n, v) # d) =
     (if 46 \<in> set n \<or> 36 \<in> set n then n = bs ''$ref'' \<or> n = bs ''$id''
      else \<not> (n = bs ''_id'' \<and> vtype v = RegEx) \<and> ok_value v \<and> ok_elems d)"

definition ok_flow :: "byte list \<Rightarrow> bval \<Rightarrow> (unit, bool) flow" where
  "ok_flow n v =
     (if 46 \<in> set n \<or> 36 \<in> set n then Ret (n = bs ''$ref'' \<or> n = bs ''$id'')
      else if n = bs ''_id'' \<and> vtype v = RegEx \<or> \<not> ok_value v then Ret False else Go ())"

lemma each_doc_ok: "ret_or (\<lambda>_. Inr True) (each_doc (\<lambda>_ n v. Inr (ok_flow n v)) () d) = Inr (ok_elems d)"
proof (induction d)
  case (Cons a d)
  obtain n v where a: "a = (n, v)" by (cases a) auto
  show ?case using Cons by (auto simp: a ok_flow_def simp del: bs_simps)
qed simp

text \<open>The documents inside a document, and what they have to do with it.\<close>

fun inner_doc :: "bval \<Rightarrow> bdoc option" where
  "inner_doc (VObject d) = Some d"
| "inner_doc (VArray d) = Some d"
| "inner_doc (VCodeWScope c d) = Some d"
| "inner_doc _ = None"

lemma inner_doc_less: "inner_doc v = Some s \<Longrightarrow> length (encode s) \<le> length (enc_value v)"
  by (cases v rule: inner_doc.cases) (auto simp: encode_def [symmetric])

lemma inner_doc_wf:
  assumes "wf_doc d" "(n, v) \<in> set d" "inner_doc v = Some s"
  shows "wf_doc s" "length (encode s) < length (encode d)"
proof -
  have "length (enc_value v) \<le> length (enc_elems d)" using assms(2) by (rule enc_value_in_elems)
  then show "length (encode s) < length (encode d)"
    using inner_doc_less [OF assms(3)] by (simp add: length_encode)
  moreover have "wf_elems s"
    using enc_value_bound(2) [OF assms(1,2)] assms(3) by (cases v rule: inner_doc.cases) auto
  ultimately show "wf_doc s" using assms(1) by (simp add: wf_doc_def)
qed

lemma okForStorage_fuel_enc:
  "wf_doc d \<Longrightarrow> length (encode d) < k \<Longrightarrow> okForStorage_fuel k (encode d @ r) = Inr (ok_elems d)"
proof (induction k arbitrary: d r)
  case (Suc k)
  have body: "okForStorage_step (okForStorage_fuel k) s (enc_elem n v @ m) = Inr (ok_flow n v)"
    if "(n, v) \<in> set d" for s n v m
  proof -
    have ok: "elem_ok n v" using Suc.prems(1) that by (rule wf_doc_elem_ok)
    have sub: "okForStorage_fuel k (encode s @ m) = Inr (ok_elems s)" "wf_doc s" if "inner_doc v = Some s" for s
      using inner_doc_wf [OF Suc.prems(1) \<open>(n, v) \<in> set d\<close> that] Suc.prems(2) Suc.IH by simp_all
    have step: "okForStorage_step (okForStorage_fuel k) s (enc_elem n v @ m) =
        (if 46 \<in> set n \<or> 36 \<in> set n then Inr (Ret (n = bs ''$ref'' \<or> n = bs ''$id''))
         else if n = bs ''_id'' \<and> vtype v = RegEx then Inr (Ret False)
         else if mayEncapsulate_type (vtype v)
         then rbind
             (if vtype v = Object \<or> vtype v = Array then rbind (embeddedObject (enc_elem n v @ m)) (okForStorage_fuel k)
              else if vtype v = CodeWScope then rbind (codeWScopeObject (enc_elem n v @ m)) (okForStorage_fuel k)
              else Inl (UserAssert 12579))
             (\<lambda>ok. Inr (if ok then Go () else Ret False))
         else Inr (Go ()))"
      using ok by (simp add: okForStorage_step_def mayEncapsulate_def del: bs_simps)
    show ?thesis
    proof (cases "inner_doc v")
      case None
      then have "\<not> mayEncapsulate_type (vtype v)" "ok_value v" by (cases v; simp)+
      then show ?thesis unfolding step ok_flow_def by (simp del: bs_simps)
    next
      case (Some s)
      have w: "wf_doc s" using sub(2) Some by blast
      have e: "v = VObject s \<or> v = VArray s \<Longrightarrow> embeddedObject (enc_elem n v @ m) = Inr (encode s @ m)"
        using embeddedObject_enc [OF ok w] by blast
      have c: "v = VCodeWScope c s \<Longrightarrow> codeWScopeObject (enc_elem n v @ m) = Inr (encode s @ m)" for c
        using codeWScope_enc ok w by blast
      from Some consider (o) "v = VObject s" | (a) "v = VArray s" | (c) x where "v = VCodeWScope x s"
        by (cases v rule: inner_doc.cases) auto
      then show ?thesis
        unfolding step ok_flow_def using sub(1) [OF Some] e c by cases (auto simp del: bs_simps)
    qed
  qed
  have "okForStorage_fuel (Suc k) (encode d @ r) =
      ret_or (\<lambda>_. Inr True) (each_doc (\<lambda>_ n v. Inr (ok_flow n v)) () d)"
    using Suc.prems(1) each_elem_ptrs [of d "okForStorage_step (okForStorage_fuel k)" "\<lambda>_ n v. Inr (ok_flow n v)" "()" "0 # r"] body
    by simp
  then show ?case by (simp only: each_doc_ok)
qed simp

lemma okForStorage_enc: "wf_doc d \<Longrightarrow> okForStorage (encode d @ r) = Inr (ok_elems d)"
  unfolding okForStorage_def by (rule okForStorage_fuel_enc) simp_all

section \<open>Flattening\<close>

fun flat_value :: "byte list \<Rightarrow> bval \<Rightarrow> bdoc"
and flat :: "byte list \<Rightarrow> (byte list \<times> bval) list \<Rightarrow> bdoc" where
  "flat_value p (VObject s) = flat (p @ [46]) s"
| "flat_value p v = [(p, v)]"
| "flat base [] = []"
| "flat base ((n, v) # d) = flat_value (base @ n) v @ flat base d"

lemma flat_concat: "flat base d = concat (map (\<lambda>(n, v). flat_value (base @ n) v) d)"
  by (induction d) auto

lemma flat_value_leaf: "vtype v \<noteq> Object \<Longrightarrow> flat_value p v = [(p, v)]"
  by (cases v) simp_all

lemma nested2dotted_fuel_enc:
  "wf_doc d \<Longrightarrow> length (encode d) < k \<Longrightarrow>
     writes (\<lambda>b. nested2dotted_fuel k b (encode d @ r) base) (enc_elems (flat base d))"
proof (induction k arbitrary: d r base)
  case (Suc k)
  let ?body = "nested2dotted_step (nested2dotted_fuel k) base"
  let ?g = "\<lambda>n v. flat_value (base @ n) v"
  have "\<exists>h. (\<forall>b. ?body b (enc_elem n v @ m) = rmap Go (h b)) \<and> writes h (enc_elems (?g n v))"
    if "(n, v) \<in> set d" for n v m
  proof -
    have ok: "elem_ok n v" using Suc.prems(1) that by (rule wf_doc_elem_ok)
    show ?thesis
    proof (cases "\<exists>s. v = VObject s")
      case True
      then obtain s where v: "v = VObject s" by blast
      then have s: "wf_doc s" "length (encode s) < k"
        using inner_doc_wf [OF Suc.prems(1) that, of s] Suc.prems(2) by simp_all
      have "embeddedObject (enc_elem n v @ m) = Inr (encode s @ m)" using embeddedObject_enc ok s(1) v by blast
      then have "?body b (enc_elem n v @ m) = rmap Go (nested2dotted_fuel k b (encode s @ m) (base @ n @ [46]))" for b
        using ok v by (simp add: nested2dotted_step_def)
      then show ?thesis using Suc.IH [OF s, of m "base @ n @ [46]"] v by auto
    next
      case False
      then have "vtype v \<noteq> Object" by (cases v) auto
      then have "?body b (enc_elem n v @ m) = rmap Go (appendAs b (enc_elem n v @ m) (base @ n))" for b
        using ok by (simp add: nested2dotted_step_def)
      then show ?thesis using writes_appendAs [OF ok, of m "base @ n"] flat_value_leaf \<open>vtype v \<noteq> Object\<close> by auto
    qed
  qed
  from each_emit [where d = d and body = ?body and g = ?g and r = "0 # r", OF this] obtain h where
    h: "\<And>b. each ?body b (elem_ptrs d (0 # r)) = rmap Go (h b)" "writes h (enc_elems (flat base d))"
    by (auto simp: flat_concat)
  have "nested2dotted_fuel (Suc k) b (encode d @ r) base = h b" for b
    using Suc.prems(1) by (cases "h b") (simp_all add: h(1))
  then show ?case using h(2) by simp
qed simp

lemma nested2dotted_enc:
  "wf_doc d \<Longrightarrow> writes (\<lambda>b. nested2dotted b (encode d @ r) base) (enc_elems (flat base d))"
  unfolding nested2dotted_def by (rule nested2dotted_fuel_enc) simp_all

text \<open>Each field of the flat document is where its dotted name leads in the nested one.\<close>

fun plain_names_value :: "bval \<Rightarrow> bool"
and plain_names :: "(byte list \<times> bval) list \<Rightarrow> bool" where
  "plain_names_value (VObject s) = plain_names s"
| "plain_names_value v = True"
| "plain_names [] = True"
| "plain_names ((n, v) # d) =
     (46 \<notin> set n \<and> n \<notin> fst ` set d \<and> plain_names_value v \<and> plain_names d)"

lemma split_at_first: "c \<notin> set s \<Longrightarrow> split_at c (s @ c # t) = Some (s, t)"
  by (induction s) auto

lemma split_at_none: "c \<notin> set s \<Longrightarrow> split_at c s = None"
  by (induction s) auto

lemma plain_names_dot: "plain_names d \<Longrightarrow> 46 \<in> set p \<Longrightarrow> map_of d p = None"
  by (induction d) auto

lemma lookup_dotted_Cons:
  assumes "lookup_dotted d p = Some w" "46 \<notin> set n" "n \<notin> fst ` set d"
  shows "lookup_dotted ((n, v) # d) p = Some w"
proof -
  have nd: "map_of d n = None" using assms(3) by (simp add: map_of_eq_None_iff)
  show ?thesis
  proof (cases "map_of d p")
    case (Some u)
    then have "n \<noteq> p" using nd by auto
    then show ?thesis using Some assms(1) by (simp add: lookup_dotted.simps [of _ p])
  next
    case None
    then obtain l r where lr: "split_at 46 p = Some (l, r)"
      using assms(1) by (simp add: lookup_dotted.simps [of _ p] split: option.splits) auto
    have "n \<noteq> p" using lr split_at_none [OF assms(2)] by auto
    moreover have "n \<noteq> l"
    proof
      assume "n = l"
      then have "lookup_dotted d p = None" using None nd lr by (simp add: lookup_dotted.simps [of _ p])
      then show False using assms(1) by simp
    qed
    ultimately show ?thesis using None lr assms(1) by (simp add: lookup_dotted.simps [of _ p])
  qed
qed

lemma flat_value_lookup:
  "plain_names_value v \<Longrightarrow> (x, w) \<in> set (flat_value q v) \<Longrightarrow>
     (if vtype v = Object then \<exists>p. x = q @ 46 # p \<and> lookup_dotted (subdoc (Some v)) p = Some w
      else x = q \<and> w = v)"
  and flat_lookup:
  "plain_names d \<Longrightarrow> (x, w) \<in> set (flat base d) \<Longrightarrow> \<exists>p. x = base @ p \<and> lookup_dotted d p = Some w"
proof (induction q v and base d rule: flat_value_flat.induct)
  case (4 base n v d)
  have n: "46 \<notin> set n" "n \<notin> fst ` set d" using "4.prems" by simp_all
  from "4.prems"(2) consider (here) "(x, w) \<in> set (flat_value (base @ n) v)" | (rest) "(x, w) \<in> set (flat base d)"
    by auto
  then show ?case
  proof cases
    case rest
    then obtain p where "x = base @ p" "lookup_dotted d p = Some w" using "4.IH"(2) "4.prems"(1) by auto
    then show ?thesis using lookup_dotted_Cons n by blast
  next
    case here
    note IH = "4.IH"(1) [OF _ here]
    show ?thesis
    proof (cases "vtype v = Object")
      case True
      then obtain p where p: "x = base @ n @ 46 # p" "lookup_dotted (subdoc (Some v)) p = Some w"
        using IH "4.prems"(1) by auto
      have "map_of ((n, v) # d) (n @ 46 # p) = None"
        using plain_names_dot [OF "4.prems"(1), of "n @ 46 # p"] by simp
      then have "lookup_dotted ((n, v) # d) (n @ 46 # p) = Some w"
        using p(2) split_at_first [OF n(1), of p] by (simp add: lookup_dotted.simps [of _ "n @ 46 # p"])
      then show ?thesis using p(1) by auto
    next
      case False
      then have "x = base @ n" "w = v" using IH "4.prems"(1) by auto
      then show ?thesis by (auto simp: lookup_dotted.simps [of _ n])
    qed
  qed
qed auto

section \<open>Lookup of all matching fields\<close>

function found :: "bool \<Rightarrow> byte list \<Rightarrow> bdoc \<Rightarrow> bdoc" where
  "found expand name =
     (\<lambda>d. case map_of d name of
        Some v \<Rightarrow> (case v of VArray s \<Rightarrow> if expand then s else [(name, v)] | _ \<Rightarrow> [(name, v)])
      | None \<Rightarrow>
          (case split_at 46 name of
             None \<Rightarrow> []
           | Some (left, nxt) \<Rightarrow>
               (case map_of d left of
                  Some (VObject s) \<Rightarrow> found expand nxt s
                | Some (VArray s) \<Rightarrow>
                    if all_digits_part nxt then found expand nxt s
                    else concat (map (\<lambda>(_, v). case v of VObject u \<Rightarrow> found expand nxt u
                                               | VArray u \<Rightarrow> found expand nxt u | _ \<Rightarrow> []) s)
                | _ \<Rightarrow> [])))"
  by pat_completeness auto
termination
  by (relation "measure (\<lambda>(expand, name). length name)") (auto dest: split_at_shorter)

declare found.simps [simp del]

fun insert_all :: "(mem \<Rightarrow> 'c \<Rightarrow> 'c res) \<Rightarrow> mem list \<Rightarrow> 'c \<Rightarrow> 'c res" where
  "insert_all ins [] ret = Inr ret"
| "insert_all ins (e # es) ret = rbind (ins e ret) (insert_all ins es)"

abbreviation fields_at :: "mem list \<Rightarrow> bdoc \<Rightarrow> bool" where
  "fields_at es d \<equiv> list_all2 (\<lambda>e (n, v). denotes e n (Some v)) es d"

lemma insert_all_append: "insert_all ins (es @ fs) ret = rbind (insert_all ins es ret) (insert_all ins fs)"
proof (induction es arbitrary: ret)
  case (Cons e es)
  then show ?case by (cases "ins e ret") simp_all
qed simp

lemma elem_ptrs_fields_at: "elems_ok d \<Longrightarrow> fields_at (elem_ptrs d r) d"
proof (induction d)
  case (Cons a d)
  then show ?case by (cases a) (auto simp: denotes_def)
qed simp

lemma insert_elems_enc:
  assumes "wf_doc d"
  shows "insert_elems ins (encode d @ r) ret = insert_all ins (elem_ptrs d (0 # r)) ret"
proof -
  have "ret_or Inr (each (\<lambda>ret e. rmap Go (ins e ret)) ret es) = insert_all ins es ret" for es
  proof (induction es arbitrary: ret)
    case (Cons e es)
    then show ?case by (cases "ins e ret") simp_all
  qed simp
  then show ?thesis using assms by (simp add: insert_elems_def)
qed

lemma descend_enc:
  assumes "wf_doc s"
    and sub: "\<And>u r. wf_doc u \<Longrightarrow>
      \<exists>es. fields_at es (f u) \<and> (\<forall>ret. gfd (encode u @ r) ret = insert_all ins es ret)"
  shows "\<exists>es. fields_at es (concat (map (\<lambda>(_, v). case v of VObject u \<Rightarrow> f u | VArray u \<Rightarrow> f u | _ \<Rightarrow> []) s)) \<and>
    (\<forall>ret. ret_or Inr (each (descend_step gfd) ret (elem_ptrs s q)) = insert_all ins es ret)"
proof -
  have "\<exists>es. fields_at es (concat (map (\<lambda>(_, v). case v of VObject u \<Rightarrow> f u | VArray u \<Rightarrow> f u | _ \<Rightarrow> []) x)) \<and>
    (\<forall>ret. ret_or Inr (each (descend_step gfd) ret (elem_ptrs x q)) = insert_all ins es ret)"
    if "set x \<subseteq> set s" for x
    using that
  proof (induction x)
    case Nil
    show ?case by (intro exI [of _ "[]"]) simp
  next
    case (Cons a x)
    obtain n v where a: "a = (n, v)" by (cases a) auto
    then have mem: "(n, v) \<in> set s" using Cons.prems by simp
    have ok: "elem_ok n v" using assms(1) mem by (rule wf_doc_elem_ok)
    obtain es where es: "fields_at es (concat (map (\<lambda>(_, v). case v of VObject u \<Rightarrow> f u | VArray u \<Rightarrow> f u | _ \<Rightarrow> []) x))"
      "\<And>ret. ret_or Inr (each (descend_step gfd) ret (elem_ptrs x q)) = insert_all ins es ret"
      using Cons by auto
    let ?e = "enc_elem n v @ enc_elems x @ q"
    show ?case
    proof (cases "\<exists>u. v = VObject u \<or> v = VArray u")
      case True
      then obtain u where u: "v = VObject u \<or> v = VArray u" by blast
      then have w: "wf_doc u" using inner_doc_wf(1) [OF assms(1) mem, of u] by auto
      have e: "embeddedObject ?e = Inr (encode u @ enc_elems x @ q)" using embeddedObject_enc [OF ok w u] by simp
      obtain es1 where es1: "fields_at es1 (f u)"
        "\<And>ret. gfd (encode u @ enc_elems x @ q) ret = insert_all ins es1 ret"
        using sub [OF w] by blast
      have "vtype v = Object \<or> vtype v = Array" using u by auto
      then have "descend_step gfd ret ?e = rmap Go (insert_all ins es1 ret)" for ret
        using e es1(2) by (simp add: descend_step_def)
      then have "ret_or Inr (each (descend_step gfd) ret (elem_ptrs (a # x) q)) = insert_all ins (es1 @ es) ret" for ret
        by (cases "insert_all ins es1 ret") (simp_all add: a insert_all_append es(2))
      moreover have "fields_at (es1 @ es) (concat (map (\<lambda>(_, v). case v of VObject u \<Rightarrow> f u | VArray u \<Rightarrow> f u | _ \<Rightarrow> []) (a # x)))"
        using es1(1) es(1) u by (auto simp: a intro: list_all2_appendI)
      ultimately show ?thesis by blast
    next
      case False
      then have "vtype v \<noteq> Object" "vtype v \<noteq> Array"
        "(case v of VObject u \<Rightarrow> f u | VArray u \<Rightarrow> f u | _ \<Rightarrow> []) = []" by (cases v; simp)+
      then have "ret_or Inr (each (descend_step gfd) ret (elem_ptrs (a # x) q)) = insert_all ins es ret" for ret
        by (simp add: a descend_step_def es(2))
      then show ?thesis using es(1) \<open>(case v of VObject u \<Rightarrow> f u | VArray u \<Rightarrow> f u | _ \<Rightarrow> []) = []\<close>
        by (intro exI [of _ es]) (simp add: a)
    qed
  qed
  from this [of s] show ?thesis by simp
qed

lemma getFieldsDotted_hit:
  assumes "wf_doc d" "getField (encode d @ r) name = Inr e" "denotes e name (Some v)" "map_of d name = Some v"
  shows "\<exists>es. fields_at es (found x name d) \<and>
    (\<forall>ret. getFieldsDotted ins x name (encode d @ r) ret = insert_all ins es ret)"
proof -
  note unf = getFieldsDotted.simps [of ins x name] found.simps [of x name]
  have t: "elem_type e = Inr (vtype v)" using denotes_type [OF assms(3)] by simp
  obtain t where et: "elem_ok name v" "e = enc_elem name v @ t" using assms(3) by (auto simp: denotes_def)
  have mem: "(name, v) \<in> set d" using assms(4) by (rule map_of_SomeD)
  show ?thesis
  proof (cases "x \<and> (\<exists>s. v = VArray s)")
    case True
    then obtain s where v: "v = VArray s" by blast
    have w: "wf_doc s" using inner_doc_wf(1) [OF assms(1) mem, of s] v by simp
    have "embeddedObject e = Inr (encode s @ t)" using embeddedObject_enc [OF et(1) w] v et(2) by simp
    then show ?thesis
      using True v assms(2,4) t elem_ptrs_fields_at [OF wf_docD(4) [OF w], of "0 # t"]
      unfolding unf by (intro exI [of _ "elem_ptrs s (0 # t)"]) (simp add: insert_elems_enc [OF w])
  next
    case False
    then have f: "found x name d = [(name, v)]" using assms(4) unfolding unf by (cases v) auto
    have "getFieldsDotted ins x name (encode d @ r) ret = insert_all ins [e] ret" for ret
      using False assms(2) t unfolding unf by (cases v; cases "ins e ret") auto
    then show ?thesis using f assms(3) by (intro exI [of _ "[e]"]) simp
  qed
qed

lemma getFieldsDotted_descend:
  assumes wf: "wf_doc d" and e: "getField (encode d @ r) name = Inr e" "denotes e name None" and None: "map_of d name = None"
    and Some: "split_at 46 name = Some (left, nxt)" and s: "map_of d left = Some v" "v = VObject s \<or> v = VArray s"
    and IH: "\<And>u r. wf_doc u \<Longrightarrow> \<exists>es. fields_at es (found x nxt u) \<and>
            (\<forall>ret. getFieldsDotted ins x nxt (encode u @ r) ret = insert_all ins es ret)"
  shows "\<exists>es. fields_at es (found x name d) \<and>
    (\<forall>ret. getFieldsDotted ins x name (encode d @ r) ret = insert_all ins es ret)"
proof -
  note unf = getFieldsDotted.simps [of ins x name] found.simps [of x name]
  have t: "elem_type e = Inr EOO" using denotes_type [OF e(2)] by simp
  obtain e2 where e2: "getField (encode d @ r) left = Inr e2" "denotes e2 left (map_of d left)"
    using wf by (rule getField_denotesE)
  note t2 = denotes_type [OF e2(2)]
  obtain q where q: "elem_ok left v" "e2 = enc_elem left v @ q" using e2(2) s(1) by (auto simp: denotes_def)
  have w: "wf_doc s" using inner_doc_wf(1) [OF wf map_of_SomeD [OF s(1)], of s] s(2) by auto
  have em: "embeddedObject e2 = Inr (encode s @ q)" using embeddedObject_enc [OF q(1) w s(2)] q(2) by simp
  show ?thesis
  proof (cases "v = VObject s \<or> all_digits_part nxt")
    case True
    have "found x name d = found x nxt s" using True s None Some by (auto simp: unf)
    moreover have "getFieldsDotted ins x name (encode d @ r) ret = getFieldsDotted ins x nxt (encode s @ q) ret" for ret
      using True s None Some e(1) t e2(1) t2 em by (auto simp: unf)
    ultimately show ?thesis using IH [OF w, of q] by simp
  next
    case False
    then have v: "v = VArray s" "\<not> all_digits_part nxt" using s(2) by auto
    have "found x name d = concat (map (\<lambda>(_, v). case v of VObject u \<Rightarrow> found x nxt u | VArray u \<Rightarrow> found x nxt u | _ \<Rightarrow> []) s)"
      using v s None Some by (simp add: unf)
    moreover have "getFieldsDotted ins x name (encode d @ r) ret =
        ret_or Inr (each (descend_step (getFieldsDotted ins x nxt)) ret (elem_ptrs s (0 # q)))" for ret
      using v s None Some e(1) t e2(1) t2 em w by (simp add: unf)
    ultimately show ?thesis
      using descend_enc [OF w, of "found x nxt" "getFieldsDotted ins x nxt" ins "0 # q"] IH by simp
  qed
qed

lemma getFieldsDotted_enc:
  assumes "wf_doc d"
  shows "\<exists>es. fields_at es (found x name d) \<and>
    (\<forall>ret. getFieldsDotted ins x name (encode d @ r) ret = insert_all ins es ret)"
  using assms
proof (induction "length name" arbitrary: name d r rule: less_induct)
  case less
  obtain e where e: "getField (encode d @ r) name = Inr e" "denotes e name (map_of d name)"
    using less.prems by (rule getField_denotesE)
  note te = denotes_type [OF e(2)]
  note unf = getFieldsDotted.simps [of ins x name] found.simps [of x name]
  show ?case
  proof (cases "map_of d name")
    case (Some v)
    show ?thesis using getFieldsDotted_hit [OF less.prems e(1) _ Some] e(2) Some by simp
  next
    case None
    then have t: "elem_type e = Inr EOO" using te by simp
    show ?thesis
    proof (cases "split_at 46 name")
      case None': None
      then show ?thesis using None e(1) t by (intro exI [of _ "[]"]) (simp add: unf)
    next
      case (Some lr)
      obtain left nxt where lr: "lr = (left, nxt)" by (cases lr) auto
      then have short: "length nxt < length name" using Some split_at_shorter by blast
      obtain e2 where e2: "getField (encode d @ r) left = Inr e2" "denotes e2 left (map_of d left)"
        using less.prems by (rule getField_denotesE)
      note t2 = denotes_type [OF e2(2)]
      show ?thesis
      proof (cases "\<exists>s. map_of d left = Some (VObject s) \<or> map_of d left = Some (VArray s)")
        case False
        then have "(case map_of d left of None \<Rightarrow> EOO | Some v \<Rightarrow> vtype v) \<noteq> Object"
          "(case map_of d left of None \<Rightarrow> EOO | Some v \<Rightarrow> vtype v) \<noteq> Array" "found x name d = []"
          using None Some lr by (cases "map_of d left"; cases "the (map_of d left)"; simp add: unf)+
        then show ?thesis using None Some lr e(1) t e2(1) t2 by (intro exI [of _ "[]"]) (simp add: unf)
      next
        case True
        then obtain s v where s: "map_of d left = Some v" "v = VObject s \<or> v = VArray s" by blast
        show ?thesis
          by (rule getFieldsDotted_descend [OF less.prems e(1) _ None Some [unfolded lr] s less.hyps [OF short]])
            (use e(2) None in simp)
      qed
    qed
  qed
qed

text \<open>The lookup that stops at an array.\<close>

function lookup_or_array :: "bdoc \<Rightarrow> byte list \<Rightarrow> (bval option \<times> byte list)" where
  "lookup_or_array d name =
     (let (left, nxt) = (case split_at 46 name of Some (l, r) \<Rightarrow> (l, r) | None \<Rightarrow> (name, []))
      in case map_of d left of
           None \<Rightarrow> (None, nxt)
         | Some v \<Rightarrow>
             if nxt = [] then (Some v, nxt)
             else (case v of VArray _ \<Rightarrow> (Some v, nxt) | VObject s \<Rightarrow> lookup_or_array s nxt | _ \<Rightarrow> (None, nxt)))"
  by pat_completeness auto
termination
  by (relation "measure (\<lambda>(d, name). length name)") (auto dest: split_at_shorter split: option.splits)

declare lookup_or_array.simps [simp del]

lemma getFieldDottedOrArray_enc:
  assumes "wf_doc d"
  shows "\<exists>e n. getFieldDottedOrArray (encode d @ r) name = Inr (e, snd (lookup_or_array d name)) \<and>
    denotes e n (fst (lookup_or_array d name))"
  using assms
proof (induction "length name" arbitrary: name d r rule: less_induct)
  case less
  define left where "left = (case split_at 46 name of Some (l, r) \<Rightarrow> l | None \<Rightarrow> name)"
  define nxt where "nxt = (case split_at 46 name of Some (l, r) \<Rightarrow> r | None \<Rightarrow> [])"
  have ln: "(case split_at 46 name of Some (l, r) \<Rightarrow> (l, r) | None \<Rightarrow> (name, [])) = (left, nxt)"
    by (auto simp: left_def nxt_def split: option.splits)
  have short: "nxt \<noteq> [] \<Longrightarrow> length nxt < length name"
    using split_at_shorter by (auto simp: nxt_def split: option.splits)
  obtain e where e: "getField (encode d @ r) left = Inr e" "denotes e left (map_of d left)"
    using less.prems by (rule getField_denotesE)
  note te = denotes_type [OF e(2)]
  note unf = getFieldDottedOrArray.simps [of "encode d @ r" name] lookup_or_array.simps [of d name]
  show ?case
  proof (cases "map_of d left")
    case None
    then show ?thesis using e te by (auto simp: unf ln denotes_def)
  next
    case (Some v)
    then have t: "elem_type e = Inr (vtype v)" using te by simp
    show ?thesis
    proof (cases "nxt = [] \<or> (\<forall>s. v \<noteq> VObject s)")
      case True
      then show ?thesis
        using e t Some by (cases v; cases "nxt = []") (auto simp: unf ln denotes_def)
    next
      case False
      then obtain s where v: "v = VObject s" "nxt \<noteq> []" by blast
      obtain q where q: "elem_ok left v" "e = enc_elem left v @ q" using e(2) Some by (auto simp: denotes_def)
      have w: "wf_doc s" using inner_doc_wf(1) [OF less.prems map_of_SomeD [OF Some], of s] v by simp
      have "embeddedObject e = Inr (encode s @ q)" using embeddedObject_enc [OF q(1) w] v q(2) by simp
      then show ?thesis
        using less.hyps [OF short [OF v(2)] w, of q] e(1) t Some v by (simp add: unf ln)
    qed
  qed
qed

section \<open>Properties\<close>

text \<open>All fields of a document, those of the documents inside it included.\<close>

fun deep_value :: "bval \<Rightarrow> bdoc"
and deep_fields :: "(byte list \<times> bval) list \<Rightarrow> bdoc" where
  "deep_value (VObject d) = deep_fields d"
| "deep_value (VArray d) = deep_fields d"
| "deep_value (VCodeWScope c d) = deep_fields d"
| "deep_value v = []"
| "deep_fields [] = []"
| "deep_fields ((n, v) # d) = (n, v) # deep_value v @ deep_fields d"

abbreviation storable_field :: "byte list \<times> bval \<Rightarrow> bool" where
  "storable_field f \<equiv> 46 \<notin> set (fst f) \<and> \<not> (fst f = bs ''_id'' \<and> vtype (snd f) = RegEx)"

lemma ok_value_deep:
  "\<forall>f \<in> set (deep_value v). 36 \<notin> set (fst f) \<Longrightarrow> ok_value v \<longleftrightarrow> (\<forall>f \<in> set (deep_value v). storable_field f)"
  and ok_elems_deep:
  "\<forall>f \<in> set (deep_fields d). 36 \<notin> set (fst f) \<Longrightarrow> ok_elems d \<longleftrightarrow> (\<forall>f \<in> set (deep_fields d). storable_field f)"
proof (induction v and d rule: deep_value_deep_fields.induct)
  case (6 n v d)
  have n: "36 \<notin> set n" using "6.prems" by simp
  have "36 \<in> set (bs ''$ref'')" "36 \<in> set (bs ''$id'')" by simp_all
  then have "n \<noteq> bs ''$ref''" "n \<noteq> bs ''$id''" using n by metis+
  moreover have "ok_value v \<longleftrightarrow> (\<forall>f \<in> set (deep_value v). storable_field f)"
    "ok_elems d \<longleftrightarrow> (\<forall>f \<in> set (deep_fields d). storable_field f)" using 6 by simp_all
  ultimately show ?case using n unfolding ok_elems.simps deep_fields.simps by (simp del: bs_simps) blast
qed (simp_all del: bs_simps)



text \<open>
  C32: \<open>nested2dotted\<close> writes one field for each value inside the object that is not itself an object,
  and the dotted lookup of that field's name in the original finds that value, provided names are
  distinct at each level and have no dots.
\<close>

theorem nested2dotted_finds:
  assumes "wf_doc d" "plain_names d" "wf_doc (flat [] d)"
  shows "rbind (bob_new k) (\<lambda>b. rbind (nested2dotted b (encode d @ r) []) obj) = Inr (encode (flat [] d)) \<and>
    (\<forall>(p, v) \<in> set (flat [] d). \<exists>e n. getFieldDotted (encode d @ r) p = Inr e \<and> denotes e n (Some v))"
proof
  show "rbind (bob_new k) (\<lambda>b. rbind (nested2dotted b (encode d @ r) []) obj) = Inr (encode (flat [] d))"
    using obj_writes [OF nested2dotted_enc [OF assms(1)]] assms(3)
    by (simp add: encode_def wf_doc_def)
  show "\<forall>(p, v) \<in> set (flat [] d). \<exists>e n. getFieldDotted (encode d @ r) p = Inr e \<and> denotes e n (Some v)"
    using flat_lookup [OF assms(2), of _ _ "[]"] getFieldDotted_denotes [OF assms(1), of r] by fastforce
qed

theorem nested2dotted_finds_witness:
  "rbind (bob_new 512) (\<lambda>b. rbind (nested2dotted b (encode [(bs ''a'', VObject [(bs ''b'', VInt 1)])] @ []) []) obj) =
    Inr (encode [(bs ''a.b'', VInt 1)])"
  using nested2dotted_finds [of "[(bs ''a'', VObject [(bs ''b'', VInt 1)])]" 512 "[]"]
  by (simp add: wf_doc_iff)

text \<open>
  C34: \<open>getFieldsDotted\<close> inserts, in the order of the document, the fields the dotted name stands for,
  looking into every element of an array unless the next part of the name is a position.
\<close>

theorem getFieldsDotted_inserts:
  assumes "wf_doc d"
  shows "\<exists>es. list_all2 (\<lambda>e (n, v). denotes e n (Some v)) es (found expandLastArray name d) \<and>
    (\<forall>ret. getFieldsDotted ins expandLastArray name (encode d @ r) ret = insert_all ins es ret)"
  using assms by (rule getFieldsDotted_enc)

theorem getFieldsDotted_inserts_witness:
  "\<exists>es. list_all2 (\<lambda>e (n, v). denotes e n (Some v)) es [(bs ''x'', VInt 7), (bs ''x'', VInt 8)] \<and>
    getFieldsDotted (\<lambda>e c. Inr (c @ [e])) True (bs ''a.x'')
      (encode [(bs ''a'', VArray [(bs ''0'', VObject [(bs ''x'', VInt 7)]), (bs ''1'', VObject [(bs ''x'', VInt 8)])])] @ []) [] =
    insert_all (\<lambda>e c. Inr (c @ [e])) es []"
proof -
  let ?d = "[(bs ''a'', VArray [(bs ''0'', VObject [(bs ''x'', VInt 7)]), (bs ''1'', VObject [(bs ''x'', VInt 8)])])]"
  have "wf_doc ?d" by (simp add: wf_doc_iff)
  moreover have "found True (bs ''a.x'') ?d = [(bs ''x'', VInt 7), (bs ''x'', VInt 8)]"
    by (simp add: found.simps [of True "[97, 46, 120]"] found.simps [of True "[120]"] all_digits_part_def isdigit_def)
  ultimately show ?thesis using getFieldsDotted_inserts [of ?d True "bs ''a.x''" "\<lambda>e c. Inr (c @ [e])" "[]"] by auto
qed

end
