(* ===== verification/DottedNames.thy ===== *)
theory DottedNames
  imports NestedOps StringUtils "HOL-Library.Sublist"
begin

text \<open>
  \<open>EmbeddedBuilder\<close> (\<open>util/embedded_builder.h\<close>) and \<open>dotted2nested\<close> (\<open>db/jsobj.cpp\<close>): objects are put
  together from dotted names given in ascending order, with a stack of builders that all write to
  one buffer.
\<close>

section \<open>The stack of builders\<close>

text \<open>
  The top of the stack comes first.  A nested builder has the buffer while it is open; closing it
  hands the buffer back to the builder below.
\<close>

type_synonym EmbeddedBuilder = "(byte list \<times> BSONObjBuilder) list"

definition eb_new :: "BSONObjBuilder \<Rightarrow> EmbeddedBuilder" where
  "eb_new b = [([], b)]"

definition addBuilder :: "byte list \<Rightarrow> EmbeddedBuilder \<Rightarrow> EmbeddedBuilder res" where
  "addBuilder name eb =
     (case eb of
        [] \<Rightarrow> Inl BadRead
      | (m, b) # st \<Rightarrow>
          rbind (subobjStart b name) (\<lambda>b. rmap (\<lambda>sub. (name, sub) # (m, b) # st) (bob_sub (bob_b b))))"

definition popBuilder :: "EmbeddedBuilder \<Rightarrow> EmbeddedBuilder res" where
  "popBuilder eb =
     (case eb of
        (n, sub) # (m, b) # st \<Rightarrow> rmap (\<lambda>(_, sub'). (m, bob_return b sub') # st) (done_obj sub)
      | _ \<Rightarrow> Inl BadRead)"

fun popBuilders :: "nat \<Rightarrow> EmbeddedBuilder \<Rightarrow> EmbeddedBuilder res" where
  "popBuilders 0 eb = Inr eb"
| "popBuilders (Suc k) eb = rbind (popBuilder eb) (popBuilders k)"

fun addBuilders :: "byte list list \<Rightarrow> EmbeddedBuilder \<Rightarrow> EmbeddedBuilder res" where
  "addBuilders [] eb = Inr eb"
| "addBuilders (n # ns) eb = rbind (addBuilder n eb) (addBuilders ns)"

text \<open>
  The first loop of \<open>prepareContext\<close>, over the names of the open builders: how many are kept and what is
  left of the name.  A name equal to that of an open builder makes \<open>substr\<close> throw.
\<close>

fun match_context :: "byte list list \<Rightarrow> byte list \<Rightarrow> (nat \<times> byte list) res" where
  "match_context [] name = Inr (0, name)"
| "match_context (f # fs) name =
     (if take (length f) name = f \<and>
         (length name = length f \<or> name ! length f = 46 \<or> name ! length f = 0)
      then if length name = length f then Inl (BadStatus ''out_of_range'')
           else rmap (\<lambda>(k, rest). (k + 1, rest)) (match_context fs (drop (length f + 1) name))
      else Inr (0, name))"

text \<open>
  The loop over \<open>splitDot\<close>: the parts before the dots, until one is empty, and what is left.
\<close>

function split_dots :: "byte list \<Rightarrow> byte list list \<times> byte list" where
  "split_dots name =
     (case split_at 46 name of
        None \<Rightarrow> ([], name)
      | Some (nxt, rest) \<Rightarrow>
          if nxt = [] then ([], rest) else let (ns, leaf) = split_dots rest in (nxt # ns, leaf))"
  by pat_completeness auto
termination
  by (relation "measure length") (auto dest: split_at_shorter)

declare split_dots.simps [simp del]

definition prepareContext :: "byte list \<Rightarrow> EmbeddedBuilder \<Rightarrow> (byte list \<times> EmbeddedBuilder) res" where
  "prepareContext name eb =
     rbind (match_context (tl (rev (map fst eb))) name) (\<lambda>(k, rest).
       let (ns, leaf) = split_dots rest in
       rbind (popBuilders (length eb - (k + 1)) eb) (\<lambda>eb. rmap (\<lambda>eb. (leaf, eb)) (addBuilders ns eb)))"

definition eb_append_back ::
  "(BSONObjBuilder \<Rightarrow> byte list \<Rightarrow> BSONObjBuilder res) \<Rightarrow> byte list \<times> EmbeddedBuilder \<Rightarrow> EmbeddedBuilder res" where
  "eb_append_back f le =
     (case le of (leaf, (m, b) # st) \<Rightarrow> rmap (\<lambda>b. (m, b) # st) (f b leaf) | _ \<Rightarrow> Inl BadRead)"

definition eb_appendAs :: "mem \<Rightarrow> byte list \<Rightarrow> EmbeddedBuilder \<Rightarrow> EmbeddedBuilder res" where
  "eb_appendAs e name eb =
     rbind (elem_type e) (\<lambda>t.
       rbind (if t = Object then rmap (\<lambda>n. n = 5) (valuesize e) else Inr False) (\<lambda>empty.
         if empty then rmap snd (prepareContext (name @ bs ''.foo'') eb)
         else rbind (prepareContext name eb) (eb_append_back (\<lambda>b. appendAs b e))))"

definition eb_subarrayStartAs :: "byte list \<Rightarrow> EmbeddedBuilder \<Rightarrow> EmbeddedBuilder res" where
  "eb_subarrayStartAs name eb = rbind (prepareContext name eb) (eb_append_back subarrayStart)"

definition eb_done :: "EmbeddedBuilder \<Rightarrow> EmbeddedBuilder res" where
  "eb_done eb = popBuilders (length eb - 1) eb"

fun eb_append_map :: "(byte list \<times> mem) list \<Rightarrow> EmbeddedBuilder \<Rightarrow> EmbeddedBuilder res" where
  "eb_append_map [] eb = Inr eb"
| "eb_append_map ((name, e) # m) eb = rbind (eb_appendAs e name eb) (eb_append_map m)"

definition dotted2nested :: "BSONObjBuilder \<Rightarrow> mem \<Rightarrow> BSONObjBuilder res" where
  "dotted2nested b ob =
     rbind (bson2map ob) (\<lambda>sorted. rbind (eb_append_map sorted (eb_new b)) (\<lambda>eb.
       rbind (eb_done eb) (\<lambda>eb. case eb of [(_, b)] \<Rightarrow> Inr b | _ \<Rightarrow> Inl BadRead)))"

section \<open>Documents under construction\<close>

text \<open>
  A document with its last field still open: the fields that are complete and, if there is one, the
  open sub-object.  \<open>put_path\<close> adds a value at a path; a value \<open>None\<close> only opens the way to it.
\<close>

datatype open_doc = Open (done_fields: bdoc) (open_field: "(byte list \<times> open_doc) option")

fun close :: "open_doc \<Rightarrow> bdoc" where
  "close (Open d None) = d"
| "close (Open d (Some (n, z))) = d @ [(n, VObject (close z))]"

fun leaf_field :: "byte list \<Rightarrow> bval option \<Rightarrow> bdoc" where
  "leaf_field n None = []"
| "leaf_field n (Some v) = [(n, v)]"

fun put_path :: "byte list list \<Rightarrow> bval option \<Rightarrow> open_doc \<Rightarrow> open_doc" where
  "put_path [] ov z = z"
| "put_path [n] ov z = Open (close z @ leaf_field n ov) None"
| "put_path (n # m # p) ov (Open d None) = Open d (Some (n, put_path (m # p) ov (Open [] None)))"
| "put_path (n # m # p) ov (Open d (Some (n', z))) =
     (if n = n' then Open d (Some (n', put_path (m # p) ov z))
      else Open (close (Open d (Some (n', z)))) (Some (n, put_path (m # p) ov (Open [] None))))"

text \<open>The same as frames, the innermost first, on top of further frames.\<close>

fun frames :: "byte list \<Rightarrow> open_doc \<Rightarrow> (byte list \<times> bdoc) list \<Rightarrow> (byte list \<times> bdoc) list" where
  "frames nm (Open d None) acc = (nm, d) # acc"
| "frames nm (Open d (Some (n, z))) acc = frames n z ((nm, d) # acc)"

fun open_names :: "open_doc \<Rightarrow> byte list list" where
  "open_names (Open d None) = []"
| "open_names (Open d (Some (n, z))) = n # open_names z"

text \<open>How many of the open fields the path goes through.\<close>

fun kept :: "byte list list \<Rightarrow> byte list list \<Rightarrow> nat" where
  "kept (a # ns) (b # c # p) = (if a = b then Suc (kept ns (c # p)) else 0)"
| "kept _ _ = 0"

section \<open>The stack represents the frames\<close>

abbreviation header :: "byte list \<Rightarrow> byte list" where
  "header n \<equiv> type_byte Object # n @ [0]"

fun eb_rep :: "BSONObjBuilder \<Rightarrow> EmbeddedBuilder \<Rightarrow> (byte list \<times> bdoc) list \<Rightarrow> bool" where
  "eb_rep b0 [(m, b)] [(m', d)] = (m = m' \<and> bob_extended b0 (enc_elems d) b)"
| "eb_rep b0 ((n, sub) # (m, b1) # st) ((n', d) # (m', d') # zs) =
     (n = n' \<and> (\<exists>b. eb_rep b0 ((m, b) # st) ((m', d') # zs) \<and> bob_extended b (header n) b1) \<and>
      bob_rep sub d \<and> bob_offset sub = length (bob_contents b1) \<and>
      take (bob_offset sub) (bob_contents sub) = bob_contents b1)"
| "eb_rep b0 _ _ = False"

lemma eb_rep_top: "eb_rep b0 ((m, b) # st) ((m', d) # zs) \<Longrightarrow> m = m'"
  by (cases st; cases zs) auto

lemma bob_extended_trans:
  "bob_extended a x b \<Longrightarrow> bob_extended b y c \<Longrightarrow> bob_extended a (x @ y) c"
  by (simp add: bob_extended_def)

lemma eb_rep_extend:
  assumes "eb_rep b0 ((m, b) # st) ((m', d) # zs)" "bob_extended b (enc_elems x) b'"
  shows "eb_rep b0 ((m, b') # st) ((m', d @ x) # zs)"
proof (cases st)
  case Nil
  then show ?thesis using assms by (cases zs) (auto simp: bob_extended_trans)
next
  case (Cons a st')
  obtain k b1 where a: "a = (k, b1)" by (cases a) auto
  obtain k' d' zs' where zs: "zs = (k', d') # zs'" using assms(1) by (cases zs) (auto simp: Cons a)
  have "bob_rep b' (d @ x)" using assms rep_extended by (auto simp: Cons a zs)
  moreover have "bob_offset b \<le> length (bob_contents b)"
    using assms(1) by (auto simp: Cons a zs bob_rep_def)
  ultimately show ?thesis using assms by (auto simp: Cons a zs bob_extended_def)
qed

text \<open>The bytes in the buffer, and the bytes there will be when all is closed.\<close>

fun stack_len :: "(byte list \<times> bdoc) list \<Rightarrow> nat" where
  "stack_len [] = 0"
| "stack_len [(m, d)] = length (enc_elems d)"
| "stack_len ((n, d) # f # zs) = length (enc_elems d) + length n + 6 + stack_len (f # zs)"

fun stack_total :: "(byte list \<times> bdoc) list \<Rightarrow> nat" where
  "stack_total [] = 0"
| "stack_total [(m, d)] = length (enc_elems d)"
| "stack_total ((n, d) # (m, d') # zs) = stack_total ((m, d' @ [(n, VObject d)]) # zs)"

lemma eb_rep_len: "eb_rep b0 ((m, b) # st) zs \<Longrightarrow> length (bob_contents b) = length (bob_contents b0) + stack_len zs"
proof (induction b0 "(m, b) # st" zs arbitrary: m b st rule: eb_rep.induct)
  case (2 b0 n sub m b1 st n' d m' d' zs)
  then obtain b' where b': "eb_rep b0 ((m, b') # st) ((m', d') # zs)" "bob_extended b' (header n) b1" by auto
  have "length (bob_contents b') = length (bob_contents b0) + stack_len ((m', d') # zs)" using 2 b' by blast
  then show ?case
    using 2 b'(2) rep_length [of sub d] by (simp add: bob_extended_def)
qed (auto simp: bob_extended_def)

lemma stack_total_mono:
  "length (enc_elems d) + k \<le> length (enc_elems d') \<Longrightarrow> stack_total ((m, d) # zs) + k \<le> stack_total ((m, d') # zs)"
proof (induction zs arbitrary: m d d')
  case (Cons a zs)
  obtain n e where a: "a = (n, e)" by (cases a) auto
  show ?case using Cons.IH [of "e @ [(m, VObject d)]" "e @ [(m, VObject d')]" n] Cons.prems
    by (simp add: a)
qed simp

lemma stack_len_total: "stack_len zs \<le> stack_total zs"
proof (induction zs rule: stack_total.induct)
  case (3 n d m d' zs)
  have "stack_len ((n, d) # (m, d') # zs) \<le> stack_len ((m, d' @ [(n, VObject d)]) # zs)"
    by (cases zs) simp_all
  then show ?case using 3 by simp
qed simp_all

lemma stack_total_frames: "stack_total (frames nm z acc) = stack_total ((nm, close z) # acc)"
  by (induction nm z acc rule: frames.induct) simp_all

text \<open>Room for a stack of the given size.\<close>

definition fits :: "BSONObjBuilder \<Rightarrow> nat \<Rightarrow> bool" where
  "fits b0 n = (length (bob_contents b0) + n + 1 \<le> BufferMaxSize \<and> n \<le> 16793595)"

lemma fits_le: "fits b0 n \<Longrightarrow> k \<le> n \<Longrightarrow> fits b0 k"
  by (simp add: fits_def)

lemma popBuilder_rep:
  assumes "eb_rep b0 eb ((n, d) # (m, d') # zs)" "wf_elems d" "fits b0 (stack_total ((n, d) # (m, d') # zs))"
  shows "\<exists>eb'. popBuilder eb = Inr eb' \<and> eb_rep b0 eb' ((m, d' @ [(n, VObject d)]) # zs)"
proof -
  obtain sub b1 st where eb: "eb = (n, sub) # (m, b1) # st"
    using assms(1) eb_rep_top by (cases "(b0, eb, (n, d) # (m, d') # zs)" rule: eb_rep.cases) auto
  then obtain b where b: "eb_rep b0 ((m, b) # st) ((m, d') # zs)" "bob_extended b (header n) b1"
    and sub: "bob_rep sub d" "bob_offset sub = length (bob_contents b1)"
      "take (bob_offset sub) (bob_contents sub) = bob_contents b1"
    using assms(1) by auto
  let ?zs = "(n, d) # (m, d') # zs"
  have len: "length (bob_contents sub) = length (bob_contents b0) + stack_len ?zs"
    using eb_rep_len assms(1) eb by blast
  then have room: "length (bob_contents sub) + 1 \<le> BufferMaxSize"
    using assms(3) stack_len_total [of ?zs] by (simp add: fits_def)
  have "length (enc_elems d) \<le> stack_len ?zs" by (cases zs) simp_all
  then have wf: "wf_doc d"
    using assms(2,3) stack_len_total [of ?zs] by (simp add: wf_doc_iff fits_def)
  from bob_done_rep [OF sub(1) room] obtain sub' where sub': "bob_done sub = Inr sub'" "bob_bytes sub' = encode d"
    "bob_contents sub' = take (bob_offset sub) (bob_contents sub) @ encode d" by blast
  have "bob_extended b (enc_elems [(n, VObject d)]) (bob_return b1 sub')"
    using sub'(3) sub(3) b(2)
    by (simp add: bob_extended_def bob_return_def bob_contents_def encode_def)
  from eb_rep_extend [OF b(1) this] show ?thesis
    using done_obj_bytes [OF sub'(1,2) wf] by (simp add: eb popBuilder_def)
qed

lemma popBuilders_add: "popBuilders (j + k) eb = rbind (popBuilders j eb) (popBuilders k)"
proof (induction j arbitrary: eb)
  case (Suc j)
  then show ?case by (cases "popBuilder eb") simp_all
qed simp

lemma popBuilders_rep:
  assumes "eb_rep b0 eb (frames nm z acc)" "wf_elems (close z)" "fits b0 (stack_total (frames nm z acc))"
  shows "\<exists>eb'. popBuilders (length (open_names z)) eb = Inr eb' \<and> eb_rep b0 eb' ((nm, close z) # acc)"
  using assms
proof (induction nm z acc arbitrary: eb rule: frames.induct)
  case (2 nm d n z acc)
  have "fits b0 (stack_total (frames n z ((nm, d) # acc)))" using "2.prems"(3) by simp
  then obtain eb1 where eb1: "popBuilders (length (open_names z)) eb = Inr eb1"
      "eb_rep b0 eb1 ((n, close z) # (nm, d) # acc)"
    using 2 by auto
  have "fits b0 (stack_total ((n, close z) # (nm, d) # acc))"
    using "2.prems"(3) by (simp add: stack_total_frames)
  from popBuilder_rep [OF eb1(2) _ this] obtain eb2 where
    "popBuilder eb1 = Inr eb2" "eb_rep b0 eb2 ((nm, d @ [(n, VObject (close z))]) # acc)"
    using "2.prems"(2) by auto
  then show ?case
    using eb1(1) popBuilders_add [of "length (open_names z)" 1 eb] by simp
qed simp

lemma addBuilder_rep:
  assumes "eb_rep b0 eb ((m, d) # zs)" "fits b0 (stack_total ((n, []) # (m, d) # zs))"
  shows "\<exists>eb'. addBuilder n eb = Inr eb' \<and> eb_rep b0 eb' ((n, []) # (m, d) # zs)"
proof -
  obtain b st where eb: "eb = (m, b) # st"
    using assms(1) eb_rep_top by (cases "(b0, eb, (m, d) # zs)" rule: eb_rep.cases) auto
  have len: "length (bob_contents b) = length (bob_contents b0) + stack_len ((m, d) # zs)"
    using eb_rep_len assms(1) eb by blast
  have room: "length (bob_contents b) + length n + 6 \<le> BufferMaxSize"
    using assms(2) stack_len_total [of "(n, []) # (m, d) # zs"] len by (simp add: fits_def)
  obtain b1 where b1: "subobjStart b n = Inr b1" "bob_extended b (header n) b1"
    using bob_sink.writes_room [OF writes_header [of Object n], of b] room by (auto simp: subobjStart_def)
  then have c1: "length (bob_contents b1) = length (bob_contents b) + length n + 2" by (simp add: bob_extended_def)
  obtain sub where "bob_sub (bob_b b1) = Inr sub" "bob_rep sub []" "bob_offset sub = length (bob_contents b1)"
      "take (bob_offset sub) (bob_contents sub) = bob_contents b1"
    using sub_builder_start [of b1] room c1 by auto
  then show ?thesis using assms(1) b1 by (auto simp: eb addBuilder_def)
qed

lemma close_put_le: "length (enc_elems (close z)) \<le> length (enc_elems (close (put_path p ov z)))"
  by (induction p ov z rule: put_path.induct) simp_all

lemma addBuilders_rep:
  assumes "eb_rep b0 eb ((nm, d) # acc)" "p \<noteq> []"
    and "fits b0 (stack_total (frames nm (put_path p None (Open d None)) acc))"
  shows "\<exists>eb'. addBuilders (butlast p) eb = Inr eb' \<and> eb_rep b0 eb' (frames nm (put_path p None (Open d None)) acc)"
  using assms
proof (induction p arbitrary: nm d acc eb rule: induct_list012)
  case (3 n m q)
  let ?p = "m # q" and ?acc = "(nm, d) # acc"
  let ?z = "put_path ?p None (Open [] None)"
  have fr: "frames nm (put_path (n # ?p) None (Open d None)) acc = frames n ?z ?acc" by simp
  have f: "fits b0 (stack_total (frames n ?z ?acc))" using "3.prems"(3) unfolding fr .
  have "stack_total ((n, []) # ?acc) + 0 \<le> stack_total ((n, close ?z) # ?acc)"
    by (rule stack_total_mono) simp
  then have "fits b0 (stack_total ((n, []) # ?acc))"
    by (intro fits_le [OF f]) (simp only: stack_total_frames add_0_right)
  from addBuilder_rep [OF "3.prems"(1) this] obtain eb1 where
    eb1: "addBuilder n eb = Inr eb1" "eb_rep b0 eb1 ((n, []) # ?acc)" by blast
  from "3.IH"(2) [OF eb1(2) _ f] obtain eb2 where
    "addBuilders (butlast ?p) eb1 = Inr eb2" "eb_rep b0 eb2 (frames n ?z ?acc)" by blast
  moreover have "addBuilders (butlast (n # ?p)) eb = rbind (addBuilder n eb) (addBuilders (butlast ?p))" by simp
  ultimately show ?case unfolding fr using eb1(1) by simp
qed simp_all

lemma prepare_rep:
  assumes "eb_rep b0 eb (frames nm z acc)" "p \<noteq> []" "wf_elems (close z)"
    and "fits b0 (stack_total (frames nm (put_path p None z) acc))"
  shows "\<exists>eb'. rbind (popBuilders (length (open_names z) - kept (open_names z) p) eb)
        (addBuilders (drop (kept (open_names z) p) (butlast p))) = Inr eb' \<and>
      eb_rep b0 eb' (frames nm (put_path p None z) acc)"
  using assms
proof (induction p "None :: bval option" z arbitrary: nm acc eb rule: put_path.induct)
  case (2 n z)
  have "fits b0 (stack_total (frames nm z acc))" using "2.prems"(4) by (simp add: stack_total_frames)
  from popBuilders_rep [OF "2.prems"(1,3) this] show ?case by auto
next
  case (3 n m p d)
  from addBuilders_rep [of b0 eb nm d acc "n # m # p"] show ?case using "3.prems" by simp
next
  case (4 n m p d n' z)
  show ?case
  proof (cases "n = n'")
    case True
    then show ?thesis using "4.hyps"(1) [of eb n' "(nm, d) # acc"] "4.prems" by simp
  next
    case False
    let ?z = "Open d (Some (n', z))"
    have fr: "frames nm (put_path (n # m # p) None ?z) acc =
        frames nm (put_path (n # m # p) None (Open (close ?z) None)) acc" using False by simp
    have "stack_total (frames nm ?z acc) \<le> stack_total (frames nm (put_path (n # m # p) None ?z) acc)"
      unfolding stack_total_frames
      using stack_total_mono [OF close_put_le [of ?z "n # m # p" None, THEN eq_refl [OF add_0_right, THEN le_trans]]]
      by simp
    then have "fits b0 (stack_total (frames nm ?z acc))" using "4.prems"(4) fits_le by blast
    from popBuilders_rep [OF "4.prems"(1,3) this] obtain eb1 where
      eb1: "popBuilders (length (open_names ?z)) eb = Inr eb1" "eb_rep b0 eb1 ((nm, close ?z) # acc)" by blast
    from addBuilders_rep [OF eb1(2), of "n # m # p"] show ?thesis
      using "4.prems"(4) eb1(1) fr False by simp
  qed
qed simp

section \<open>Names\<close>

lemma eb_rep_names: "eb_rep b0 eb zs \<Longrightarrow> map fst eb = map fst zs"
  by (induction b0 eb zs rule: eb_rep.induct) (auto dest: eb_rep_top)

lemma frames_names: "map fst (frames nm z acc) = rev (nm # open_names z) @ map fst acc"
  by (induction nm z acc rule: frames.induct) simp_all

abbreviation join_dots :: "byte list list \<Rightarrow> byte list" where
  "join_dots p \<equiv> joinStringDelim p 46"

definition name_part :: "byte list \<Rightarrow> bool" where
  "name_part n = (n \<noteq> [] \<and> 46 \<notin> set n \<and> nul_free n)"

lemma match_first:
  assumes "name_part f" "name_part n"
  shows "take (length f) (n @ 46 # x) = f \<and> (length (n @ 46 # x) = length f \<or> (n @ 46 # x) ! length f = 46 \<or>
      (n @ 46 # x) ! length f = 0) \<longleftrightarrow> f = n"
proof
  assume a: "take (length f) (n @ 46 # x) = f \<and> (length (n @ 46 # x) = length f \<or> (n @ 46 # x) ! length f = 46 \<or>
      (n @ 46 # x) ! length f = 0)"
  have le: "length f \<le> length n"
  proof (rule ccontr)
    assume "\<not> length f \<le> length n"
    then obtain k where "length f = length n + Suc k" using less_imp_Suc_add [of "length n" "length f"] by auto
    then have "46 \<in> set (take (length f) (n @ 46 # x))" by simp
    then have "46 \<in> set f" using a by (simp only:)
    then show False using assms(1) by (simp add: name_part_def)
  qed
  moreover have "\<not> length f < length n"
  proof
    assume l: "length f < length n"
    then have "(n @ 46 # x) ! length f \<in> set n" by (simp add: nth_append)
    then show False using a assms(2) l by (auto simp: name_part_def nul_free_def)
  qed
  ultimately show "f = n" using a by simp
qed simp

lemma match_last:
  assumes "name_part f" "name_part n" "f \<noteq> n"
  shows "\<not> (take (length f) n = f \<and> (length n = length f \<or> n ! length f = 46 \<or> n ! length f = 0))"
proof
  assume a: "take (length f) n = f \<and> (length n = length f \<or> n ! length f = 46 \<or> n ! length f = 0)"
  then have "length (take (length f) n) = length f" by (simp only:)
  then have "length f \<le> length n" by simp
  moreover have "length f \<noteq> length n"
  proof
    assume "length f = length n"
    then show False using a assms(3) by simp
  qed
  ultimately have n: "n ! length f \<in> set n" "length n \<noteq> length f" by simp_all
  then have "46 \<in> set n \<or> 0 \<in> set n" using a by metis
  then show False using assms(2) by (simp add: name_part_def nul_free_def)
qed

lemma join_Cons2: "p \<noteq> [] \<Longrightarrow> join_dots (n # p) = n @ 46 # join_dots p"
  by (cases p) simp_all

lemma match_context_join:
  assumes "p \<noteq> []" "\<forall>n \<in> set p. name_part n" "\<forall>f \<in> set ns. name_part f" "\<not> prefix p ns"
  shows "match_context ns (join_dots p) = Inr (kept ns p, join_dots (drop (kept ns p) p))"
  using assms
proof (induction ns arbitrary: p)
  case (Cons a ns)
  obtain b q where p: "p = b # q" using Cons.prems(1) by (cases p) auto
  have ab: "name_part a" "name_part b" using Cons.prems p by simp_all
  show ?case
  proof (cases "q = []")
    case True
    then show ?thesis using match_last [OF ab] Cons.prems(4) p by auto
  next
    case False
    then obtain c t where q: "q = c # t" by (cases q) auto
    have j: "join_dots p = b @ 46 # join_dots q" using p False by (simp add: join_Cons2)
    show ?thesis
    proof (cases "a = b")
      case True
      have "match_context (a # ns) (join_dots p) = rmap (\<lambda>(k, rest). (k + 1, rest)) (match_context ns (join_dots q))"
        unfolding j match_context.simps using match_first [OF ab, of "join_dots q"] True by simp
      moreover have "match_context ns (join_dots q) = Inr (kept ns q, join_dots (drop (kept ns q) q))"
        using Cons.prems True p False by (intro Cons.IH) simp_all
      ultimately show ?thesis using True p q by simp
    next
      case False
      then show ?thesis
        unfolding j match_context.simps using match_first [OF ab, of "join_dots q"] p q j by auto
    qed
  qed
qed simp

lemma split_dots_join:
  "p \<noteq> [] \<Longrightarrow> \<forall>n \<in> set p. name_part n \<Longrightarrow> split_dots (join_dots p) = (butlast p, last p)"
proof (induction p rule: induct_list012)
  case (2 n)
  then have "split_at 46 n = None" by (simp add: name_part_def split_at_None)
  then show ?case by (simp add: split_dots.simps [of n])
next
  case (3 n m p)
  then have "split_at 46 (n @ 46 # join_dots (m # p)) = Some (n, join_dots (m # p))" "n \<noteq> []"
    using split_at_first by (simp_all add: name_part_def)
  then show ?case using 3 by (subst join_Cons2, simp) (simp add: split_dots.simps [of "n @ _"])
qed simp

lemma kept_le: "kept ns p \<le> length ns" "p \<noteq> [] \<Longrightarrow> kept ns p < length p"
  by (induction ns p rule: kept.induct) auto

lemma prepareContext_rep:
  assumes "eb_rep b0 eb (frames [] z [])" "p \<noteq> []" "\<forall>n \<in> set p. name_part n" "wf_elems (close z)"
    and "\<forall>f \<in> set (open_names z). name_part f" "\<not> prefix p (open_names z)"
    and "fits b0 (stack_total (frames [] (put_path p None z) []))"
  shows "\<exists>eb'. prepareContext (join_dots p) eb = Inr (last p, eb') \<and>
    eb_rep b0 eb' (frames [] (put_path p None z) [])"
proof -
  let ?k = "kept (open_names z) p"
  have names: "map fst eb = rev ([] # open_names z)"
    using eb_rep_names [OF assms(1)] frames_names [of "[]" z "[]"] by simp
  have "length (map fst eb) = length (rev ([] # open_names z))" using names by (rule arg_cong)
  then have len: "length eb - (?k + 1) = length (open_names z) - ?k" by simp
  have k: "?k < length p" using kept_le(2) assms(2) by blast
  have "set (drop ?k p) \<subseteq> set p" by (rule set_drop_subset)
  then have sd: "split_dots (join_dots (drop ?k p)) = (drop ?k (butlast p), last p)"
    using split_dots_join [of "drop ?k p"] k assms(3) by (auto simp: butlast_drop last_drop)
  obtain eb' where eb': "rbind (popBuilders (length (open_names z) - ?k) eb) (addBuilders (drop ?k (butlast p))) = Inr eb'"
      "eb_rep b0 eb' (frames [] (put_path p None z) [])"
    using prepare_rep [OF assms(1,2,4,7)] by blast
  then obtain eb1 where "popBuilders (length (open_names z) - ?k) eb = Inr eb1"
      "addBuilders (drop ?k (butlast p)) eb1 = Inr eb'"
    by (auto simp: rbind_Inr_iff)
  moreover have "tl (rev (map fst eb)) = open_names z" using names by simp
  ultimately show ?thesis
    using match_context_join [OF assms(2,3,5,6)] sd len eb'(2) by (simp add: prepareContext_def)
qed

lemma put_path_leaf:
  assumes "p \<noteq> []"
  shows "\<exists>m d rest. frames nm (put_path p None z) acc = (m, d) # rest \<and>
    frames nm (put_path p (Some v) z) acc = (m, d @ [(last p, v)]) # rest"
  using assms
proof (induction p "None :: bval option" z arbitrary: nm acc rule: put_path.induct)
  case (4 n m p d n' z)
  then show ?case by (cases "n = n'") auto
qed auto

section \<open>Adding a field\<close>

text \<open>An empty object only opens the way to what may be added to it.\<close>

definition entry :: "byte list list \<Rightarrow> bval \<Rightarrow> byte list list \<times> bval option" where
  "entry p v = (if v = VObject [] then (p @ [bs ''foo''], None) else (p, Some v))"

definition put_entry :: "open_doc \<Rightarrow> byte list list \<times> bval option \<Rightarrow> open_doc" where
  "put_entry z x = put_path (fst x) (snd x) z"

lemma open_names_put: "p \<noteq> [] \<Longrightarrow> open_names (put_path p ov z) = butlast p"
  by (induction p ov z rule: put_path.induct) simp_all

lemma close_put_none: "length (enc_elems (close (put_path p None z))) \<le> length (enc_elems (close (put_path p ov z)))"
  by (induction p ov z rule: put_path.induct) simp_all

lemma wf_close_put:
  assumes "wf_elems (close z)" "\<forall>n \<in> set p. nul_free n" "\<forall>v. ov = Some v \<longrightarrow> wf_value v"
  shows "wf_elems (close (put_path p ov z))"
  using assms
proof (induction p ov z rule: put_path.induct)
  case (2 n ov z)
  then show ?case by (cases ov) auto
qed auto

lemma join_snoc: "p \<noteq> [] \<Longrightarrow> join_dots (p @ [x]) = join_dots p @ 46 # x"
  by (induction p rule: induct_list012) simp_all

lemma name_part_foo: "name_part (bs ''foo'')"
  by (simp add: name_part_def)

lemma empty_object_size:
  assumes "elem_ok n v" "e = enc_elem n v @ t"
  shows "(if vtype v = Object then rmap (\<lambda>n. n = 5) (valuesize e) else Inr False) = Inr (v = VObject [])"
proof (cases "\<exists>s. v = VObject s")
  case True
  then obtain s where s: "v = VObject s" by blast
  have vs: "valuesize e = Inr (int32 (length (enc_value v)))" using assms valuesize_enc by blast
  have "length (enc_value v) < 2 ^ 31" using elem_okD(3) [OF assms(1)] by simp
  then have "unat (int32 (length (enc_value v))) = length (enc_value v)"
    by (simp add: int32_def unat_of_nat take_bit_nat_eq_self)
  then have "int32 (length (enc_value v)) = 5 \<longleftrightarrow> length (enc_value v) = 5"
    using word_unat_eq_iff [of "int32 (length (enc_value v))" 5] by simp
  then show ?thesis using s vs enc_elems_nonempty [of s] by auto
next
  case False
  then have "vtype v \<noteq> Object" by (cases v) auto
  then show ?thesis by auto
qed

lemma append_back_rep:
  assumes "eb_rep b0 eb1 (frames [] (put_path p None z) [])" "p \<noteq> []" "elem_ok n v" "e = enc_elem n v @ t"
    and fits: "fits b0 (length (enc_elems (close (put_path p (Some v) z))))"
  shows "\<exists>eb'. eb_append_back (\<lambda>b. appendAs b e) (last p, eb1) = Inr eb' \<and>
    eb_rep b0 eb' (frames [] (put_path p (Some v) z) [])"
proof -
  obtain m d rest where fr: "frames [] (put_path p None z) [] = (m, d) # rest"
      "frames [] (put_path p (Some v) z) [] = (m, d @ [(last p, v)]) # rest"
    using put_path_leaf [OF assms(2)] by blast
  obtain b st where eb: "eb1 = (m, b) # st"
    using assms(1) fr(1) eb_rep_top by (cases "(b0, eb1, (m, d) # rest)" rule: eb_rep.cases) auto
  have "length (bob_contents b) = length (bob_contents b0) + stack_len ((m, d) # rest)"
    using eb_rep_len assms(1) unfolding fr(1) eb by blast
  moreover have "stack_len ((m, d @ [(last p, v)]) # rest) \<le> stack_total ((m, d @ [(last p, v)]) # rest)"
    by (rule stack_len_total)
  moreover have "stack_total ((m, d @ [(last p, v)]) # rest) = length (enc_elems (close (put_path p (Some v) z)))"
    using stack_total_frames [of "[]" "put_path p (Some v) z" "[]"] fr(2) by simp
  moreover have "stack_len ((m, d @ [(last p, v)]) # rest) = stack_len ((m, d) # rest) + length (enc_elems [(last p, v)])"
    by (cases rest) simp_all
  ultimately have "length (bob_contents b) + length (enc_elems [(last p, v)]) \<le> BufferMaxSize"
    using fits unfolding fits_def by simp
  then obtain b' where b': "appendAs b e (last p) = Inr b'" "bob_extended b (enc_elems [(last p, v)]) b'"
    using bob_sink.writes_room [OF writes_appendAs [OF assms(3), of t "last p"]] assms(4) by blast
  have "eb_rep b0 ((m, b') # st) (frames [] (put_path p (Some v) z) [])"
    using eb_rep_extend [OF _ b'(2)] assms(1) unfolding fr eb by blast
  then show ?thesis using b'(1) eb by (simp add: eb_append_back_def)
qed

lemma eb_appendAs_rep:
  assumes rep: "eb_rep b0 eb (frames [] z [])" and p: "p \<noteq> []" "\<forall>n \<in> set p. name_part n"
    and e: "elem_ok n v" "e = enc_elem n v @ t"
    and z: "wf_elems (close z)" "\<forall>f \<in> set (open_names z). name_part f" "\<not> prefix (fst (entry p v)) (open_names z)"
    and fits: "fits b0 (length (enc_elems (close (put_entry z (entry p v)))))"
  shows "\<exists>eb'. eb_appendAs e (join_dots p) eb = Inr eb' \<and> eb_rep b0 eb' (frames [] (put_entry z (entry p v)) [])"
proof -
  have te: "elem_type e = Inr (vtype v)" using e(2) by simp
  have ap: "eb_appendAs e nm eb = (if v = VObject [] then rmap snd (prepareContext (nm @ bs ''.foo'') eb)
      else rbind (prepareContext nm eb) (eb_append_back (\<lambda>b. appendAs b e)))" for nm
    by (simp only: eb_appendAs_def te rbind_simps empty_object_size [OF e])
  show ?thesis
  proof (cases "v = VObject []")
    case True
    let ?p = "p @ [bs ''foo'']"
    have ent: "entry p v = (?p, None)" using True by (simp add: entry_def)
    have "fits b0 (stack_total (frames [] (put_path ?p None z) []))"
      using fits unfolding ent put_entry_def by (simp add: stack_total_frames)
    from prepareContext_rep [OF rep _ _ z(1,2) _ this] obtain eb' where
      "prepareContext (join_dots ?p) eb = Inr (last ?p, eb')" "eb_rep b0 eb' (frames [] (put_path ?p None z) [])"
      using z(3) p(2) name_part_foo unfolding ent by auto
    then show ?thesis
      unfolding ent put_entry_def using True p(1) by (simp add: ap join_snoc)
  next
    case False
    then have ent: "entry p v = (p, Some v)" by (simp add: entry_def)
    have "fits b0 (stack_total (frames [] (put_path p None z) []))"
      using fits close_put_none [of p z "Some v"] fits_le unfolding ent put_entry_def by (simp add: stack_total_frames)
    from prepareContext_rep [OF rep p z(1,2) _ this] obtain eb1 where
      eb1: "prepareContext (join_dots p) eb = Inr (last p, eb1)" "eb_rep b0 eb1 (frames [] (put_path p None z) [])"
      using z(3) unfolding ent by auto
    show ?thesis
      using append_back_rep [OF eb1(2) p(1) e] False eb1(1) fits by (simp add: ap ent put_entry_def)
  qed
qed

lemma close_fold_le: "length (enc_elems (close z)) \<le> length (enc_elems (close (foldl put_entry z xs)))"
proof (induction xs arbitrary: z)
  case (Cons x xs)
  have "length (enc_elems (close z)) \<le> length (enc_elems (close (put_entry z x)))"
    unfolding put_entry_def by (rule close_put_le)
  then show ?case using Cons [of "put_entry z x"] by simp
qed simp

text \<open>No path ends where the one before it goes through.\<close>

abbreviation no_clash :: "(byte list list \<times> bval option) list \<Rightarrow> bool" where
  "no_clash xs \<equiv> successively (\<lambda>x y. \<not> prefix (fst y) (butlast (fst x))) xs"

lemma eb_append_map_rep:
  assumes "eb_rep b0 eb (frames [] z [])" "wf_elems (close z)" "\<forall>f \<in> set (open_names z). name_part f"
    and "list_all2 (\<lambda>(nm, e) (p, v). nm = join_dots p \<and> (\<exists>n t. elem_ok n v \<and> e = enc_elem n v @ t)) m xs"
    and "\<forall>(p, v) \<in> set xs. p \<noteq> [] \<and> (\<forall>n \<in> set p. name_part n)"
    and "no_clash (map (case_prod entry) xs)"
    and "xs \<noteq> [] \<Longrightarrow> \<not> prefix (fst (case_prod entry (hd xs))) (open_names z)"
    and "fits b0 (length (enc_elems (close (foldl put_entry z (map (case_prod entry) xs)))))"
  shows "\<exists>eb'. eb_append_map m eb = Inr eb' \<and>
    eb_rep b0 eb' (frames [] (foldl put_entry z (map (case_prod entry) xs)) []) \<and>
    wf_elems (close (foldl put_entry z (map (case_prod entry) xs)))"
  using assms
proof (induction xs arbitrary: m eb z)
  case (Cons x xs)
  obtain p v where x: "x = (p, v)" by (cases x) auto
  obtain e m' where m: "m = (join_dots p, e) # m'"
      "list_all2 (\<lambda>(nm, e) (p, v). nm = join_dots p \<and> (\<exists>n t. elem_ok n v \<and> e = enc_elem n v @ t)) m' xs"
    and e: "\<exists>n t. elem_ok n v \<and> e = enc_elem n v @ t"
    using Cons.prems(4) by (auto simp: x list_all2_Cons2)
  have p: "p \<noteq> []" "\<forall>n \<in> set p. name_part n" using Cons.prems(5) x by auto
  let ?z = "put_entry z (entry p v)"
  have f: "fits b0 (length (enc_elems (close (foldl put_entry ?z (map (case_prod entry) xs)))))"
    using Cons.prems(8) by (simp add: x)
  then have f1: "fits b0 (length (enc_elems (close ?z)))" using close_fold_le fits_le by blast
  obtain n t where nt: "elem_ok n v" "e = enc_elem n v @ t" using e by blast
  have "\<not> prefix (fst (entry p v)) (open_names z)" using Cons.prems(7) x by simp
  from eb_appendAs_rep [OF Cons.prems(1) p nt Cons.prems(2,3) this f1]
  obtain eb1 where eb1: "eb_appendAs e (join_dots p) eb = Inr eb1" "eb_rep b0 eb1 (frames [] ?z [])" by blast
  have pn: "fst (entry p v) \<noteq> []" "\<forall>n \<in> set (fst (entry p v)). name_part n"
    using p name_part_foo by (auto simp: entry_def simp del: bs_simps)
  have on: "open_names ?z = butlast (fst (entry p v))"
    unfolding put_entry_def using pn(1) by (rule open_names_put)
  have "wf_elems (close ?z)"
    unfolding put_entry_def
  proof (rule wf_close_put [OF Cons.prems(2)])
    show "\<forall>n \<in> set (fst (entry p v)). nul_free n" using pn(2) by (auto simp: name_part_def)
    show "\<forall>w. snd (entry p v) = Some w \<longrightarrow> wf_value w" using e elem_okD(2) by (auto simp: entry_def)
  qed
  moreover have "\<forall>f \<in> set (open_names ?z). name_part f" using on pn(2) in_set_butlastD by fastforce
  moreover have "no_clash (map (case_prod entry) xs)" "xs \<noteq> [] \<Longrightarrow> \<not> prefix (fst (case_prod entry (hd xs))) (open_names ?z)"
    using Cons.prems(6) on by (cases xs; auto simp: x)+
  ultimately obtain eb2 where "eb_append_map m' eb1 = Inr eb2"
      "eb_rep b0 eb2 (frames [] (foldl put_entry ?z (map (case_prod entry) xs)) [])"
      "wf_elems (close (foldl put_entry ?z (map (case_prod entry) xs)))"
    using Cons.IH [OF eb1(2) _ _ m(2) _ _ _ f] Cons.prems(5) by auto
  then show ?case using eb1(1) by (simp add: m(1) x)
qed auto

lemma eb_done_rep:
  assumes "eb_rep b0 eb (frames [] z [])" "wf_elems (close z)" "fits b0 (length (enc_elems (close z)))"
  shows "\<exists>b. eb_done eb = Inr [([], b)] \<and> bob_extended b0 (enc_elems (close z)) b"
proof -
  have "fits b0 (stack_total (frames [] z []))" using assms(3) by (simp add: stack_total_frames)
  from popBuilders_rep [OF assms(1,2) this] obtain eb' where
    eb': "popBuilders (length (open_names z)) eb = Inr eb'" "eb_rep b0 eb' [([], close z)]" by blast
  have "length (map fst eb) = length (map fst (frames [] z []))" using eb_rep_names [OF assms(1)] by (rule arg_cong)
  then have "length eb - 1 = length (open_names z)" unfolding frames_names by simp
  moreover obtain b where "eb' = [([], b)]" "bob_extended b0 (enc_elems (close z)) b"
    using eb'(2) by (cases "(b0, eb', [([] :: byte list, close z)])" rule: eb_rep.cases) auto
  ultimately show ?thesis using eb'(1) by (simp add: eb_done_def)
qed

section \<open>The sorted fields\<close>

definition sort_fields :: "(byte list \<times> 'a) list \<Rightarrow> (byte list \<times> 'a) list" where
  "sort_fields f = foldl (\<lambda>m (n, v). map_put n v m) [] f"

abbreviation same_entries :: "(byte list \<times> mem) list \<Rightarrow> bdoc \<Rightarrow> bool" where
  "same_entries \<equiv> list_all2 (\<lambda>(k, e) (n, v). k = n \<and> (\<exists>t. elem_ok n v \<and> e = enc_elem n v @ t))"

lemma map_put_same:
  "same_entries m d \<Longrightarrow> elem_ok n v \<Longrightarrow> same_entries (map_put n (enc_elem n v @ t) m) (map_put n v d)"
  by (induction m d rule: list_all2_induct) auto

lemma bson2map_enc:
  assumes "wf_doc f"
  shows "\<exists>m. bson2map (encode f @ r) = Inr m \<and> same_entries m (sort_fields f)"
proof -
  let ?body = "(\<lambda>m e. rbind (fieldName e) (\<lambda>p. rmap (\<lambda>s. Go (map_put s e m)) (cstr p)))
    :: _ \<Rightarrow> _ \<Rightarrow> (_, (byte list \<times> mem) list) flow res"
  have "\<exists>m'. each ?body m (elem_ptrs f q) = Inr (Go m') \<and> same_entries m' (foldl (\<lambda>m (n, v). map_put n v m) d f)"
    if "elems_ok f" "same_entries m d" for f m d q
    using that
  proof (induction f arbitrary: m d)
    case (Cons a f)
    obtain n v where a: "a = (n, v)" by (cases a) auto
    have ok: "elem_ok n v" "elems_ok f" using Cons.prems by (simp_all add: a)
    have "?body m (enc_elem n v @ enc_elems f @ q) = Inr (Go (map_put n (enc_elem n v @ enc_elems f @ q) m))"
      using elem_okD(1) [OF ok(1)] by (simp add: cstr_nul)
    then show ?case
      using Cons.IH [OF ok(2) map_put_same [OF Cons.prems(2) ok(1), of "enc_elems f @ q"]] by (simp add: a)
  qed simp
  from this [OF wf_docD(4) [OF assms], of "[]" "[]" "0 # r"] show ?thesis
    using assms by (auto simp: bson2map_def sort_fields_def)
qed

lemma map_put_keys: "fst ` set (map_put k v m) = insert k (fst ` set m)"
  by (induction k v m rule: map_put.induct) (auto split: if_splits)

lemma map_put_set: "set (map_put k v m) \<subseteq> insert (k, v) (set m)"
  by (induction k v m rule: map_put.induct) (auto split: if_splits)

abbreviation sorted_fields :: "(byte list \<times> 'a) list \<Rightarrow> bool" where
  "sorted_fields m \<equiv> sorted_wrt (\<lambda>x y. bytes_cmp (fst x) (fst y) < 0) m"

lemma map_put_sorted: "sorted_fields m \<Longrightarrow> sorted_fields (map_put k v m)"
proof (induction m)
  case (Cons a m)
  obtain k' v' where a: "a = (k', v')" by (cases a) auto
  have tr: "bytes_cmp k x < 0" if "bytes_cmp k k' < 0" "bytes_cmp k' x < 0" for x
    using bytes_order.cmp_less_le_trans [OF that(1), of x] that(2) by simp
  consider (less) "bytes_cmp k k' < 0" | (eq) "k = k'" | (gt) "bytes_cmp k' k < 0"
    using bytes_order.cmp_neg_swap [of k' k] bytes_cmp_eq_0 [of k k'] by linarith
  then show ?case
  proof cases
    case less
    then show ?thesis using Cons.prems tr by (auto simp: a)
  next
    case eq
    then show ?thesis using Cons.prems by (auto simp: a)
  next
    case gt
    then have "0 < bytes_cmp k k'" using bytes_order.cmp_neg_swap [of k' k] by simp
    then show ?thesis using Cons gt map_put_set [of k v m] by (auto simp: a)
  qed
qed simp

lemma sort_fields_sorted: "sorted_fields (sort_fields f)"
proof -
  have "sorted_fields m \<Longrightarrow> sorted_fields (foldl (\<lambda>m (n, v). map_put n v m) m f)" for m
    by (induction f arbitrary: m) (auto intro: map_put_sorted)
  then show ?thesis by (simp add: sort_fields_def)
qed

lemma map_put_new: "k \<notin> fst ` set m \<Longrightarrow> set (map_put k v m) = insert (k, v) (set m)"
  by (induction k v m rule: map_put.induct) auto

lemma sort_fields_set: "distinct (map fst f) \<Longrightarrow> set (sort_fields f) = set f"
proof -
  have "distinct (map fst f) \<Longrightarrow> fst ` set f \<inter> fst ` set m = {} \<Longrightarrow>
      set (foldl (\<lambda>m (n, v). map_put n v m) m f) = set m \<union> set f" for m
  proof (induction f arbitrary: m)
    case (Cons a f)
    obtain n v where a: "a = (n, v)" by (cases a) auto
    then have "set (map_put n v m) = insert (n, v) (set m)" using Cons.prems by (intro map_put_new) auto
    moreover have "fst ` set f \<inter> fst ` set (map_put n v m) = {}" using Cons.prems a by (auto simp: map_put_keys)
    ultimately show ?case using Cons.IH [of "map_put n v m"] Cons.prems by (simp add: a)
  qed simp
  then show "distinct (map fst f) \<Longrightarrow> set (sort_fields f) = set f" by (simp add: sort_fields_def)
qed

section \<open>The nested document\<close>

definition nest :: "(byte list list \<times> bval option) list \<Rightarrow> bdoc" where
  "nest xs = close (foldl put_entry (Open [] None) xs)"

definition under :: "byte list \<Rightarrow> byte list list \<times> bval option \<Rightarrow> bool" where
  "under n x = (\<exists>m p. fst x = n # m # p)"

abbreviation inside :: "byte list \<Rightarrow> (byte list list \<times> bval option) list \<Rightarrow> (byte list list \<times> bval option) list" where
  "inside n xs \<equiv> map (\<lambda>(p, ov). (tl p, ov)) (takeWhile (under n) xs)"

lemma fold_close_both:
  "\<forall>x \<in> set xs. fst x \<noteq> [] \<Longrightarrow>
   (\<forall>d. close (foldl put_entry (Open d None) xs) = d @ nest xs) \<and>
   (\<forall>d n z. close (foldl put_entry (Open d (Some (n, z))) xs) =
      d @ (n, VObject (close (foldl put_entry z (inside n xs)))) # nest (dropWhile (under n) xs))"
proof (induction xs)
  case Nil
  show ?case by (simp add: nest_def)
next
  case (Cons x xs)
  obtain p ov where x: "x = (p, ov)" by (cases x) auto
  have "p \<noteq> []" using Cons.prems by (simp add: x)
  then consider (leaf) m where "p = [m]" | (path) m k q where "p = m # k # q" by (metis list.exhaust)
  note pcases = this
  have IH: "close (foldl put_entry (Open d None) xs) = d @ nest xs"
    "close (foldl put_entry (Open d (Some (n, z))) xs) =
      d @ (n, VObject (close (foldl put_entry z (inside n xs)))) # nest (dropWhile (under n) xs)" for d n z
    using Cons by simp_all
  have put: "foldl put_entry z (x # xs) = foldl put_entry (put_path p ov z) xs" for z
    by (simp add: x put_entry_def)
  have nestx: "p = [m] \<Longrightarrow> nest (x # xs) = leaf_field m ov @ nest xs"
    "p = m # k # q \<Longrightarrow> nest (x # xs) = (m, VObject (close (foldl put_entry (put_path (k # q) ov (Open [] None)) (inside m xs)))) #
        nest (dropWhile (under m) xs)" for m k q
    by (simp_all add: nest_def [of "x # xs"] put IH del: foldl_Cons)
  have one: "close (foldl put_entry (Open d None) (x # xs)) = d @ nest (x # xs)" for d
    using pcases by cases (simp_all add: put IH nestx del: foldl_Cons)
  have two: "close (foldl put_entry (Open d (Some (n, z))) (x # xs)) =
      d @ (n, VObject (close (foldl put_entry z (inside n (x # xs))))) # nest (dropWhile (under n) (x # xs))" for d n z
  proof (cases "under n x")
    case True
    then obtain k q where "p = n # k # q" by (auto simp: under_def x)
    then show ?thesis using True by (simp add: put IH del: foldl_Cons) (simp add: x put_entry_def)
  next
    case False
    from pcases show ?thesis
    proof cases
      case (leaf m)
      then show ?thesis using False by (simp add: put IH nestx del: foldl_Cons)
    next
      case (path m k q)
      then have "m \<noteq> n" using False by (auto simp: under_def x)
      then show ?thesis using False path by (simp add: put IH nestx del: foldl_Cons)
    qed
  qed
  show ?case using one two by blast
qed

lemma nest_Cons:
  assumes "\<forall>x \<in> set xs. fst x \<noteq> []"
  shows "nest (([n], ov) # xs) = leaf_field n ov @ nest xs"
    and "nest ((n # m # p, ov) # xs) = (n, VObject (nest ((m # p, ov) # inside n xs))) # nest (dropWhile (under n) xs)"
  using fold_close_both [OF assms] by (simp_all add: nest_def [of "_ # _"] put_entry_def [of _ "(_, _)"])

text \<open>Paths in the order of their names; names between two that go through \<open>n\<close> go through \<open>n\<close> too.\<close>

abbreviation sorted_paths :: "(byte list list \<times> 'a) list \<Rightarrow> bool" where
  "sorted_paths xs \<equiv> sorted_wrt (\<lambda>x y. bytes_cmp (join_dots (fst x)) (join_dots (fst y)) < 0) xs"

lemma bytes_cmp_prefix [simp]: "bytes_cmp (n @ x) (n @ y) = bytes_cmp x y"
  by (induction n) simp_all

lemma bytes_between:
  "bytes_cmp (n @ 46 # a) y < 0 \<Longrightarrow> bytes_cmp y (n @ 46 # c) < 0 \<Longrightarrow> \<exists>b. y = n @ 46 # b"
proof (induction n arbitrary: y)
  case Nil
  then show ?case
    using byte_order.cmp_neg_swap [of 46 "hd y"] by (cases y) (auto split: if_splits)
next
  case (Cons x n)
  then show ?case
    using byte_order.cmp_neg_swap [of x "hd y"] by (cases y) (auto split: if_splits)
qed

lemma join_under:
  assumes "join_dots q = n @ 46 # b" "\<forall>x \<in> set q. name_part x" "46 \<notin> set n"
  shows "\<exists>m p. q = n # m # p"
proof -
  consider (a) "q = []" | (b) x where "q = [x]" | (c) x m p where "q = x # m # p" by (metis list.exhaust)
  then show ?thesis
  proof cases
    case a
    then show ?thesis using assms(1) by simp
  next
    case (b x)
    then have "46 \<in> set x" using assms(1) by simp
    then show ?thesis using assms(2) b by (simp add: name_part_def)
  next
    case (c x m p)
    have "46 \<notin> set x" using assms(2) c by (simp add: name_part_def)
    then have "split_at 46 (join_dots q) = Some (x, join_dots (m # p))"
      using split_at_first [of 46 x] c by simp
    moreover have "split_at 46 (join_dots q) = Some (n, b)" using split_at_first [OF assms(3)] assms(1) by simp
    ultimately show ?thesis using c by simp
  qed
qed

text \<open>What comes after the group of \<open>n\<close> does not go through \<open>n\<close>.\<close>

lemma after_group:
  assumes "sorted_paths ((n # m # p, ov) # xs)" "\<forall>x \<in> set xs. \<forall>c \<in> set (fst x). name_part c" "46 \<notin> set n"
    and "x \<in> set (dropWhile (under n) xs)"
  shows "\<not> under n x"
proof
  assume u: "under n x"
  obtain y ys where y: "dropWhile (under n) xs = y # ys" using assms(4) by (cases "dropWhile (under n) xs") auto
  have ny: "\<not> under n y" using hd_dropWhile [of "under n" xs] y by simp
  have xy: "x \<in> set ys" using assms(4) u ny y by auto
  have xs: "xs = takeWhile (under n) xs @ y # ys" using takeWhile_dropWhile_id [of "under n" xs] y by simp
  have "sorted_paths ((n # m # p, ov) # takeWhile (under n) xs @ y # ys)" using assms(1) xs by metis
  then have "bytes_cmp (join_dots (n # m # p)) (join_dots (fst y)) < 0" "bytes_cmp (join_dots (fst y)) (join_dots (fst x)) < 0"
    using xy by (auto simp: sorted_wrt_append)
  moreover obtain k q where "fst x = n # k # q" using u by (auto simp: under_def)
  ultimately obtain b where "join_dots (fst y) = n @ 46 # b"
    using bytes_between [of n "join_dots (m # p)" "join_dots (fst y)" "join_dots (k # q)"] by auto
  moreover have "\<forall>c \<in> set (fst y). name_part c" using assms(2) xs by (metis in_set_conv_decomp)
  ultimately show False using join_under [of "fst y" n b] assms(3) ny by (auto simp: under_def)
qed

abbreviation prefix_free :: "(byte list list \<times> 'a) list \<Rightarrow> bool" where
  "prefix_free xs \<equiv> pairwise (\<lambda>p q. \<not> prefix p q) (fst ` set xs)"

lemma join_first:
  assumes "p \<noteq> []" "\<forall>c \<in> set p. name_part c"
  shows "if tl p = [] then join_dots p = hd p \<and> split_at 46 (join_dots p) = None
    else split_at 46 (join_dots p) = Some (hd p, join_dots (tl p)) \<and> 46 \<in> set (join_dots p)"
proof (cases p rule: remdups_adj.cases)
  case (2 x)
  then show ?thesis using assms split_at_absent(2) [of 46 x] by (simp add: name_part_def)
next
  case (3 x y q)
  then show ?thesis using assms split_at_absent(1) [of 46 x "join_dots (y # q)"] by (simp add: name_part_def)
qed (use assms in simp)

lemma lookup_skip:
  assumes "46 \<notin> set n" "p \<noteq> []" "\<forall>c \<in> set p. name_part c" "hd p \<noteq> n"
  shows "lookup_dotted ((n, w) # e) (join_dots p) = lookup_dotted e (join_dots p)"
proof -
  have "join_dots p \<noteq> n" using join_first [OF assms(2,3)] assms(1,4) by (auto split: if_splits)
  then show ?thesis
    using join_first [OF assms(2,3)] assms(4)
    by (auto simp: lookup_dotted.simps [of _ "join_dots p"] split: if_splits option.splits)
qed

lemma lookup_here: "lookup_dotted ((n, v) # e) n = Some v"
  by (simp add: lookup_dotted.simps [of _ n])

lemma nest_names:
  "\<forall>x \<in> set xs. fst x \<noteq> [] \<Longrightarrow> fst ` set (nest xs) \<subseteq> (\<lambda>x. hd (fst x)) ` set xs"
proof (induction "length xs" arbitrary: xs rule: less_induct)
  case less
  show ?case
  proof (cases xs)
    case Nil
    then show ?thesis by (simp add: nest_def)
  next
    case (Cons x ys)
    obtain q ov where x: "x = (q, ov)" by (cases x) auto
    have ne: "\<forall>x \<in> set ys. fst x \<noteq> []" using less.prems Cons by simp
    show ?thesis
    proof (cases q rule: remdups_adj.cases)
      case 1
      then show ?thesis using less.prems Cons x by simp
    next
      case (2 n)
      have "fst ` set (nest ys) \<subseteq> (\<lambda>x. hd (fst x)) ` set ys" using less.hyps ne Cons by simp
      then show ?thesis unfolding Cons x 2 nest_Cons(1) [OF ne] by (cases ov) auto
    next
      case (3 n m r)
      let ?rest = "dropWhile (under n) ys"
      have "set ?rest \<subseteq> set ys" using set_dropWhileD by fast
      moreover have "fst ` set (nest ?rest) \<subseteq> (\<lambda>x. hd (fst x)) ` set ?rest"
        using less.hyps [of ?rest] ne calculation Cons length_dropWhile_le [of "under n" ys]
        by (auto simp: le_imp_less_Suc)
      ultimately show ?thesis unfolding Cons x 3 nest_Cons(2) [OF ne] by auto
    qed
  qed
qed

lemma lookup_group:
  assumes "p \<noteq> []" "\<forall>c \<in> set (n # p). name_part c" "\<forall>k \<in> fst ` set e. 46 \<notin> set k"
  shows "lookup_dotted ((n, VObject d) # e) (join_dots (n # p)) = lookup_dotted d (join_dots p)"
proof -
  have sp: "split_at 46 (join_dots (n # p)) = Some (n, join_dots p)" "46 \<in> set (join_dots (n # p))"
    using join_first [of "n # p"] assms by auto
  have "join_dots (n # p) \<notin> fst ` set ((n, VObject d) # e)"
    using sp(2) assms by (auto simp: name_part_def)
  then have "map_of ((n, VObject d) # e) (join_dots (n # p)) = None" unfolding map_of_eq_None_iff .
  then show ?thesis using sp(1) by (simp add: lookup_dotted.simps [of _ "join_dots (n # p)"])
qed

text \<open>The group of \<open>n\<close> with the common part taken off is again a list of the same kind.\<close>

lemma inside_group:
  fixes ys :: "(byte list list \<times> bval option) list" and n :: "byte list" and q :: "byte list list" and ov :: "bval option"
  defines "g \<equiv> map (\<lambda>(p, ov). (tl p, ov)) ((n # q, ov) # takeWhile (under n) ys)"
  assumes "sorted_paths ((n # q, ov) # ys)" "prefix_free ((n # q, ov) # ys)" "q \<noteq> []"
    and "\<forall>x \<in> set ((n # q, ov) # ys). \<forall>c \<in> set (fst x). name_part c"
  shows "sorted_paths g" "prefix_free g" "\<forall>x \<in> set g. fst x \<noteq> [] \<and> (\<forall>c \<in> set (fst x). name_part c)"
proof -
  let ?ys = "(n # q, ov) # takeWhile (under n) ys"
  have shape: "\<exists>m p. fst x = n # m # p" if "x \<in> set ?ys" for x
    using that assms(4) set_takeWhileD [of x "under n" ys] by (cases q) (auto simp: under_def)
  have sub: "set ?ys \<subseteq> set ((n # q, ov) # ys)" using set_takeWhileD [of _ "under n" ys] by auto
  have "sorted_paths (takeWhile (under n) ys @ dropWhile (under n) ys)" using assms(2) by simp
  then have "sorted_paths (takeWhile (under n) ys)" unfolding sorted_wrt_append by blast
  moreover have "\<forall>y \<in> set (takeWhile (under n) ys). bytes_cmp (join_dots (n # q)) (join_dots (fst y)) < 0"
    using assms(2) set_takeWhileD [of _ "under n" ys] by simp
  ultimately have so: "sorted_paths ?ys" by simp
  have cmp: "bytes_cmp (join_dots (tl (fst x))) (join_dots (tl (fst y))) = bytes_cmp (join_dots (fst x)) (join_dots (fst y))"
    if "x \<in> set ?ys" "y \<in> set ?ys" for x y
    using shape [OF that(1)] shape [OF that(2)] by auto
  have "sorted_wrt (\<lambda>x y. bytes_cmp (join_dots (tl (fst x))) (join_dots (tl (fst y))) < 0) ?ys"
    by (rule sorted_wrt_mono_rel [OF _ so]) (simp only: cmp)
  then show "sorted_paths g"
    unfolding g_def sorted_wrt_map by (simp add: case_prod_beta')
  have from_ys: "\<exists>y. y \<in> set ?ys \<and> fst x = tl (fst y)" if "x \<in> set g" for x
  proof -
    have "x \<in> (\<lambda>(p, ov). (tl p, ov)) ` set ?ys" using that by (simp only: g_def set_map)
    then obtain y where "y \<in> set ?ys" "x = (\<lambda>(p, ov). (tl p, ov)) y" by blast
    then show ?thesis by (intro exI [of _ y]) (simp only: case_prod_beta fst_conv simp_thms)
  qed
  show "prefix_free g"
  proof (rule pairwiseI)
    fix a b
    assume ab: "a \<in> fst ` set g" "b \<in> fst ` set g" "a \<noteq> b"
    obtain x where x: "x \<in> set ?ys" "a = tl (fst x)" using ab(1) from_ys by blast
    obtain y where y: "y \<in> set ?ys" "b = tl (fst y)" using ab(2) from_ys by blast
    note xy = x(1) y(1) x(2) y(2)
    have "n # a = fst x" "n # b = fst y" using xy shape [OF xy(1)] shape [OF xy(2)] by auto
    then have "n # a \<in> fst ` set ((n # q, ov) # ys)" "n # b \<in> fst ` set ((n # q, ov) # ys)" using xy sub by blast+
    then have "\<not> prefix (n # a) (n # b)" using assms(3) ab(3) unfolding pairwise_def by blast
    then show "\<not> prefix a b" by simp
  qed
  show "\<forall>x \<in> set g. fst x \<noteq> [] \<and> (\<forall>c \<in> set (fst x). name_part c)"
  proof
    fix x
    assume "x \<in> set g"
    then obtain y where y: "y \<in> set ?ys" "fst x = tl (fst y)" using from_ys by blast
    obtain m p where mp: "fst y = n # m # p" using shape [OF y(1)] by blast
    have "\<forall>c \<in> set (fst y). name_part c" using y(1) assms(5) sub by blast
    then show "fst x \<noteq> [] \<and> (\<forall>c \<in> set (fst x). name_part c)" using y(2) mp by simp
  qed
qed

lemma nest_leaf_step:
  assumes "prefix_free (([n], ov) # ys)" "sorted_paths (([n], ov) # ys)" "\<forall>x \<in> set ys. fst x \<noteq> []"
    and "name_part n" "\<forall>c \<in> set p. name_part c" "(p, Some v) \<in> set ys"
    and "lookup_dotted (nest ys) (join_dots p) = Some v"
  shows "lookup_dotted (nest (([n], ov) # ys)) (join_dots p) = Some v"
proof -
  have "bytes_cmp (join_dots [n]) (join_dots p) < 0" using assms(2,6) by auto
  then have "[n] \<noteq> p" by auto
  moreover have "p \<in> fst ` set (([n], ov) # ys)" using assms(6) by (force simp: image_iff)
  ultimately have "\<not> prefix [n] p" using pairwiseD [OF assms(1), of "[n]" p] by simp
  moreover have "p \<noteq> []" using bspec [OF assms(3,6)] by simp
  ultimately have p: "p \<noteq> []" "hd p \<noteq> n" by (cases p; simp)+
  have "46 \<notin> set n" using assms(4) by (simp add: name_part_def)
  then show ?thesis
    using lookup_skip [OF _ p(1) assms(5) p(2)] nest_Cons(1) [OF assms(3)] assms(7) by (cases ov) simp_all
qed

lemma nest_group_step:
  assumes "\<forall>x \<in> set ys. fst x \<noteq> [] \<and> (\<forall>c \<in> set (fst x). name_part c)" "\<forall>c \<in> set (n # k # t). name_part c"
    and "lookup_dotted (nest ((m # r, ov) # inside n ys)) (join_dots (k # t)) = Some v"
  shows "lookup_dotted (nest ((n # m # r, ov) # ys)) (join_dots (n # k # t)) = Some v"
proof -
  let ?rest = "dropWhile (under n) ys"
  have ne: "\<forall>x \<in> set ys. fst x \<noteq> []" using assms(1) by blast
  have "\<forall>a \<in> fst ` set (nest ?rest). 46 \<notin> set a"
  proof
    fix a assume "a \<in> fst ` set (nest ?rest)"
    moreover have "set ?rest \<subseteq> set ys" using set_dropWhileD by fastforce
    ultimately obtain y where y: "y \<in> set ys" "a = hd (fst y)" using nest_names [of ?rest] assms(1) by blast
    then show "46 \<notin> set a" using bspec [OF assms(1) y(1)] hd_in_set [of "fst y"] by (auto simp: name_part_def)
  qed
  from lookup_group [OF _ _ this, of "k # t" n] show ?thesis
    using assms(2,3) nest_Cons(2) [OF ne] by simp
qed

lemma nest_rest_step:
  assumes "prefix_free ((n # m # r, ov) # ys)" "sorted_paths ((n # m # r, ov) # ys)"
    and "\<forall>x \<in> set ys. fst x \<noteq> [] \<and> (\<forall>c \<in> set (fst x). name_part c)" "name_part n"
    and "\<forall>c \<in> set p. name_part c" "(p, Some v) \<in> set (dropWhile (under n) ys)"
    and "lookup_dotted (nest (dropWhile (under n) ys)) (join_dots p) = Some v"
  shows "lookup_dotted (nest ((n # m # r, ov) # ys)) (join_dots p) = Some v"
proof -
  have ne: "\<forall>x \<in> set ys. fst x \<noteq> []" using assms(3) by blast
  have n46: "46 \<notin> set n" using assms(4) by (simp add: name_part_def)
  have nu: "\<not> under n (p, Some v)"
    using after_group [of n m r ov ys "(p, Some v)"] assms(2,3,6) n46 by simp
  have py: "(p, Some v) \<in> set ys" using assms(6) by (rule set_dropWhileD)
  then have "p \<noteq> []" using bspec [OF ne py] by simp
  have "p \<noteq> [n]"
  proof
    assume p: "p = [n]"
    moreover have "p \<in> fst ` set ((n # m # r, ov) # ys)" using py by (force simp: image_iff)
    ultimately have "\<not> prefix p (n # m # r)"
      using pairwiseD [OF assms(1), of p "n # m # r"] by simp
    then show False using p by simp
  qed
  then have "hd p \<noteq> n" using nu \<open>p \<noteq> []\<close> by (cases p; cases "tl p") (auto simp: under_def)
  from lookup_skip [OF n46 \<open>p \<noteq> []\<close> assms(5) this] show ?thesis
    using assms(7) nest_Cons(2) [OF ne] by simp
qed

lemma paths_size_inside:
  "sum_list (map (\<lambda>x. length (fst x)) (inside n ys)) \<le> sum_list (map (\<lambda>x. length (fst x)) ys)"
  by (induction ys) auto

lemma paths_size_dropWhile:
  "sum_list (map (\<lambda>x. length (fst x)) (dropWhile P ys)) \<le> sum_list (map (\<lambda>x. length (fst x)) ys)"
  by (induction ys) auto

lemma inside_mem:
  assumes "(p, w) \<in> set ((n # m # r, ov) # takeWhile (under n) ys)"
  obtains k t where "p = n # k # t" "(k # t, w) \<in> set ((m # r, ov) # inside n ys)"
proof -
  let ?f = "\<lambda>(p, ov). (tl p, ov)"
  obtain k t where p: "p = n # k # t"
    using assms set_takeWhileD [of "(p, w)" "under n" ys] by (auto simp: under_def)
  have "(k # t, w) = ?f (p, w)" by (simp add: p)
  then have "(k # t, w) \<in> ?f ` set ((n # m # r, ov) # takeWhile (under n) ys)" using assms by (rule image_eqI)
  then have "(k # t, w) \<in> set ((m # r, ov) # inside n ys)" by simp
  with p that show thesis by blast
qed

lemma sorted_paths_dropWhile: "sorted_paths ys \<Longrightarrow> sorted_paths (dropWhile P ys)"
  by (induction ys) simp_all

lemma prefix_free_subset: "prefix_free xs \<Longrightarrow> set ys \<subseteq> set xs \<Longrightarrow> prefix_free ys"
  using pairwise_subset [OF _ image_mono] by blast

lemma nest_lookup:
  assumes "sorted_paths xs" "prefix_free xs" "\<forall>x \<in> set xs. fst x \<noteq> [] \<and> (\<forall>c \<in> set (fst x). name_part c)"
    and "(p, Some v) \<in> set xs"
  shows "lookup_dotted (nest xs) (join_dots p) = Some v"
  using assms
proof (induction "sum_list (map (\<lambda>x. length (fst x)) xs)" arbitrary: xs p rule: less_induct)
  case less
  have pn: "p \<noteq> []" "\<forall>c \<in> set p. name_part c" using bspec [OF less.prems(3,4)] by simp_all
  obtain q ov ys where Cons: "xs = (q, ov) # ys" using less.prems(4) by (cases xs) auto
  have q: "q \<noteq> []" "\<forall>c \<in> set q. name_part c" and ys: "\<forall>x \<in> set ys. fst x \<noteq> [] \<and> (\<forall>c \<in> set (fst x). name_part c)"
    using less.prems(3) Cons by auto
  have pf: "prefix_free ys" by (rule prefix_free_subset [OF less.prems(2)]) (auto simp: Cons)
  have so: "sorted_paths ys" using less.prems(1) Cons by simp
  obtain n q' where q': "q = n # q'" using q(1) by (cases q) auto
  have n: "name_part n" using q(2) q' by simp
  show ?case
  proof (cases q')
    case Nil
    have xs: "xs = ([n], ov) # ys" using Cons q' Nil by simp
    have ne: "\<forall>x \<in> set ys. fst x \<noteq> []" using ys by blast
    show ?thesis
    proof (cases "(p, Some v) = ([n], ov)")
      case True
      then show ?thesis using nest_Cons(1) [OF ne, of n ov] lookup_here unfolding xs by auto
    next
      case False
      then have py: "(p, Some v) \<in> set ys" using less.prems(4) unfolding xs by auto
      have "lookup_dotted (nest ys) (join_dots p) = Some v"
        by (rule less.hyps [OF _ so pf ys py]) (simp add: xs)
      with less.prems(1,2) show ?thesis unfolding xs by (intro nest_leaf_step ne n pn py)
    qed
  next
    case (Cons m r)
    let ?rest = "dropWhile (under n) ys" and ?in = "(m # r, ov) # inside n ys"
    have xs: "xs = (n # m # r, ov) # ys" using \<open>xs = (q, ov) # ys\<close> q' Cons by simp
    have "set ys = set (takeWhile (under n) ys) \<union> set ?rest"
      using arg_cong [OF takeWhile_dropWhile_id [of "under n" ys], of set] unfolding set_append by (rule sym)
    then consider (inside) "(p, Some v) \<in> set ((n # m # r, ov) # takeWhile (under n) ys)" | (rest) "(p, Some v) \<in> set ?rest"
      using less.prems(4) unfolding xs by auto
    then show ?thesis
    proof cases
      case inside
      then obtain k t where p: "p = n # k # t" and mem: "(k # t, Some v) \<in> set ?in" by (rule inside_mem)
      have "\<forall>x \<in> set xs. \<forall>c \<in> set (fst x). name_part c" using less.prems(3) by blast
      note g = inside_group [of n "m # r" ov ys, folded xs, OF less.prems(1,2) _ this]
      have "sum_list (map (\<lambda>x. length (fst x)) ?in) < sum_list (map (\<lambda>x. length (fst x)) xs)"
        unfolding xs using paths_size_inside [of n ys] by simp
      from less.hyps [OF this _ _ _ mem] have "lookup_dotted (nest ?in) (join_dots (k # t)) = Some v" using g by simp
      then show ?thesis unfolding xs p using ys pn(2) p by (intro nest_group_step) auto
    next
      case rest
      have "lookup_dotted (nest ?rest) (join_dots p) = Some v"
      proof (rule less.hyps [OF _ sorted_paths_dropWhile [OF so] prefix_free_subset [OF pf] _ rest])
        show "sum_list (map (\<lambda>x. length (fst x)) ?rest) < sum_list (map (\<lambda>x. length (fst x)) xs)"
          unfolding xs using paths_size_dropWhile [of "under n" ys] by simp
      qed (use ys in \<open>auto dest: set_dropWhileD\<close>)
      from nest_rest_step [OF _ _ ys n pn(2) rest this] show ?thesis using less.prems(1,2) unfolding xs by blast
    qed
  qed
qed

section \<open>From dotted names to nested objects\<close>

lemma split_loop_parts: "x \<in> set (split_loop c s) \<Longrightarrow> c \<notin> set x \<and> set x \<subseteq> set s"
proof (induction c s rule: split_loop.induct)
  case (1 c s)
  show ?case
  proof (cases "split_at c s")
    case None
    then have "x = s" using "1.prems" by (simp add: split_loop.simps [of c s])
    then show ?thesis using None split_at_None [of c s] by simp
  next
    case (Some lr)
    obtain l r where lr: "lr = (l, r)" by (cases lr)
    have "s = l @ c # r" "c \<notin> set l" using Some lr split_at_Some by blast+
    moreover have "x = l \<or> x \<in> set (split_loop c r)"
      using "1.prems" Some lr by (simp add: split_loop.simps [of c s])
    moreover have "x \<in> set (split_loop c r) \<Longrightarrow> c \<notin> set x \<and> set x \<subseteq> set r"
      using "1.IH" [OF Some] lr by simp
    ultimately show ?thesis by auto
  qed
qed

definition nested :: "bdoc \<Rightarrow> bdoc" where
  "nested f = nest (map (\<lambda>(n, v). (split_loop 46 n, Some v)) (sort_fields f))"

definition dotted_ok :: "bdoc \<Rightarrow> bool" where
  "dotted_ok f = (distinct (map fst f) \<and> (\<forall>(n, v) \<in> set f. v \<noteq> VObject [] \<and> [] \<notin> set (split_loop 46 n)) \<and>
     pairwise (\<lambda>p q. \<not> prefix p q) (split_loop 46 ` fst ` set f))"

lemma no_clash_prefix_free:
  assumes "sorted_paths xs" "prefix_free xs"
  shows "no_clash xs"
proof (rule successively_if_sorted_wrt, rule sorted_wrt_mono_rel [OF _ assms(1)])
  fix x y :: "byte list list \<times> bval option"
  assume "x \<in> set xs" "y \<in> set xs" "bytes_cmp (join_dots (fst x)) (join_dots (fst y)) < 0"
  then have "\<not> prefix (fst y) (fst x)" using assms(2) by (force simp: pairwise_def)
  then show "\<not> prefix (fst y) (butlast (fst x))" using prefix_order.trans prefixeq_butlast by blast
qed

lemma nested_entries:
  assumes "wf_doc f" "dotted_ok f"
  defines "xs \<equiv> map (\<lambda>(n, v). (split_loop 46 n, Some v)) (sort_fields f)"
  shows "sorted_paths xs" "prefix_free xs" "\<forall>x \<in> set xs. fst x \<noteq> [] \<and> (\<forall>c \<in> set (fst x). name_part c)"
proof -
  have set: "set (sort_fields f) = set f" using assms(2) by (simp add: sort_fields_set dotted_ok_def)
  show "sorted_paths xs"
    using sort_fields_sorted [of f] by (simp add: xs_def sorted_wrt_map case_prod_beta join_split_loop)
  have "fst ` set xs = split_loop 46 ` fst ` set f" by (simp add: xs_def set image_image case_prod_beta)
  then show "prefix_free xs" using assms(2) by (simp add: dotted_ok_def)
  show "\<forall>x \<in> set xs. fst x \<noteq> [] \<and> (\<forall>c \<in> set (fst x). name_part c)"
  proof (intro ballI conjI)
    fix x c assume x: "x \<in> set xs" "c \<in> set (fst x)"
    then obtain n v where n: "(n, v) \<in> set f" "fst x = split_loop 46 n" by (auto simp: xs_def set)
    have "nul_free n" using wf_doc_elem_ok [OF assms(1) n(1)] elem_okD(1) by blast
    moreover have "c \<noteq> []" using assms(2) n x(2) by (auto simp: dotted_ok_def)
    ultimately show "name_part c"
      using split_loop_parts [of c 46 n] x(2) n(2) by (auto simp: name_part_def nul_free_def)
  qed (auto simp: xs_def)
qed

lemma dotted2nested_rep:
  assumes "wf_doc f" "dotted_ok f" "fits b0 (length (enc_elems (nested f)))"
  shows "\<exists>b. dotted2nested b0 (encode f @ r) = Inr b \<and> bob_extended b0 (enc_elems (nested f)) b"
proof -
  let ?xs = "map (\<lambda>(n, v). (split_loop 46 n, v)) (sort_fields f)"
  have set: "set (sort_fields f) = set f" using assms(2) by (simp add: sort_fields_set dotted_ok_def)
  have ent: "map (case_prod entry) ?xs = map (\<lambda>(n, v). (split_loop 46 n, Some v)) (sort_fields f)"
    using assms(2) set by (auto simp: dotted_ok_def entry_def)
  note en = nested_entries [OF assms(1,2), folded ent]
  have close: "close (foldl put_entry (Open [] None) (map (case_prod entry) ?xs)) = nested f"
    unfolding ent nested_def nest_def ..
  obtain m where m: "bson2map (encode f @ r) = Inr m" "same_entries m (sort_fields f)"
    using bson2map_enc [OF assms(1)] by blast
  have "list_all2 (\<lambda>(nm, e) (p, v). nm = join_dots p \<and> (\<exists>n t. elem_ok n v \<and> e = enc_elem n v @ t)) m ?xs"
    using m(2) unfolding list_all2_map2 by (rule list_all2_mono) (auto simp: join_split_loop)
  moreover have "\<forall>(p, v) \<in> set ?xs. p \<noteq> [] \<and> (\<forall>n \<in> set p. name_part n)"
    using en(3) unfolding ent by fastforce
  moreover have "eb_rep b0 (eb_new b0) (frames [] (Open [] None) [])"
    by (simp add: eb_new_def bob_extended_def)
  moreover have "?xs \<noteq> [] \<Longrightarrow> \<not> prefix (fst (case_prod entry (hd ?xs))) (open_names (Open [] None))"
    using en(3) hd_in_set [of "map (case_prod entry) ?xs"] by (force simp: hd_map)
  ultimately obtain eb where eb: "eb_append_map m (eb_new b0) = Inr eb"
      "eb_rep b0 eb (frames [] (foldl put_entry (Open [] None) (map (case_prod entry) ?xs)) [])" "wf_elems (nested f)"
    using eb_append_map_rep [of b0 "eb_new b0" "Open [] None" m ?xs] no_clash_prefix_free [OF en(1,2)] assms(3)
    unfolding close by auto
  from eb_done_rep [OF eb(2)] obtain b where "eb_done eb = Inr [([], b)]" "bob_extended b0 (enc_elems (nested f)) b"
    using eb(3) assms(3) unfolding close by blast
  then show ?thesis using m(1) eb(1) by (simp add: dotted2nested_def)
qed

text \<open>
  C33: For a document whose dotted names are distinct, have no empty part, and of which none leads through
  another, and that has no empty objects as values, \<open>dotted2nested\<close> builds the object whose fields are
  grouped by the parts of the names, and the dotted lookup of every name in the result finds the value
  the name had.
\<close>

theorem dotted2nested_finds:
  assumes "wf_doc f" "dotted_ok f" "wf_doc (nested f)"
  shows "rbind (bob_new k) (\<lambda>b. rbind (dotted2nested b (encode f @ r)) obj) = Inr (encode (nested f)) \<and>
    (\<forall>(p, v) \<in> set f. \<exists>e n. getFieldDotted (encode (nested f) @ s) p = Inr e \<and> denotes e n (Some v))"
proof
  obtain b0 where b0: "bob_new k = Inr b0" "builds b0 []" using bob_new_builds by blast
  have "fits b0 (length (enc_elems (nested f)))"
    using fresh_builder(1) [OF b0(2)] assms(3) by (simp add: fits_def wf_doc_iff BufferMaxSize_def)
  from dotted2nested_rep [OF assms(1,2) this] obtain b where
    b: "dotted2nested b0 (encode f @ r) = Inr b" "bob_extended b0 (enc_elems (nested f)) b" by blast
  have "builds b (nested f)" using builds_extended [OF b0(2) b(2)] by simp
  then show "rbind (bob_new k) (\<lambda>b. rbind (dotted2nested b (encode f @ r)) obj) = Inr (encode (nested f))"
    using b0(1) b(1) obj_builds assms(3) by simp
  show "\<forall>(p, v) \<in> set f. \<exists>e n. getFieldDotted (encode (nested f) @ s) p = Inr e \<and> denotes e n (Some v)"
  proof (rule ballI, simp only: split_paired_all prod.case)
    fix p v assume pv: "(p, v) \<in> set f"
    then have "(split_loop 46 p, Some v) \<in> set (map (\<lambda>(n, v). (split_loop 46 n, Some v)) (sort_fields f))"
      using assms(2) by (force simp: sort_fields_set dotted_ok_def)
    from nest_lookup [OF nested_entries [OF assms(1,2)] this]
    have "lookup_dotted (nested f) p = Some v" by (simp add: nested_def join_split_loop)
    then show "\<exists>e n. getFieldDotted (encode (nested f) @ s) p = Inr e \<and> denotes e n (Some v)"
      using getFieldDotted_denotes [OF assms(3), of s p] by simp
  qed
qed

theorem dotted2nested_finds_witness:
  "rbind (bob_new 512) (\<lambda>b. rbind (dotted2nested b (encode [(bs ''b.c'', VInt 1), (bs ''a'', VInt 2), (bs ''b.a'', VInt 3)] @ [])) obj) =
    Inr (encode [(bs ''a'', VInt 2), (bs ''b'', VObject [(bs ''a'', VInt 3), (bs ''c'', VInt 1)])])"
proof -
  let ?f = "[(bs ''b.c'', VInt 1), (bs ''a'', VInt 2), (bs ''b.a'', VInt 3)]"
  have sp: "split_loop 46 (bs ''b.c'') = [bs ''b'', bs ''c'']" "split_loop 46 (bs ''a'') = [bs ''a'']"
      "split_loop 46 (bs ''b.a'') = [bs ''b'', bs ''a'']"
    by (simp_all add: split_loop.simps [of 46 "_ # _"])
  have ok: "dotted_ok ?f" using sp by (auto simp: dotted_ok_def pairwise_insert)
  have nest: "nested ?f = [(bs ''a'', VInt 2), (bs ''b'', VObject [(bs ''a'', VInt 3), (bs ''c'', VInt 1)])]"
    using sp by (simp add: nested_def sort_fields_def nest_def put_entry_def byte_cmp_def cmp_key_def)
  have "wf_doc ?f" "wf_doc (nested ?f)" unfolding nest by (simp_all add: wf_doc_iff)
  then show ?thesis using dotted2nested_finds [of ?f 512 "[]" "[]"] ok unfolding nest by blast
qed

end
