(* ===== verification/CompareRefine.thy ===== *)
theory CompareRefine
  imports Compare
begin

text \<open>
  The order of documents that \<open>woCompare\<close> is meant to compute, defined on abstract documents by a
  sort key per value, and its relation to the code.  The order is a total preorder (an instance of
  \<open>weak_cmp\<close>); on documents without timestamps and with 64 bit integers below \<open>2^53\<close> in magnitude
  the code computes it.  Outside those documents it does not: the last section has the
  counterexamples.
\<close>

section \<open>The order on values\<close>

definition vcanon :: "bval \<Rightarrow> int" where
  "vcanon v = (case canonicalizeBSONType (vtype v) of Inl _ \<Rightarrow> 0 | Inr c \<Rightarrow> c)"

text \<open>Numbers by their exact value, as multiples of \<open>2^-1074\<close>; NaN below all of them.\<close>

definition nan_key :: int where
  "nan_key = - (2 ^ 2200)"

fun vnum :: "bval \<Rightarrow> int" where
  "vnum (VDouble w) = (if d_nan w then nan_key else d_scaled w)"
| "vnum (VInt n) = sint n * 2 ^ 1074"
| "vnum (VLong n) = sint n * 2 ^ 1074"
| "vnum _ = 0"

fun vints :: "bval \<Rightarrow> int list" where
  "vints (VBool b) = [sint b]"
| "vints (VDate w) = [0, sint w]"
| "vints (VTimestamp w) = [1, uint w]"
| "vints (VDBRef ns x) = [int (length ns)]"
| "vints (VBinData t b) = [int (length b)]"
| "vints v = [vnum v]"

definition cut :: "byte list \<Rightarrow> byte list" where
  "cut s = takeWhile (\<lambda>b. b \<noteq> 0) s"

definition after_nul :: "byte list \<Rightarrow> byte list" where
  "after_nul s = tl (dropWhile (\<lambda>b. b \<noteq> 0) s)"

fun vbytes :: "bval \<Rightarrow> byte list" where
  "vbytes (VString s) = s"
| "vbytes (VSymbol s) = s"
| "vbytes (VCode s) = s"
| "vbytes (VOID x) = x"
| "vbytes (VDBRef ns x) = ns @ 0 # x"
| "vbytes (VBinData t b) = t # b"
| "vbytes (VRegEx p f) = p"
| "vbytes (VCodeWScope c d) = cut c"
| "vbytes _ = []"

fun vbytes2 :: "bval \<Rightarrow> byte list" where
  "vbytes2 (VRegEx p f) = f"
| "vbytes2 (VCodeWScope c d) = cut (after_nul (c @ 0 # encode d))"
| "vbytes2 _ = []"

definition vcanon_cmp :: "bval \<Rightarrow> bval \<Rightarrow> int" where
  "vcanon_cmp = cmp_key vcanon"

definition key_cmp :: "bval \<Rightarrow> bval \<Rightarrow> int" where
  "key_cmp =
     then_cmp vcanon_cmp
       (then_cmp (\<lambda>v w. lex_cmp (cmp_key (\<lambda>n. n)) (vints v) (vints w))
         (then_cmp (\<lambda>v w. bytes_cmp (vbytes v) (vbytes w)) (\<lambda>v w. bytes_cmp (vbytes2 v) (vbytes2 w))))"

text \<open>Fields by type, name and value; documents by their fields.  The index bounds the nesting.\<close>

definition field_cmp :: "(bval \<Rightarrow> bval \<Rightarrow> int) \<Rightarrow> byte list \<times> bval \<Rightarrow> byte list \<times> bval \<Rightarrow> int" where
  "field_cmp c =
     then_cmp (\<lambda>x y. vcanon_cmp (snd x) (snd y))
       (then_cmp (\<lambda>x y. bytes_cmp (fst x) (fst y)) (\<lambda>x y. c (snd x) (snd y)))"

fun vcmp :: "nat \<Rightarrow> bval \<Rightarrow> bval \<Rightarrow> int" where
  "vcmp 0 v w = key_cmp v w"
| "vcmp (Suc k) v w =
     then_cmp key_cmp
       (\<lambda>v w. lex_cmp (field_cmp (vcmp k)) (subdoc (Some v)) (subdoc (Some w))) v w"

fun vdepth :: "bval \<Rightarrow> nat"
and ddepth :: "bdoc \<Rightarrow> nat" where
  "vdepth (VObject d) = Suc (ddepth d)"
| "vdepth (VArray d) = Suc (ddepth d)"
| "vdepth _ = 0"
| "ddepth [] = 0"
| "ddepth ((n, v) # d) = max (vdepth v) (ddepth d)"

definition doc_cmp :: "bdoc \<Rightarrow> bdoc \<Rightarrow> int" where
  "doc_cmp d e = lex_cmp (field_cmp (vcmp (ddepth d))) d e"

section \<open>It is a total preorder\<close>

lemma weak_cmp_key: "weak_cmp (cmp_key k)"
  by (rule by_key.weak_cmp_axioms)

lemma weak_cmp_bytes: "weak_cmp bytes_cmp"
  by (rule bytes_order.weak_cmp_axioms)

interpretation key_order: weak_cmp key_cmp
  unfolding key_cmp_def vcanon_cmp_def
  by (intro weak_cmp_then weak_cmp_key weak_cmp_pull [OF weak_cmp_bytes]
      weak_cmp_pull [OF weak_cmp_lex [OF weak_cmp_key]])

lemma weak_cmp_field:
  assumes "weak_cmp c"
  shows "weak_cmp (field_cmp c)"
  unfolding field_cmp_def vcanon_cmp_def
  by (intro weak_cmp_then weak_cmp_pull [OF weak_cmp_key] weak_cmp_pull [OF weak_cmp_bytes]
      weak_cmp_pull [OF assms])

lemma weak_cmp_vcmp: "weak_cmp (vcmp k)"
proof (induction k)
  case 0
  have "vcmp 0 = key_cmp" by (intro ext) simp
  then show ?case using key_order.weak_cmp_axioms by simp
next
  case (Suc k)
  have "vcmp (Suc k) = then_cmp key_cmp
      (\<lambda>v w. lex_cmp (field_cmp (vcmp k)) (subdoc (Some v)) (subdoc (Some w)))"
    by (intro ext) simp
  then show ?case
    using weak_cmp_pull [OF weak_cmp_lex [OF weak_cmp_field [OF Suc]]]
    by (simp only:) (intro weak_cmp_then key_order.weak_cmp_axioms)
qed

lemma vdepth_le_ddepth: "(n, v) \<in> set d \<Longrightarrow> vdepth v \<le> ddepth d"
  by (induction d) (auto simp: le_max_iff_disj)

lemma ddepth_subdoc: "ddepth (subdoc (Some v)) \<le> vdepth v - 1"
  by (cases v) auto

lemma lex_cmp_cong:
  "(\<And>x y. x \<in> set xs \<Longrightarrow> c x y = c' x y) \<Longrightarrow> lex_cmp c xs ys = lex_cmp c' xs ys"
  by (induction xs ys rule: list_induct2') auto

lemma field_cmp_cong:
  "(\<And>w. c (snd x) w = c' (snd x) w) \<Longrightarrow> field_cmp c x y = field_cmp c' x y"
  by (simp add: field_cmp_def then_cmp_def)

lemma subdoc_Nil: "vdepth v = 0 \<Longrightarrow> subdoc (Some v) = []"
  by (cases v) auto

lemma key_cmp_canon: "key_cmp v w = 0 \<Longrightarrow> vcanon v = vcanon w"
  by (simp add: key_cmp_def then_cmp_def vcanon_cmp_def cmp_key_def split: if_splits)

lemma canon_depth0: "vcanon v = vcanon w \<Longrightarrow> vdepth v = 0 \<Longrightarrow> vdepth w = 0"
  by (cases v; cases w) (simp_all add: vcanon_def)

lemma vcmp_more: "vdepth v \<le> k \<Longrightarrow> vcmp k v w = vcmp (Suc k) v w"
proof (induction k arbitrary: v w)
  case 0
  then have v: "vdepth v = 0" by simp
  show ?case
    using key_cmp_canon [of v w] canon_depth0 [OF _ v] subdoc_Nil [OF v] subdoc_Nil [of w]
    by (auto simp: then_cmp_def)
next
  case (Suc k)
  have "vcmp k u w' = vcmp (Suc k) u w'" if "(n, u) \<in> set (subdoc (Some v))" for n u w'
    using Suc.IH vdepth_le_ddepth [OF that] ddepth_subdoc [of v] Suc.prems by simp
  then have "lex_cmp (field_cmp (vcmp k)) (subdoc (Some v)) (subdoc (Some w)) =
      lex_cmp (field_cmp (vcmp (Suc k))) (subdoc (Some v)) (subdoc (Some w))"
    by (intro lex_cmp_cong field_cmp_cong) (metis prod.collapse)
  then show ?case
    by (simp add: then_cmp_def)
qed

lemma vcmp_depth: "vdepth v \<le> k \<Longrightarrow> vcmp k v w = vcmp (vdepth v) v w"
proof (induction k)
  case (Suc k)
  show ?case
  proof (cases "vdepth v \<le> k")
    case True
    then show ?thesis using Suc.IH vcmp_more by metis
  next
    case False
    then have "vdepth v = Suc k" using Suc.prems by simp
    then show ?thesis by (simp only:)
  qed
qed simp

lemma doc_cmp_depth: "ddepth d \<le> k \<Longrightarrow> doc_cmp d e = lex_cmp (field_cmp (vcmp k)) d e"
  unfolding doc_cmp_def
  by (intro lex_cmp_cong field_cmp_cong)
     (metis vcmp_depth vdepth_le_ddepth order_trans prod.collapse)

interpretation doc_order: weak_cmp doc_cmp
proof
  fix x y z :: bdoc
  define k where "k = max (ddepth x) (max (ddepth y) (ddepth z))"
  have d: "doc_cmp a b = lex_cmp (field_cmp (vcmp k)) a b" if "a \<in> {x, y, z}" for a b
    using that by (intro doc_cmp_depth) (auto simp: k_def)
  have w: "weak_cmp (lex_cmp (field_cmp (vcmp k)))"
    by (intro weak_cmp_lex weak_cmp_field weak_cmp_vcmp)
  show "sgn (doc_cmp y x) = - sgn (doc_cmp x y)"
    using weak_cmp.cmp_swap [OF w, of y x] by (simp add: d)
  show "doc_cmp x y \<le> 0 \<Longrightarrow> doc_cmp y z \<le> 0 \<Longrightarrow> doc_cmp x z \<le> 0"
    using weak_cmp.cmp_le_trans [OF w, of x y z] by (simp add: d)
qed


lemma vcanon_simps [simp]:
  "vcanon (VDouble w) = 10" "vcanon (VInt n) = 10" "vcanon (VLong w) = 10"
  "vcanon (VString s) = 15" "vcanon (VSymbol s) = 15" "vcanon (VCode s) = 60"
  "vcanon (VObject d) = 20" "vcanon (VArray d) = 25" "vcanon (VBinData b s) = 30"
  "vcanon (VOID s) = 35" "vcanon (VBool b) = 40" "vcanon (VDate w) = 45"
  "vcanon (VTimestamp w) = 45" "vcanon (VRegEx s s') = 50" "vcanon (VDBRef s s') = 55"
  "vcanon (VCodeWScope s d) = 65" "vcanon VUndefined = 0" "vcanon VNull = 5"
  "vcanon VMinKey = -1" "vcanon VMaxKey = 127"
  by (simp_all add: vcanon_def)

lemma vcanon_inv:
  "vcanon v = 10 \<longleftrightarrow> isNumber_type (vtype v)"
  "vcanon v = 15 \<longleftrightarrow> (\<exists>s. v = VString s \<or> v = VSymbol s)"
  "vcanon v = 60 \<longleftrightarrow> (\<exists>s. v = VCode s)"
  "vcanon v = 20 \<longleftrightarrow> (\<exists>d. v = VObject d)"
  "vcanon v = 25 \<longleftrightarrow> (\<exists>d. v = VArray d)"
  "vcanon v = 30 \<longleftrightarrow> (\<exists>b s. v = VBinData b s)"
  "vcanon v = 35 \<longleftrightarrow> (\<exists>s. v = VOID s)"
  "vcanon v = 40 \<longleftrightarrow> (\<exists>b. v = VBool b)"
  "vcanon v = 45 \<longleftrightarrow> (\<exists>w. v = VDate w \<or> v = VTimestamp w)"
  "vcanon v = 50 \<longleftrightarrow> (\<exists>s s'. v = VRegEx s s')"
  "vcanon v = 55 \<longleftrightarrow> (\<exists>s s'. v = VDBRef s s')"
  "vcanon v = 65 \<longleftrightarrow> (\<exists>s d. v = VCodeWScope s d)"
  "vcanon v = 0 \<longleftrightarrow> v = VUndefined"
  "vcanon v = 5 \<longleftrightarrow> v = VNull"
  "vcanon v = -1 \<longleftrightarrow> v = VMinKey"
  "vcanon v = 127 \<longleftrightarrow> v = VMaxKey"
  by (cases v; simp)+

section \<open>Scalars: the code computes the order\<close>

definition agree :: "int res \<Rightarrow> int \<Rightarrow> bool" where
  "agree r c = (\<exists>x. r = Inr x \<and> sgn x = sgn c)"

lemma agree_Inr [simp]: "agree (Inr x) c \<longleftrightarrow> sgn x = sgn c"
  by (simp add: agree_def)

fun orderable :: "bval \<Rightarrow> bool"
and orderables :: "bdoc \<Rightarrow> bool" where
  "orderable (VObject d) = orderables d"
| "orderable (VArray d) = orderables d"
| "orderable (VLong n) = (\<bar>sint n\<bar> < 2 ^ 53)"
| "orderable (VTimestamp w) = False"
| "orderable _ = True"
| "orderables [] = True"
| "orderables ((n, v) # d) = (orderable v \<and> orderables d)"

lemma key_cmp_same:
  "vcanon v = vcanon w \<Longrightarrow> key_cmp v w =
     (let c = lex_cmp (cmp_key (\<lambda>n. n)) (vints v) (vints w) in
      if c \<noteq> 0 then c
      else if vbytes v \<noteq> vbytes w then bytes_cmp (vbytes v) (vbytes w)
      else bytes_cmp (vbytes2 v) (vbytes2 w))"
  by (simp add: key_cmp_def then_cmp_def vcanon_cmp_def cmp_key_def)

lemma canonicalType_enc [simp]: "canonicalType (enc_elem n v @ t) = Inr (vcanon v)"
  by (cases v) (simp_all add: canonicalType_def vcanon_def)

lemma isNumber_enc [simp]: "isNumber (enc_elem n v @ t) = Inr (isNumber_type (vtype v))"
  by (simp add: isNumber_def)

text \<open>Numbers.\<close>

definition vdouble :: "bval \<Rightarrow> 64 word" where
  "vdouble v =
     (case v of VDouble w \<Rightarrow> w | VInt n \<Rightarrow> double_of_int (sint n) | VLong n \<Rightarrow> double_of_int (sint n)
      | _ \<Rightarrow> 0)"

lemma numberDouble_enc:
  "elem_ok n v \<Longrightarrow> numberDouble (enc_elem n v @ t) = Inr (vdouble v)"
  by (cases v)
     (simp_all add: numberDouble_def vdouble_def numberDouble_raw_def numberInt_raw_def numberLong_raw_def)

lemma sint32_bound: "\<bar>sint (n :: 32 word)\<bar> \<le> 2 ^ 31"
  using sint_ge [of n] sint_lt [of n] by simp

lemma mag_val_bound:
  assumes "f < 2 ^ 52" "e \<le> 2047"
  shows "mag_val e f < 2 ^ 2200"
proof -
  have "mag_val e f \<le> 2 ^ 53 * 2 ^ (e - 1)"
    using assms(1) by (auto simp: mag_val_def intro: mult_le_mono)
  also have "\<dots> \<le> 2 ^ 53 * (2 :: nat) ^ 2046"
    using assms(2) by (intro mult_le_mono power_increasing) auto
  also have "\<dots> < (2 :: nat) ^ 2200"
    by (simp only: power_add [symmetric] power_strict_increasing_iff)
  finally show ?thesis .
qed

lemma nan_key_less: "nan_key < d_scaled w"
proof -
  have "int (mag_val (d_exp w) (d_frac w)) < 2 ^ 2200"
    using mag_val_bound [OF d_frac_less d_exp_le] by (metis of_nat_less_iff of_nat_numeral of_nat_power)
  moreover have "- (2 ^ 2200) < b \<and> - (2 ^ 2200) < - b" if "0 \<le> b" "b < 2 ^ 2200" for b :: int
    using that by linarith
  ultimately show ?thesis
    unfolding nan_key_def d_scaled_mag by (metis of_nat_0_le_iff)
qed

lemma vnum_vdouble:
  assumes "isNumber_type (vtype v)" "orderable v"
  shows "vnum v = (if d_nan (vdouble v) then nan_key else d_scaled (vdouble v))"
proof (cases v)
  case (VInt n)
  then show ?thesis
    using d_scaled_double_of_int [of "sint n"] sint32_bound [of n] by (simp add: vdouble_def)
next
  case (VLong n)
  then show ?thesis
    using d_scaled_double_of_int [of "sint n"] assms(2) by (simp add: vdouble_def)
qed (use assms in \<open>simp_all add: vdouble_def\<close>)

lemma compare_doubles_key:
  "compare_doubles a b =
     cmp_key (\<lambda>w. if d_nan w then nan_key else d_scaled w) a b"
  using nan_key_less [of a] nan_key_less [of b] d_key_scaled [of a b] d_key_scaled [of b a]
  by (auto simp: compare_doubles_def cmp_key_def is_NaN_iff d_lt_def d_eq_def)

lemma compare_number_enc:
  assumes "elem_ok n v" "elem_ok m w" "isNumber_type (vtype v)" "isNumber_type (vtype w)"
    "orderable v" "orderable w"
  shows "compare_number (enc_elem n v @ t) (enc_elem m w @ u) = Inr (cmp_key vnum v w)"
  using assms
  by (simp add: compare_number_def numberDouble_enc compare_doubles_key cmp_key_def vnum_vdouble)

lemma key_cmp_number:
  assumes "isNumber_type (vtype v)" "isNumber_type (vtype w)"
  shows "key_cmp v w = cmp_key vnum v w"
  using assms by (cases v; cases w) (simp_all add: key_cmp_same vcanon_def cmp_key_def)

lemma scaled_less: "a * 2 ^ 1074 < b * (2 :: int) ^ 1074 \<longleftrightarrow> a < b"
  by (rule mult_less_cancel_right_pos) (rule zero_less_power, simp)

lemma scaled_eq: "a * 2 ^ 1074 = b * (2 :: int) ^ 1074 \<longleftrightarrow> a = b"
  by (metis scaled_less linorder_neq_iff)

lemma cmp_number:
  assumes "elem_ok n v" "elem_ok m w" "isNumber_type (vtype v)" "isNumber_type (vtype w)"
    "orderable v" "orderable w"
  shows "compareElementValues_with oc (enc_elem n v @ t) (enc_elem m w @ u) = Inr (key_cmp v w)"
proof -
  have c: "compare_number (enc_elem n v @ t) (enc_elem m w @ u) = Inr (cmp_key vnum v w)"
    using assms by (rule compare_number_enc)
  show ?thesis
  proof (cases "vtype v = vtype w \<and> vtype v \<noteq> NumberDouble")
    case True
    then consider a b where "v = VInt a" "w = VInt b" | a b where "v = VLong a" "w = VLong b"
      using assms(3,4) by (cases v; cases w) simp_all
    then show ?thesis
      using assms(1,2)
      by cases (simp_all add: key_cmp_number compareElementValues_with_def cmp_key_def scaled_less
          scaled_eq numberInt_raw_def numberLong_raw_def signed_word_eqI)
  next
    case False
    then show ?thesis
      using assms(3,4) c
      by (cases v; cases w) (simp_all add: key_cmp_number compareElementValues_with_def)
  qed
qed


text \<open>Strings: the bytes up to the shorter end, its zero included, then the lengths.\<close>

lemma string_sign:
  fixes s t :: "byte list"
  defines "c \<equiv> bytes_cmp (take (Suc (min (length s) (length t))) (s @ [0]))
                          (take (Suc (min (length s) (length t))) (t @ [0]))"
  shows "sgn (if c \<noteq> 0 then c else int (length s) - int (length t)) = sgn (bytes_cmp s t)"
  unfolding c_def
proof (induction s t rule: list_induct2')
  case (2 x xs)
  then show ?case by (auto simp: byte_cmp_def cmp_key_def unat_eq_0)
next
  case (3 y ys)
  then show ?case by (auto simp: byte_cmp_def cmp_key_def unat_gt_0)
next
  case (4 x xs y ys)
  then show ?case by (cases "x = y") (auto simp del: take_append bytes_cmp_eq_0 split: if_splits)
qed simp

lemma sint_sub_int32:
  assumes "a < 2 ^ 31" "b < 2 ^ 31"
  shows "sub_sizes (int32 a) (int32 b) = int a - int b"
proof -
  have "int32 a - int32 b = (word_of_int (int a - int b) :: 32 word)"
    by (simp add: int32_def)
  then show ?thesis
    using assms by (simp only: sub_sizes_def signed_of_int) (simp add: signed_take_bit_int_eq_self)
qed

lemma memcmp_int_append:
  assumes "k < 2 ^ 31" "k \<le> length a" "k \<le> length b"
  shows "memcmp_int a b (int32 k) = Inr (bytes_cmp (take k a) (take k b))"
  using assms by (simp add: memcmp_int_def sint_int32 memcmp_def)

lemma int32_inj: "a < 2 ^ 31 \<Longrightarrow> b < 2 ^ 31 \<Longrightarrow> int32 a = int32 b \<longleftrightarrow> a = b"
  by (metis sint_int32 of_nat_eq_iff)

fun vstring :: "bval \<Rightarrow> byte list option" where
  "vstring (VString s) = Some s"
| "vstring (VSymbol s) = Some s"
| "vstring (VCode s) = Some s"
| "vstring _ = None"

lemma vstringD:
  assumes "vstring v = Some s"
  shows "enc_value v = enc_str s" "vbytes v = s" "vbytes2 v = []" "vints v = [0]" "vnum v = 0"
  using assms by (cases v; simp)+

lemma elem_ok_string:
  assumes "elem_ok n v" "vstring v = Some s"
  shows "valuestrsize (enc_elem n v @ t) = Inr (int32 (Suc (length s)))"
    "valuestr (enc_elem n v @ t) = Inr (s @ 0 # t)" "Suc (length s) < 2 ^ 31"
  using assms elem_okD(3) [OF assms(1)]
  by (simp_all add: valuestrsize_def valuestr_def vstringD(1) [OF assms(2)])

lemma cmp_string:
  assumes "elem_ok n v" "elem_ok m w" "vstring v = Some s" "vstring w = Some s'"
    and "vcanon v = vcanon w"
  shows "agree (compareElementValues_with oc (enc_elem n v @ t) (enc_elem m w @ u)) (key_cmp v w)"
proof -
  let ?k = "Suc (min (length s) (length s'))"
  let ?c = "bytes_cmp (take ?k (s @ [0])) (take ?k (s' @ [0]))"
  have vt: "vtype v = Code \<or> vtype v = Symbol \<or> vtype v = String"
    using assms(3) by (cases v) simp_all
  note l = elem_ok_string [OF assms(1,3)] and r = elem_ok_string [OF assms(2,4)]
  have ls: "sint (int32 (Suc (length s))) = int (Suc (length s))"
    "sint (int32 (Suc (length s'))) = int (Suc (length s'))"
    using l(3) r(3) by (simp_all add: sint_int32 del: of_nat_Suc)
  then have k: "(if sint (int32 (Suc (length s'))) < sint (int32 (Suc (length s)))
      then int32 (Suc (length s')) else int32 (Suc (length s))) = int32 ?k"
    by (simp add: min_def)
  have "take ?k (s @ 0 # t) = take ?k (s @ [0])" "take ?k (s' @ 0 # u) = take ?k (s' @ [0])"
    by (simp_all add: take_Cons')
  then have m: "memcmp_int (s @ 0 # t) (s' @ 0 # u) (int32 ?k) = Inr ?c"
    using memcmp_int_append [of ?k "s @ 0 # t" "s' @ 0 # u"] l(3) r(3) by auto
  have "sub_sizes (int32 (Suc (length s))) (int32 (Suc (length s'))) = int (length s) - int (length s')"
    using sint_sub_int32 [OF l(3) r(3)] by simp
  then have "compareElementValues_with oc (enc_elem n v @ t) (enc_elem m w @ u) =
      Inr (if ?c \<noteq> 0 then ?c else int (length s) - int (length s'))"
    using vt by (auto simp: compareElementValues_with_def l(1,2) r(1,2) k m
        simp del: take_append take_Suc_Cons bytes_cmp_eq_0)
  then show ?thesis
    using string_sign [of s s'] assms(5)
    by (simp add: key_cmp_same vstringD [OF assms(3)] vstringD [OF assms(4)] cmp_key_def)
qed


text \<open>The remaining scalar types.\<close>

lemma cmp_bool:
  assumes "elem_ok n (VBool a)" "elem_ok m (VBool b)"
  shows "agree (compareElementValues_with oc (enc_elem n (VBool a) @ t) (enc_elem m (VBool b) @ u))
    (key_cmp (VBool a) (VBool b))"
  using assms by (auto simp: compareElementValues_with_def key_cmp_same vcanon_def cmp_key_def sgn_if)

lemma cmp_date:
  assumes "elem_ok n (VDate a)" "elem_ok m (VDate b)"
  shows "agree (compareElementValues_with oc (enc_elem n (VDate a) @ t) (enc_elem m (VDate b) @ u))
    (key_cmp (VDate a) (VDate b))"
  using assms
  by (auto simp: compareElementValues_with_def key_cmp_same vcanon_def cmp_key_def Date_checked_def
      chk_def date_def signed_word_eqI)

lemma cmp_oid:
  assumes "elem_ok n (VOID a)" "elem_ok m (VOID b)"
  shows "agree (compareElementValues_with oc (enc_elem n (VOID a) @ t) (enc_elem m (VOID b) @ u))
    (key_cmp (VOID a) (VOID b))"
  using assms elem_okD(2) [OF assms(1)] elem_okD(2) [OF assms(2)]
  by (simp add: compareElementValues_with_def key_cmp_same vcanon_def cmp_key_def memcmp_def)

lemma bytes_cmp_append_same: "bytes_cmp (s @ x) (s @ y) = bytes_cmp x y"
  by (induction s) auto

lemma cmp_dbref:
  assumes "elem_ok n (VDBRef a x)" "elem_ok m (VDBRef b y)"
  shows "agree (compareElementValues_with oc (enc_elem n (VDBRef a x) @ t) (enc_elem m (VDBRef b y) @ u))
    (key_cmp (VDBRef a x) (VDBRef b y))"
proof -
  let ?v = "VDBRef a x" and ?w = "VDBRef b y"
  have l: "length (enc_value ?v) < 2 ^ 31" "length (enc_value ?w) < 2 ^ 31"
    using elem_okD(3) [OF assms(1)] elem_okD(3) [OF assms(2)] by linarith+
  have x: "length x = 12" "length y = 12"
    using elem_okD(2) [OF assms(1)] elem_okD(2) [OF assms(2)] by simp_all
  show ?thesis
  proof (cases "length a = length b")
    case True
    then have "length (enc_value ?v) = length (enc_value ?w)" using x by simp
    moreover have "memcmp_int (enc_value ?v @ t) (enc_value ?w @ u) (int32 (length (enc_value ?v))) =
        Inr (bytes_cmp (enc_value ?v) (enc_value ?w))"
      using calculation l memcmp_int_append [of "length (enc_value ?v)"] by simp
    moreover have "bytes_cmp (enc_value ?v) (enc_value ?w) = bytes_cmp (vbytes ?v) (vbytes ?w)"
      using True by (simp add: enc_str_def bytes_cmp_append_same)
    ultimately have "compareElementValues_with oc (enc_elem n ?v @ t) (enc_elem m ?w @ u) =
        Inr (bytes_cmp (vbytes ?v) (vbytes ?w))"
      using assms by (simp add: compareElementValues_with_def valuesize_enc del: enc_value.simps vbytes.simps)
    then show ?thesis
      using True by (auto simp: key_cmp_same vcanon_def cmp_key_def)
  next
    case False
    then have "int32 (length (enc_value ?v)) \<noteq> int32 (length (enc_value ?w))"
      using int32_inj [OF l] x by simp
    then have "compareElementValues_with oc (enc_elem n ?v @ t) (enc_elem m ?w @ u) =
        Inr (int (length a) - int (length b))"
      using assms x sint_sub_int32 [OF l]
      by (simp add: compareElementValues_with_def valuesize_enc)
    then show ?thesis
      using False by (auto simp: key_cmp_same vcanon_def cmp_key_def)
  qed
qed

lemma cmp_binData:
  assumes "elem_ok n (VBinData a x)" "elem_ok m (VBinData b y)"
  shows "agree (compareElementValues_with oc (enc_elem n (VBinData a x) @ t)
      (enc_elem m (VBinData b y) @ u)) (key_cmp (VBinData a x) (VBinData b y))"
proof -
  let ?v = "VBinData a x" and ?w = "VBinData b y"
  have l: "length x < 2 ^ 31" "length y < 2 ^ 31" "Suc (length x) < 2 ^ 31"
    using elem_okD(3) [OF assms(1)] elem_okD(3) [OF assms(2)] by simp_all
  have s: "elem_objsize (enc_elem n ?v @ t) = Inr (int32 (length x))"
    "elem_objsize (enc_elem m ?w @ u) = Inr (int32 (length y))"
    using assms by (simp_all add: elem_objsize_def)
  show ?thesis
  proof (cases "length x = length y")
    case True
    have "int32 (length x) + 1 = int32 (Suc (length x))"
      by (simp add: int32_def)
    moreover have "memcmp_int (a # x @ t) (b # y @ u) (int32 (Suc (length x))) =
        Inr (bytes_cmp (a # x) (b # y))"
      using True l memcmp_int_append [of "Suc (length x)" "a # x @ t" "b # y @ u"] by simp
    ultimately have "compareElementValues_with oc (enc_elem n ?v @ t) (enc_elem m ?w @ u) =
        Inr (bytes_cmp (a # x) (b # y))"
      using assms True s
      by (simp add: compareElementValues_with_def ptr_add_def del: bytes_cmp_simps)
    then show ?thesis
      using True by (auto simp: key_cmp_same vcanon_def cmp_key_def)
  next
    case False
    then have "int32 (length x) \<noteq> int32 (length y)"
      using int32_inj l by simp
    then have "compareElementValues_with oc (enc_elem n ?v @ t) (enc_elem m ?w @ u) =
        Inr (int (length x) - int (length y))"
      using assms s sint_sub_int32 [OF l(1,2)] by (simp add: compareElementValues_with_def)
    then show ?thesis
      using False by (auto simp: key_cmp_same vcanon_def cmp_key_def)
  qed
qed

lemma cmp_regex:
  assumes "elem_ok n (VRegEx a x)" "elem_ok m (VRegEx b y)"
  shows "agree (compareElementValues_with oc (enc_elem n (VRegEx a x) @ t)
      (enc_elem m (VRegEx b y) @ u)) (key_cmp (VRegEx a x) (VRegEx b y))"
proof -
  have f: "nul_free a" "nul_free x" "nul_free b" "nul_free y"
    using elem_okD(2) [OF assms(1)] elem_okD(2) [OF assms(2)] by simp_all
  have r: "elem_regex (enc_elem n (VRegEx a x) @ t) = Inr (a @ 0 # x @ 0 # t)"
    "elem_regex (enc_elem m (VRegEx b y) @ u) = Inr (b @ 0 # y @ 0 # u)"
    using assms by (simp_all add: elem_regex_def)
  have g: "elem_regexFlags (enc_elem n (VRegEx a x) @ t) = Inr (x @ 0 # t)"
    "elem_regexFlags (enc_elem m (VRegEx b y) @ u) = Inr (y @ 0 # u)"
    using f by (simp_all add: elem_regexFlags_def r strlen_nul ptr_add_def)
  have c: "strcmp (a @ 0 # x @ 0 # t) (b @ 0 # y @ 0 # u) = Inr (bytes_cmp a b)"
    "strcmp (x @ 0 # t) (y @ 0 # u) = Inr (bytes_cmp x y)"
    using f by (simp_all add: strcmp_nul)
  show ?thesis
  proof (cases "a = b")
    case True
    then show ?thesis
      using r g c by (simp add: compareElementValues_with_def key_cmp_same cmp_key_def)
  next
    case False
    then show ?thesis
      by (simp add: compareElementValues_with_def r c key_cmp_same cmp_key_def)
  qed
qed


lemma nul_free_cut [simp]: "nul_free (cut s)"
  by (auto simp: nul_free_def cut_def dest: set_takeWhileD)

lemma cut_split: "0 \<in> set s \<Longrightarrow> s = cut s @ 0 # after_nul s"
  unfolding cut_def after_nul_def by (induction s) auto

lemma after_nul_append: "0 \<in> set s \<Longrightarrow> after_nul (s @ t) = after_nul s @ t"
  unfolding after_nul_def by (induction s) auto

lemma cut_append: "0 \<in> set s \<Longrightarrow> cut (s @ t) = cut s"
  unfolding cut_def by (induction s) auto

lemma last_after_nul: "0 \<in> set (after_nul (c @ 0 # s @ [0]))"
  unfolding after_nul_def by (induction c) auto

lemma cws_reads:
  assumes "elem_ok n (VCodeWScope c d)"
  shows "codeWScopeCode (enc_elem n (VCodeWScope c d) @ t) =
      Inr (cut c @ 0 # after_nul (c @ 0 # encode d) @ t)"
    and "codeWScopeScopeDataUnsafe (enc_elem n (VCodeWScope c d) @ t) =
      Inr (vbytes2 (VCodeWScope c d) @ 0 # after_nul (after_nul (c @ 0 # encode d)) @ t)"
proof -
  let ?s = "c @ 0 # encode d"
  have "cut ?s = cut c"
    unfolding cut_def by (induction c) auto
  then have s: "?s = cut c @ 0 # after_nul ?s"
    using cut_split [of ?s] by simp
  have "encode d = put32 (int32 (length (enc_elems d) + 5)) @ enc_elems d @ [0]"
    by (simp add: encode_def enc_frame_def)
  then have "0 \<in> set (after_nul ?s)"
    using last_after_nul [of c "put32 (int32 (length (enc_elems d) + 5)) @ enc_elems d"] by simp
  then have s2: "after_nul ?s = vbytes2 (VCodeWScope c d) @ 0 # after_nul (after_nul ?s)"
    using cut_split by simp
  have code: "codeWScopeCode (enc_elem n (VCodeWScope c d) @ t) = Inr (?s @ t)"
    using assms by (simp add: codeWScopeCode_def ptr_add_def enc_str_def encode_def)
  show a: "codeWScopeCode (enc_elem n (VCodeWScope c d) @ t) = Inr (cut c @ 0 # after_nul ?s @ t)"
    unfolding code by (subst s) simp
  have "codeWScopeScopeDataUnsafe (enc_elem n (VCodeWScope c d) @ t) = Inr (after_nul ?s @ t)"
    by (simp add: codeWScopeScopeDataUnsafe_def a strlen_nul ptr_add_def)
  also have "after_nul ?s @ t = vbytes2 (VCodeWScope c d) @ 0 # after_nul (after_nul ?s) @ t"
    by (subst s2) simp
  finally show "codeWScopeScopeDataUnsafe (enc_elem n (VCodeWScope c d) @ t) =
      Inr (vbytes2 (VCodeWScope c d) @ 0 # after_nul (after_nul ?s) @ t)" .
qed

lemma cmp_codeWScope:
  assumes "elem_ok n (VCodeWScope a x)" "elem_ok m (VCodeWScope b y)"
  shows "agree (compareElementValues_with oc (enc_elem n (VCodeWScope a x) @ t)
      (enc_elem m (VCodeWScope b y) @ u)) (key_cmp (VCodeWScope a x) (VCodeWScope b y))"
proof -
  have f: "nul_free (vbytes2 (VCodeWScope a x))" "nul_free (vbytes2 (VCodeWScope b y))"
    by simp_all
  show ?thesis
    by (simp add: compareElementValues_with_def cws_reads [OF assms(1)] cws_reads [OF assms(2)]
        strcmp_nul f key_cmp_same vcanon_def cmp_key_def del: vbytes2.simps)
qed

lemma cmp_marker:
  assumes "v \<in> {VUndefined, VNull, VMaxKey, VMinKey}"
  shows "agree (compareElementValues_with oc (enc_elem n v @ t) (enc_elem m v @ u)) (key_cmp v v)"
  using assms key_order.cmp_refl [of v] by (auto simp: compareElementValues_with_def)

text \<open>Together: every value that is not a document.\<close>

lemma cmp_scalar:
  assumes "elem_ok n v" "elem_ok m w" "vcanon v = vcanon w" "orderable v" "orderable w"
    and "vdepth v = 0"
  shows "agree (compareElementValues_with oc (enc_elem n v @ t) (enc_elem m w @ u)) (key_cmp v w)"
proof -
  consider "isNumber_type (vtype v)" "isNumber_type (vtype w)"
    | s s' where "vstring v = Some s" "vstring w = Some s'"
    | "v \<in> {VUndefined, VNull, VMaxKey, VMinKey}" "w = v"
    | a b where "v = VBool a" "w = VBool b"
    | a b where "v = VDate a" "w = VDate b"
    | a b where "v = VOID a" "w = VOID b"
    | a x b y where "v = VDBRef a x" "w = VDBRef b y"
    | a x b y where "v = VBinData a x" "w = VBinData b y"
    | a x b y where "v = VRegEx a x" "w = VRegEx b y"
    | a x b y where "v = VCodeWScope a x" "w = VCodeWScope b y"
    using assms(3-6) by (cases v) (auto simp: vcanon_inv [of w] eq_commute [of _ "vcanon w"])
  then show ?thesis
  proof cases
    case 1
    then show ?thesis using cmp_number assms by simp
  next
    case 2
    then show ?thesis using cmp_string assms by blast
  next
    case 3
    then show ?thesis using cmp_marker by blast
  next
    case 4
    then show ?thesis using cmp_bool assms by blast
  next
    case 5
    then show ?thesis using cmp_date assms by blast
  next
    case 6
    then show ?thesis using cmp_oid assms by blast
  next
    case 7
    then show ?thesis using cmp_dbref assms by blast
  next
    case 8
    then show ?thesis using cmp_binData assms by blast
  next
    case 9
    then show ?thesis using cmp_regex assms by blast
  next
    case 10
    then show ?thesis using cmp_codeWScope assms by blast
  qed
qed


section \<open>Fields and documents\<close>

lemma elem_cmp_agree:
  assumes "elem_ok n v" "elem_ok m w"
    and "vcanon v = vcanon w \<Longrightarrow> agree (vals (enc_elem n v @ t) (enc_elem m w @ u)) (c v w)"
  shows "agree (elem_woCompare_with vals True (enc_elem n v @ t) (enc_elem m w @ u))
    (field_cmp c (n, v) (m, w))"
proof (cases "vcanon v = vcanon w")
  case False
  then have "\<not> isNumber_type (vtype v) \<or> \<not> isNumber_type (vtype w)"
    by (metis vcanon_inv(1))
  then show ?thesis
    using False
    by (auto simp: elem_woCompare_with_def field_cmp_def then_cmp_def vcanon_cmp_def cmp_key_def)
next
  case True
  then show ?thesis
    using assms elem_okD(1) [OF assms(1)] elem_okD(1) [OF assms(2)]
    by (auto simp: elem_woCompare_with_def field_cmp_def then_cmp_def vcanon_cmp_def cmp_key_def
        strcmp_nul)
qed

lemma loop2_agree:
  assumes "it_at i d r" "it_at j e s" "length d < fuel"
    and "\<And>n v m w t u. (n, v) \<in> set d \<Longrightarrow> (m, w) \<in> set e \<Longrightarrow>
      agree (ec (enc_elem n v @ t) (enc_elem m w @ u)) (fc (n, v) (m, w))"
  shows "agree (loop2 fuel i j (compare_step ec (Inr False)) st) (lex_cmp fc d e)"
  using assms
proof (induction d arbitrary: e i j fuel)
  case Nil
  then obtain k where k: "fuel = Suc k" by (cases fuel) auto
  show ?case
  proof (cases e)
    case Nil': Nil
    then show ?thesis
      using Nil k by (simp add: it_at_next_EOO compare_step_def)
  next
    case (Cons b e')
    obtain m w where "b = (m, w)" by (cases b) auto
    then show ?thesis
      using Nil k Cons by (simp add: it_at_next_EOO it_at_next compare_step_def)
  qed
next
  case (Cons a d)
  obtain k where k: "fuel = Suc k" "length d < k" using Cons.prems(3) by (cases fuel) auto
  obtain n v where a: "a = (n, v)" by (cases a) auto
  show ?case
  proof (cases e)
    case Nil
    then show ?thesis
      using Cons.prems(1,2) k a by (simp add: it_at_next_EOO it_at_next compare_step_def)
  next
    case e: (Cons b e')
    obtain m w where b: "b = (m, w)" by (cases b) auto
    let ?i = "i\<lparr>it_pos := it_pos i + int (length (enc_elem n v))\<rparr>"
    let ?j = "j\<lparr>it_pos := it_pos j + int (length (enc_elem m w))\<rparr>"
    have i: "it_at i ((n, v) # d) r" "it_at j ((m, w) # e') s"
      using Cons.prems(1,2) by (simp_all add: a b e)
    obtain x where x: "ec (enc_elem n v @ enc_elems d @ 0 # r) (enc_elem m w @ enc_elems e' @ 0 # s) = Inr x"
      "sgn x = sgn (fc (n, v) (m, w))"
      using Cons.prems(4) [of n v m w] by (auto simp: agree_def a b e)
    have IH: "agree (loop2 k ?i ?j (compare_step ec (Inr False)) st) (lex_cmp fc d e')"
      using it_at_step [OF i(1)] it_at_step [OF i(2)] k(2)
    proof (rule Cons.IH)
      show "agree (ec (enc_elem n v @ t) (enc_elem m w @ u)) (fc (n, v) (m, w))"
        if "(n, v) \<in> set d" "(m, w) \<in> set e'" for n v m w t u
        using that Cons.prems(4) by (simp add: a b e)
    qed
    have z: "x = 0 \<longleftrightarrow> fc (n, v) (m, w) = 0"
      using x(2) by (metis sgn_0_0)
    have "compare_step ec (Inr False) st (enc_elem n v @ enc_elems d @ 0 # r)
        (enc_elem m w @ enc_elems e' @ 0 # s) = Inr (if x \<noteq> 0 then Ret x else Go st)"
      by (simp add: compare_step_def x(1))
    then show ?thesis
      using IH x(2) z by (simp add: k(1) it_at_next [OF i(1)] it_at_next [OF i(2)] a b e)
  qed
qed

lemma it_fuel_ge2: "2 \<le> it_fuel i"
  by (simp add: it_fuel_def)

lemma emptyObj_reads [simp]:
  "isEmpty emptyObj = Inr True" "iter_of emptyObj = Inr (enc_iter [] [])"
  using isEmpty_encode [of "[]" "[]"] iter_of_encode [of "[]" "[]"] by (simp_all add: emptyObj_encode)

lemma obj_cmp_agree:
  assumes "wf_doc d" "wf_doc e"
    and "\<And>n v m w t u. (n, v) \<in> set d \<Longrightarrow> (m, w) \<in> set e \<Longrightarrow>
      agree (ec (enc_elem n v @ t) (enc_elem m w @ u)) (fc (n, v) (m, w))"
  shows "agree (obj_woCompare_with ec emptyObj (encode d @ r) (encode e @ s)) (lex_cmp fc d e)"
proof -
  let ?i = "enc_iter d r" and ?j = "enc_iter e s" and ?k = "enc_iter [] []"
  have "length d < it_fuel ?i * 1"
    using fuel_enc_iter [of d r] by simp
  also have "\<dots> \<le> it_fuel ?i * (it_fuel ?j * it_fuel ?k)"
    using it_fuel_ge2 [of ?j] it_fuel_ge2 [of ?k] by (intro mult_le_mono) auto
  finally have "length d < it_fuel ?i * it_fuel ?j * it_fuel ?k"
    by (simp only: mult.assoc)
  then have a: "agree (loop2 (it_fuel ?i * it_fuel ?j * it_fuel ?k) ?i ?j (compare_step ec (Inr False)) ?k)
      (lex_cmp fc d e)"
    using assms(3) it_at_enc_iter [OF assms(1)] it_at_enc_iter [OF assms(2)]
    by (intro loop2_agree) auto
  have "(\<lambda>k l r. compare_step ec (Inr False) k l r) = compare_step ec (Inr False)"
    by (intro ext) simp
  with a show ?thesis
    using assms(1,2) by (cases d; cases e) (simp_all add: obj_woCompare_with_def isEmpty_encode)
qed

lemma orderables_iff: "orderables d \<longleftrightarrow> (\<forall>(n, v) \<in> set d. orderable v)"
  by (induction d) auto

lemma key_cmp_docs:
  "key_cmp (VObject d) (VObject e) = 0" "key_cmp (VArray d) (VArray e) = 0"
  by (simp_all add: key_cmp_same cmp_key_def)

lemma cmp_docs:
  assumes "elem_ok n v" "elem_ok m w" "vcanon v = vcanon w" "vdepth v \<noteq> 0"
    and "length (enc_value v) \<le> BSONObjMaxInternalSize" "length (enc_value w) \<le> BSONObjMaxInternalSize"
  obtains d e where "subdoc (Some v) = d" "subdoc (Some w) = e" "wf_doc d" "wf_doc e"
    "key_cmp v w = 0" "vdepth v = Suc (ddepth d)" "orderable v = orderables d" "orderable w = orderables e"
    "compareElementValues_with oc (enc_elem n v @ t) (enc_elem m w @ u) =
       oc (encode d @ t) (encode e @ u)"
proof -
  obtain d e where de: "v = VObject d \<and> w = VObject e \<or> v = VArray d \<and> w = VArray e"
    using assms(3,4) by (cases v) (auto simp: vcanon_inv [of w] eq_commute [of _ "vcanon w"])
  have wf: "wf_doc d" "wf_doc e"
    using de wf_doc_sub [OF assms(1)] wf_doc_sub [OF assms(2)] assms(5,6) by auto
  have eo: "embeddedObject (enc_elem n v @ t) = Inr (encode d @ t)"
    "embeddedObject (enc_elem m w @ u) = Inr (encode e @ u)"
    using embeddedObject_enc assms(1,2) wf de by auto
  have vt: "vtype v = Object \<or> vtype v = Array"
    using de by auto
  have "compareElementValues_with oc (enc_elem n v @ t) (enc_elem m w @ u) =
      oc (encode d @ t) (encode e @ u)"
    using vt by (auto simp: compareElementValues_with_def eo)
  then show thesis
    using that [of d e] de wf by (auto simp: key_cmp_docs)
qed

lemma cev_agree:
  assumes "elem_ok n v" "elem_ok m w" "vcanon v = vcanon w" "orderable v" "orderable w"
    and "length (enc_value v) \<le> BSONObjMaxInternalSize" "length (enc_value w) \<le> BSONObjMaxInternalSize"
    and "vdepth v \<le> k"
  shows "agree (cev_fuel (Suc k) (enc_elem n v @ t) (enc_elem m w @ u)) (vcmp k v w)"
  using assms
proof (induction k arbitrary: n v m w t u)
  case 0
  then show ?case using cmp_scalar by simp
next
  case (Suc k)
  show ?case
  proof (cases "vdepth v = 0")
    case True
    then have "subdoc (Some v) = []" "subdoc (Some w) = []"
      using subdoc_Nil canon_depth0 Suc.prems(3) by blast+
    then have "vcmp (Suc k) v w = key_cmp v w"
      by (simp add: then_cmp_def)
    then show ?thesis
      using cmp_scalar [OF Suc.prems(1-5) True] by (simp only: cev_fuel.simps)
  next
    case False
    let ?oc = "obj_woCompare_with (elem_woCompare_with (cev_fuel (Suc k)) True) emptyObj"
    obtain d e where de: "subdoc (Some v) = d" "subdoc (Some w) = e" "wf_doc d" "wf_doc e"
      "key_cmp v w = 0" "vdepth v = Suc (ddepth d)" "orderable v = orderables d"
      "orderable w = orderables e"
      "compareElementValues_with ?oc (enc_elem n v @ t) (enc_elem m w @ u) =
         ?oc (encode d @ t) (encode e @ u)"
      using cmp_docs [OF Suc.prems(1-3) False Suc.prems(6,7)] by metis
    have "agree (?oc (encode d @ t) (encode e @ u)) (lex_cmp (field_cmp (vcmp k)) d e)"
    proof (rule obj_cmp_agree [OF de(3,4)])
      fix n' v' m' w' t' u'
      assume in': "(n', v') \<in> set d" "(m', w') \<in> set e"
      then have ok: "elem_ok n' v'" "elem_ok m' w'"
        using wf_docD(4) [OF de(3)] wf_docD(4) [OF de(4)] by (auto simp: elems_ok_def)
      show "agree (elem_woCompare_with (cev_fuel (Suc k)) True (enc_elem n' v' @ t') (enc_elem m' w' @ u'))
          (field_cmp (vcmp k) (n', v') (m', w'))"
      proof (rule elem_cmp_agree [OF ok], rule Suc.IH [OF ok])
        show "orderable v'" "orderable w'"
          using in' Suc.prems(4,5) de(7,8) by (auto simp: orderables_iff)
        show "vdepth v' \<le> k"
          using vdepth_le_ddepth [OF in'(1)] Suc.prems(8) de(6) by simp
      qed (use enc_value_bound [OF de(3) in'(1)] enc_value_bound [OF de(4) in'(2)] in auto)
    qed
    then show ?thesis
      using de(5,9) by (simp add: then_cmp_def de(1,2))
  qed
qed


lemma vdepth_length: "vdepth v \<le> length (enc_value v)" "ddepth d \<le> length (enc_elems d)"
  by (induction v and d rule: vdepth_ddepth.induct) auto

lemma elem_woCompare_agree:
  assumes "elem_ok n v" "elem_ok m w" "orderable v" "orderable w" "vdepth v \<le> k"
    and "length (enc_value v) \<le> BSONObjMaxInternalSize" "length (enc_value w) \<le> BSONObjMaxInternalSize"
  shows "agree (elem_woCompare (enc_elem n v @ t) (enc_elem m w @ u) True)
    (field_cmp (vcmp k) (n, v) (m, w))"
  unfolding elem_woCompare_def
proof (rule elem_cmp_agree [OF assms(1,2)])
  assume c: "vcanon v = vcanon w"
  let ?l = "length (enc_elem n v @ t)"
  have l: "vdepth v \<le> ?l"
    using vdepth_length(1) [of v] by (simp add: enc_elem_def)
  then have "agree (cev_fuel (Suc ?l) (enc_elem n v @ t) (enc_elem m w @ u)) (vcmp ?l v w)"
    using cev_agree assms c by blast
  moreover have "vcmp ?l v w = vcmp k v w"
    using vcmp_depth [OF l] vcmp_depth [OF assms(5)] by simp
  ultimately show "agree (compareElementValues (enc_elem n v @ t) (enc_elem m w @ u)) (vcmp k v w)"
    by (simp add: compareElementValues_def)
qed

lemma woCompare_agree:
  assumes "wf_doc d" "wf_doc e" "orderables d" "orderables e"
  shows "agree (woCompare (encode d @ r) (encode e @ s) emptyObj True) (doc_cmp d e)"
  unfolding woCompare_def doc_cmp_def
proof (rule obj_cmp_agree [OF assms(1,2)])
  fix n v m w t u
  assume in': "(n, v) \<in> set d" "(m, w) \<in> set e"
  show "agree (elem_woCompare (enc_elem n v @ t) (enc_elem m w @ u) True)
      (field_cmp (vcmp (ddepth d)) (n, v) (m, w))"
  proof (rule elem_woCompare_agree)
    show "elem_ok n v" "elem_ok m w"
      using in' wf_docD(4) [OF assms(1)] wf_docD(4) [OF assms(2)] by (auto simp: elems_ok_def)
    show "orderable v" "orderable w"
      using in' assms(3,4) by (auto simp: orderables_iff)
  qed (use vdepth_le_ddepth [OF in'(1)] enc_value_bound [OF assms(1) in'(1)]
        enc_value_bound [OF assms(2) in'(2)] in auto)
qed

section \<open>Documents of one field\<close>

lemma woCompare_single:
  assumes "wf_doc [(n, v)]" "wf_doc [(n, w)]" "vcanon v = vcanon w"
  shows "woCompare (encode [(n, v)] @ r) (encode [(n, w)] @ s) emptyObj True =
    compareElementValues (enc_elem n v @ 0 # r) (enc_elem n w @ 0 # s)"
proof -
  let ?i = "enc_iter [(n, v)] r" and ?j = "enc_iter [(n, w)] s" and ?k = "enc_iter [] []"
  let ?c = "compare_step (\<lambda>l r. elem_woCompare l r True) (Inr False)"
  let ?l = "enc_elem n v @ 0 # r" and ?r = "enc_elem n w @ 0 # s"
  have ok: "nul_free n"
    using assms(1) by (simp add: wf_doc_iff)
  have e: "elem_woCompare ?l ?r True = compareElementValues ?l ?r"
    using assms(3) ok by (simp add: elem_woCompare_def elem_woCompare_with_def strcmp_nul)
  define f where "f = it_fuel ?i * it_fuel ?j * it_fuel ?k"
  have "1 * 2 * 2 \<le> f"
    unfolding f_def using it_fuel_ge2 [of ?i] it_fuel_ge2 [of ?j] it_fuel_ge2 [of ?k]
    by (intro mult_le_mono) auto
  then have f': "f = Suc (Suc (f - 2))"
    by simp
  have i: "it_at ?i [(n, v)] r" "it_at ?j [(n, w)] s"
    using assms(1,2) by (simp_all add: it_at_enc_iter)
  note nexts = it_at_next [OF i(1)] it_at_next [OF i(2)]
    it_at_next_EOO [OF it_at_step [OF i(1)]] it_at_next_EOO [OF it_at_step [OF i(2)]]
  have "loop2 (Suc (Suc (f - 2))) ?i ?j ?c ?k = compareElementValues ?l ?r"
    by (cases "compareElementValues ?l ?r") (simp_all add: nexts compare_step_def e Let_def)
  then have "loop2 f ?i ?j ?c ?k = compareElementValues ?l ?r"
    using f' by simp
  moreover have "isEmpty (encode [(n, v)] @ r) = Inr False" "isEmpty (encode [(n, w)] @ s) = Inr False"
    using assms(1,2) by (simp_all add: isEmpty_encode)
  moreover have "(\<lambda>k l r. ?c k l r) = ?c"
    by (intro ext) simp
  ultimately show ?thesis
    using assms(1,2) by (simp add: woCompare_def obj_woCompare_with_def f_def)
qed

lemma cev_unfold:
  "compareElementValues l r =
     compareElementValues_with
       (obj_woCompare_with (elem_woCompare_with (cev_fuel (length l)) True) emptyObj) l r"
  by (simp add: compareElementValues_def)

lemma cev_long_double:
  assumes "elem_ok n (VLong a)" "elem_ok m (VDouble b)"
  shows "compareElementValues (enc_elem n (VLong a) @ t) (enc_elem m (VDouble b) @ u) =
      Inr (compare_doubles (double_of_int (sint a)) b)"
    and "compareElementValues (enc_elem m (VDouble b) @ u) (enc_elem n (VLong a) @ t) =
      Inr (compare_doubles b (double_of_int (sint a)))"
  using assms
  by (simp_all add: cev_unfold compareElementValues_with_def compare_number_def numberDouble_enc vdouble_def)

lemma cev_long_long:
  assumes "elem_ok n (VLong a)" "elem_ok m (VLong b)"
  shows "compareElementValues (enc_elem n (VLong a) @ t) (enc_elem m (VLong b) @ u) =
      Inr (if sint a < sint b then -1 else if a = b then 0 else 1)"
  using assms by (simp add: cev_unfold compareElementValues_with_def numberLong_raw_def)

lemma top_bitI:
  assumes "2 ^ k \<le> n" "n < 2 ^ Suc k"
  shows "top_bit n = k"
proof -
  have "(0 :: nat) < 2 ^ k" by simp
  then have n: "0 < n" using assms(1) by linarith
  have "k \<le> top_bit n"
  proof (rule ccontr)
    assume "\<not> k \<le> top_bit n"
    then have "(2 :: nat) ^ Suc (top_bit n) \<le> 2 ^ k"
      by (intro power_increasing) auto
    then show False
      using top_bit_bounds [OF n] assms(1) by linarith
  qed
  then show ?thesis
    using top_bit_less [OF n assms(2)] by simp
qed


lemma agreeD: "agree r c \<Longrightarrow> \<exists>x. r = Inr x \<and> sgn x = sgn c"
  by (simp add: agree_def)

lemma obj_le_doc_cmp:
  assumes "wf_doc d" "wf_doc e" "orderables d" "orderables e"
  shows "obj_le (encode d) (encode e) = Inr (doc_cmp d e \<le> 0)"
proof -
  obtain x where "woCompare (encode d) (encode e) emptyObj True = Inr x" "sgn x = sgn (doc_cmp d e)"
    using woCompare_agree [OF assms, of "[]" "[]"] by (auto simp: agree_def)
  moreover from this have "x \<le> 0 \<longleftrightarrow> doc_cmp d e \<le> 0"
    by (simp add: sgn_if split: if_splits)
  ultimately show ?thesis
    by (simp add: obj_le_def)
qed

text \<open>\<open>2^53\<close> and \<open>2^53 + 1\<close> have the same nearest double.\<close>

lemma double_of_int_2_53:
  "double_of_int (2 ^ 53 + 1) = double_of_int (2 ^ 53)"
  "compare_doubles (double_of_int (2 ^ 53)) (double_of_int (2 ^ 53)) = 0"
proof -
  have t: "top_bit (2 ^ 53 + 1) = 53" "top_bit (2 ^ 53) = 53"
    by (rule top_bitI; simp)+
  have "round_shift (2 ^ 53 + 1) 1 = 2 ^ 52" "round_shift (2 ^ 53) 1 = 2 ^ 52"
    by (simp_all add: round_shift_def Let_def)
  then have d: "double_of_nat (2 ^ 53 + 1) = 1075 * 2 ^ 52 + 2 ^ 52"
    "double_of_nat (2 ^ 53) = 1075 * 2 ^ 52 + 2 ^ 52"
    unfolding double_of_nat_def t by simp_all
  have n: "nat (2 ^ 53 + 1) = 2 ^ 53 + 1" "nat (2 ^ 53) = 2 ^ 53"
    by simp_all
  show "double_of_int (2 ^ 53 + 1) = double_of_int (2 ^ 53)"
    unfolding double_of_int_def n d by simp
  show "compare_doubles (double_of_int (2 ^ 53)) (double_of_int (2 ^ 53)) = 0"
    by (simp add: compare_doubles_def d_lt_def d_eq_def is_NaN_def)
qed

section \<open>Properties\<close>

text \<open>
  C10: on well-formed documents whose 64 bit integers lie below \<open>2^53\<close> in magnitude and that hold no
  timestamps, \<open>BSONObj::woCompare\<close> returns without error, and the sign of its result is that of the
  abstract document order: fields from left to right, each by canonical type, name and value, where
  numbers of different types compare by exact value and strings as unsigned bytes.
\<close>

theorem woCompare_computes_order:
  assumes "wf_doc d" "wf_doc e" "orderables d" "orderables e"
  shows "\<exists>x. woCompare (encode d @ r) (encode e @ s) emptyObj True = Inr x \<and> sgn x = sgn (doc_cmp d e)"
  using woCompare_agree [OF assms] by (rule agreeD)

theorem woCompare_computes_order_witness:
  "\<exists>x. woCompare (encode [(bs ''a'', VInt 1), (bs ''b'', VString (bs ''x''))])
         (encode [(bs ''a'', VInt 1), (bs ''b'', VString (bs ''y''))]) emptyObj True = Inr x \<and> x < 0"
proof -
  let ?d = "[(bs ''a'', VInt 1), (bs ''b'', VString (bs ''x''))]"
  let ?e = "[(bs ''a'', VInt 1), (bs ''b'', VString (bs ''y''))]"
  have "sgn (doc_cmp ?d ?e) = -1"
    by (simp add: doc_cmp_def field_cmp_def then_cmp_def vcanon_cmp_def cmp_key_def key_cmp_same bs_def
        byte_cmp_def)
  moreover have "\<exists>x. woCompare (encode ?d @ []) (encode ?e @ []) emptyObj True = Inr x \<and>
      sgn x = sgn (doc_cmp ?d ?e)"
    by (rule woCompare_computes_order) (simp_all add: wf_doc_iff bs_def)
  ultimately show ?thesis
    by (auto simp: sgn_if split: if_splits)
qed

text \<open>
  C11: on such documents \<open>operator<=\<close> of \<open>BSONObj\<close> is a total preorder: any two documents are
  comparable and the relation is transitive, as the sort operator class of the database requires.
\<close>

theorem obj_le_total_preorder:
  assumes "wf_doc d" "wf_doc e" "wf_doc f" "orderables d" "orderables e" "orderables f"
  shows "(obj_le (encode d) (encode e) = Inr True \<or> obj_le (encode e) (encode d) = Inr True) \<and>
    (obj_le (encode d) (encode e) = Inr True \<longrightarrow> obj_le (encode e) (encode f) = Inr True \<longrightarrow>
     obj_le (encode d) (encode f) = Inr True)"
  using assms doc_order.cmp_le_swap [of d e] doc_order.cmp_le_trans [of d e f]
  by (auto simp: obj_le_doc_cmp)

theorem obj_le_total_preorder_witness:
  "obj_le (encode []) (encode [(bs ''a'', VNull)]) = Inr True \<or>
   obj_le (encode [(bs ''a'', VNull)]) (encode []) = Inr True"
  using obj_le_total_preorder [of "[]" "[(bs ''a'', VNull)]" "[]"]
  by (simp add: wf_doc_iff bs_def)

text \<open>
  C12: without the bound on 64 bit integers the comparison is not transitive.  The integers \<open>2^53\<close> and
  \<open>2^53 + 1\<close> each compare as equal to the double \<open>2^53\<close>, because an integer and a double are
  compared as doubles, and differ from each other, because two integers are compared exactly.
\<close>

theorem woCompare_not_transitive:
  "let l = encode [(bs ''a'', VLong (2 ^ 53))];
       m = encode [(bs ''a'', VDouble (double_of_int (2 ^ 53)))];
       r = encode [(bs ''a'', VLong (2 ^ 53 + 1))]
   in woCompare r m emptyObj True = Inr 0 \<and> woCompare m l emptyObj True = Inr 0 \<and>
      woCompare r l emptyObj True = Inr 1"
proof -
  define n where "n = bs ''a''"
  have ok: "wf_doc [(n, VLong a)]" "wf_doc [(n, VDouble b)]" for a b
    by (simp_all add: wf_doc_iff n_def)
  have ek: "elem_ok n (VLong a)" "elem_ok n (VDouble b)" for a b
    using wf_docD(4) [OF ok(1) [of a]] wf_docD(4) [OF ok(2) [of b]] by simp_all
  have s: "sint (2 ^ 53 :: 64 word) = 2 ^ 53" "sint (2 ^ 53 + 1 :: 64 word) = 2 ^ 53 + 1"
    by simp_all
  have w: "woCompare (encode [(n, v)]) (encode [(n, v')]) emptyObj True =
      compareElementValues (enc_elem n v @ [0]) (enc_elem n v' @ [0])"
    if "wf_doc [(n, v)]" "wf_doc [(n, v')]" "vcanon v = vcanon v'" for v v'
    using woCompare_single [OF that, of "[]" "[]"] by simp
  show ?thesis
    unfolding Let_def n_def [symmetric]
    by (simp add: w ok cev_long_double [OF ek] cev_long_long [OF ek(1) ek(1)] double_of_int_2_53 [simplified])
qed

text \<open>
  C13: dates and timestamps have the same canonical type, so they are compared by value, and the two
  directions differ: with the date on the left the comparison throws (\<open>Date()\<close> checks the type of
  the timestamp on the right), with the timestamp on the left it returns.
\<close>

theorem date_timestamp_asymmetric:
  "woCompare (encode [(bs ''a'', VDate x)]) (encode [(bs ''a'', VTimestamp y)]) emptyObj True =
     Inl (MsgAssert 13111) \<and>
   woCompare (encode [(bs ''a'', VTimestamp y)]) (encode [(bs ''a'', VDate x)]) emptyObj True =
     Inr (if uint y < uint x then -1 else if y = x then 0 else 1)"
proof -
  let ?n = "bs ''a''"
  have ok: "wf_doc [(?n, VDate x)]" "wf_doc [(?n, VTimestamp y)]"
    by (simp_all add: wf_doc_iff bs_def)
  have ek: "elem_ok ?n (VDate x)" "elem_ok ?n (VTimestamp y)"
    using wf_docD(4) [OF ok(1)] wf_docD(4) [OF ok(2)] by simp_all
  show ?thesis
    using woCompare_single [OF ok, of "[]" "[]"] woCompare_single [OF ok(2,1), of "[]" "[]"] ek
    by (simp add: cev_unfold compareElementValues_with_def Date_checked_def chk_def date_def)
qed

end
