(* ===== verification/ObjOps.thy ===== *)
theory ObjOps
  imports Builder Compare
begin

text \<open>
  Operations on elements and objects defined in \<open>db/jsobj.cpp\<close> on top of the iterator, the field
  lookup and the builder.
\<close>

section \<open>Arrays as vectors\<close>

text \<open>\<open>BSONElement::Array\<close>: \<open>v.resize(u + 1)\<close> fills with empty elements.\<close>

definition store_at :: "nat \<Rightarrow> mem \<Rightarrow> mem list \<Rightarrow> mem list" where
  "store_at u e v = (v @ replicate (u + 1 - length v) eooElement)[u := e]"

definition elem_Array_step :: "mem list \<Rightarrow> mem \<Rightarrow> mem list res" where
  "elem_Array_step v e =
     rbind (fieldName e) (\<lambda>p. rbind (cstr p) (\<lambda>f.
       case parseNumberFromStringWithBase 0 (2 ^ 32 - 1) f 0 of
         Inl _ \<Rightarrow> Inr v
       | Inr u \<Rightarrow> verify (u < 1000000) (Inr (store_at (nat u) e v))))"

definition elem_Array :: "mem \<Rightarrow> mem list res" where
  "elem_Array e =
     rbind (chk e Array) (\<lambda>e. rbind (embeddedObjectUserCheck e) (\<lambda>ob. rbind (iter_of ob) (\<lambda>i.
       ret_or Inr (while_more i (\<lambda>v e. rmap Go (elem_Array_step v e)) []))))"

end
