(* ===== verification/Pgbson.thy ===== *)
theory Pgbson
  imports ObjOps JsonParse JsonPrint
begin

text \<open>
  The PostgreSQL extension: \<open>pgbson_internal.hpp\<close>, \<open>pgbson_internal.cpp\<close>, \<open>pgbson_exports.cpp\<close> and
  the operators that \<open>pgbson--1.0.sql\<close> declares over them.

  An argument of type \<open>bson\<close> is the payload of its varlena, \<open>VARDATA_ANY\<close>.  A function returns a
  datum or an error: a report of its own, or a C++ exception (or an access outside the data) that
  leaves the function.  What belongs to the server or to boost is a parameter: the type cache and the
  output functions (\<open>pg_env\<close>), and the text of a point in time (\<open>iso_time\<close>).
\<close>

section \<open>Datums and errors\<close>

datatype pg_value =
    PgNull
  | PgText "byte list"
  | PgCString "byte list"
  | PgBytea "byte list"
  | PgInt32 "32 word"
  | PgInt64 "64 word"
  | PgFloat8 "64 word"
  | PgBool bool

datatype pg_error =
    CannotConvert "byte list" string string
  | ConvertFailed "byte list" string
  | InvalidTextRepresentation
  | InvalidBinaryRepresentation
  | Escaped bson_error

type_synonym 'a pg_res = "pg_error + 'a"

definition escaping :: "'a res \<Rightarrow> 'a pg_res" where
  "escaping m = (case m of Inl e \<Rightarrow> Inl (Escaped e) | Inr x \<Rightarrow> Inr x)"

text \<open>The errors that are C++ exceptions, all derived from \<open>std::exception\<close>.\<close>

fun thrown :: "bson_error \<Rightarrow> bool" where
  "thrown (MsgAssert _) = True"
| "thrown (UserAssert _) = True"
| "thrown VerifyFailed = True"
| "thrown _ = False"

definition catching :: "pg_error \<Rightarrow> 'a res \<Rightarrow> 'a pg_res" where
  "catching h m =
     (case m of Inl e \<Rightarrow> Inl (if thrown e then h else Escaped e) | Inr x \<Rightarrow> Inr x)"

lemma escaping_simps [simp]:
  "escaping (Inr x) = Inr x"
  "escaping (Inl e) = Inl (Escaped e)"
  by (simp_all add: escaping_def)

lemma catching_simps [simp]:
  "catching h (Inr x) = Inr x"
  "catching h (Inl e) = Inl (if thrown e then h else Escaped e)"
  by (simp_all add: catching_def)

definition return_string :: "byte list \<Rightarrow> pg_value" where
  "return_string s = PgText s"

definition return_cstring :: "byte list \<Rightarrow> pg_value" where
  "return_cstring s = PgCString (s @ [0])"

definition return_bson :: "mem \<Rightarrow> pg_value res" where
  "return_bson b =
     rbind (objsize b) (\<lambda>n. rmap PgBytea (read_bytes b (unat (scast n :: 64 word))))"

section \<open>Conversion of an element\<close>

text \<open>The result \<open>Inl target\<close> is the exception \<open>convertion_error(target)\<close>.\<close>

type_synonym converter = "mem \<Rightarrow> (string + pg_value) res"

definition convert_string :: "(64 word \<Rightarrow> byte list res) \<Rightarrow> converter" where
  "convert_string iso_time e =
     (let text = (\<lambda>m. rmap (\<lambda>s. Inr (return_string s)) m) in
      rbind (elem_type e) (\<lambda>t.
        case t of
          String \<Rightarrow> text (value_string e)
        | DBRef \<Rightarrow> text (value_string e)
        | Symbol \<Rightarrow> text (value_string e)
        | NumberDouble \<Rightarrow> text (rmap (fmt_g 6) (numberDouble_raw e))
        | jstOID \<Rightarrow> text (rmap oid_str (elem_oid e))
        | Bool \<Rightarrow> text (rmap (\<lambda>b. if b then bs ''true'' else bs ''false'') (boolean e))
        | Date \<Rightarrow> text (rbind (date e) iso_time)
        | RegEx \<Rightarrow> text (rbind (elem_regex e) cstr)
        | NumberInt \<Rightarrow> text (rmap (\<lambda>n. dec_int (sint n)) (numberInt_raw e))
        | NumberLong \<Rightarrow> text (rmap (\<lambda>n. dec_int (sint n)) (numberLong_raw e))
        | _ \<Rightarrow> Inr (Inl ''text'')))"

definition convert_int :: converter where
  "convert_int e =
     rbind (elem_type e) (\<lambda>t.
       if t = NumberInt then rmap (\<lambda>n. Inr (PgInt32 n)) (numberInt_raw e)
       else Inr (Inl ''int4''))"

definition convert_double :: converter where
  "convert_double e =
     rbind (elem_type e) (\<lambda>t.
       case t of
         NumberDouble \<Rightarrow> rmap (\<lambda>d. Inr (PgFloat8 d)) (numberDouble_raw e)
       | NumberInt \<Rightarrow> rmap (\<lambda>n. Inr (PgFloat8 (double_of_int (sint n)))) (numberInt_raw e)
       | _ \<Rightarrow> Inr (Inl ''float8''))"

definition convert_int64 :: converter where
  "convert_int64 e =
     rbind (elem_type e) (\<lambda>t.
       case t of
         NumberLong \<Rightarrow> rmap (\<lambda>n. Inr (PgInt64 n)) (numberLong_raw e)
       | NumberInt \<Rightarrow> rmap (\<lambda>n. Inr (PgInt64 (scast n))) (numberInt_raw e)
       | _ \<Rightarrow> Inr (Inl ''int8''))"

definition bson_type_name :: "mem \<Rightarrow> string res" where
  "bson_type_name e = rmap typeName (elem_type e)"

text \<open>The report of \<open>ereport\<close>; the message prints the field name as a C string.\<close>

definition report :: "(byte list \<Rightarrow> string \<Rightarrow> pg_error) \<Rightarrow> byte list \<Rightarrow> mem \<Rightarrow> 'a pg_res" where
  "report err field_name e =
     (case bson_type_name e of
        Inl x \<Rightarrow> Inl (Escaped x)
      | Inr t \<Rightarrow> Inl (err (takeWhile (\<lambda>c. c \<noteq> 0) field_name) t))"

definition bson_get :: "converter \<Rightarrow> mem \<Rightarrow> byte list \<Rightarrow> pg_value pg_res" where
  "bson_get convert_element arg field_name =
     (case rbind (bson_obj arg) (\<lambda>ob. rbind (getFieldDotted ob field_name) (\<lambda>e.
             rmap (\<lambda>z. (e, z)) (eoo e))) of
        Inl x \<Rightarrow> Inl (Escaped x)
      | Inr (e, z) \<Rightarrow>
          if z then Inr PgNull
          else (case convert_element e of
                  Inr (Inr v) \<Rightarrow> Inr v
                | Inr (Inl target) \<Rightarrow> report (\<lambda>f t. CannotConvert f t target) field_name e
                | Inl x \<Rightarrow> if thrown x then report ConvertFailed field_name e else Inl (Escaped x)))"

section \<open>Rows\<close>

text \<open>
  A datum together with its type: one constructor for each case of \<open>datum_to_bson\<close>.  A text
  carries its bytes and the memory that follows it.  An attribute of a row has its name, the mark
  of a dropped column, and its value, \<open>None\<close> for a null.
\<close>

datatype pg_datum =
    BOOLOID bool
  | CHAROID byte
  | INT8OID "64 word"
  | INT2OID "16 word"
  | INT4OID "32 word"
  | TEXTOID "byte list" mem
  | JSONOID "byte list" mem
  | XMLOID "byte list" mem
  | FLOAT4OID "32 word"
  | FLOAT8OID "64 word"
  | RECORDOID "pg_attr list"
  | TIMESTAMPOID "64 word"
  | OtherOID nat mem
and pg_attr = Attr (attname: "byte list") (attisdropped: bool) (attval: "pg_datum option")

record pg_env =
  syscache :: "nat \<Rightarrow> byte list option"
  outfunc :: "nat \<Rightarrow> mem \<Rightarrow> mem"

definition get_typename :: "pg_env \<Rightarrow> nat \<Rightarrow> byte list" where
  "get_typename env typid = (case syscache env typid of Some n \<Rightarrow> n | None \<Rightarrow> [])"

text \<open>Conversion of a single precision number to double precision.\<close>

definition double_of_float :: "32 word \<Rightarrow> 64 word" where
  "double_of_float w =
     (let sign = (if 2 ^ 31 \<le> unat w then 2 ^ 63 else 0);
          ex = unat w div 2 ^ 23 mod 2 ^ 8;
          fr = unat w mod 2 ^ 23
      in of_nat (sign +
           (if ex = 255 then 2047 * 2 ^ 52 + (if fr = 0 then 0 else or (2 ^ 51) (fr * 2 ^ 29))
            else if ex = 0 then
              if fr = 0 then 0
              else let k = top_bit fr in (874 + k) * 2 ^ 52 + (fr * 2 ^ (52 - k) - 2 ^ 52)
            else (ex + 896) * 2 ^ 52 + fr * 2 ^ 29)))"

definition append_text :: "BSONObjBuilder \<Rightarrow> byte list \<Rightarrow> byte list \<Rightarrow> mem \<Rightarrow> BSONObjBuilder res" where
  "append_text b name s after = append_str_sz b name (s @ after) (int32 (length s) + 1)"

definition append_other :: "pg_env \<Rightarrow> BSONObjBuilder \<Rightarrow> byte list \<Rightarrow> nat \<Rightarrow> mem \<Rightarrow> BSONObjBuilder res" where
  "append_other env b name typid val =
     (if get_typename env typid = bs ''bson'' then rbind (bson_obj val) (append_obj b name)
      else append_cstr b name (outfunc env typid val))"

definition field_or_empty :: "byte list option \<Rightarrow> byte list" where
  "field_or_empty field_name = (case field_name of None \<Rightarrow> [] | Some n \<Rightarrow> n)"

fun datum_to_bson :: "pg_env \<Rightarrow> byte list option \<Rightarrow> BSONObjBuilder \<Rightarrow> pg_datum option \<Rightarrow> BSONObjBuilder res"
and composite_to_bson :: "pg_env \<Rightarrow> BSONObjBuilder \<Rightarrow> pg_attr list \<Rightarrow> BSONObjBuilder res" where
  "datum_to_bson env field_name b None = appendNull b (field_or_empty field_name)"
| "datum_to_bson env field_name b (Some val) =
     (let name = field_or_empty field_name in
      case val of
        BOOLOID x \<Rightarrow> appendBool b name x
      | CHAROID c \<Rightarrow> append_str_sz b name [c] 1
      | INT8OID n \<Rightarrow> append_long b name n
      | INT2OID n \<Rightarrow> append_int b name (scast n)
      | INT4OID n \<Rightarrow> append_int b name n
      | TEXTOID s after \<Rightarrow> append_text b name s after
      | JSONOID s after \<Rightarrow> append_text b name s after
      | XMLOID s after \<Rightarrow> append_text b name s after
      | FLOAT4OID x \<Rightarrow> append_double b name (double_of_float x)
      | FLOAT8OID x \<Rightarrow> append_double b name x
      | RECORDOID row \<Rightarrow>
          rbind (subobjStart b name) (\<lambda>b. rbind (bob_sub (bob_b b)) (\<lambda>sub.
            rbind (composite_to_bson env sub row) (\<lambda>sub. rmap (\<lambda>(_, sub). bob_return b sub) (done_obj sub))))
      | TIMESTAMPOID ts \<Rightarrow> appendDate b name ts
      | OtherOID typid v \<Rightarrow> append_other env b name typid v)"
| "composite_to_bson env b [] = Inr b"
| "composite_to_bson env b (Attr field_name dropped val # attrs) =
     (if dropped then composite_to_bson env b attrs
      else rbind (datum_to_bson env (Some field_name) b val) (\<lambda>b. composite_to_bson env b attrs))"

section \<open>The exported functions\<close>

definition pgbson_version :: pg_value where
  "pgbson_version = return_string (bs ''1.0'')"

definition bson_out :: "(int \<Rightarrow> byte list) \<Rightarrow> mem \<Rightarrow> pg_value pg_res" where
  "bson_out ctime arg =
     escaping (rbind (bson_obj arg) (\<lambda>ob. rmap return_cstring (jsonString ctime Strict 0 ob)))"

definition bson_in :: "mem \<Rightarrow> pg_value pg_res" where
  "bson_in arg =
     catching InvalidTextRepresentation (rbind (cstr arg) (\<lambda>s. rbind (fromjson s) return_bson))"

record StringInfo =
  si_data :: mem
  si_cursor :: "32 word"

definition bson_recv :: "StringInfo \<Rightarrow> (pg_value \<times> StringInfo) pg_res" where
  "bson_recv buf =
     catching InvalidBinaryRepresentation (rbind (bson_obj (si_data buf)) (\<lambda>ob. rbind (objsize ob) (\<lambda>n.
       rmap (\<lambda>v. (v, buf\<lparr>si_cursor := si_cursor buf + n\<rparr>)) (return_bson ob))))"

definition bson_send :: "mem \<Rightarrow> pg_value" where
  "bson_send arg = PgBytea arg"

definition bson_get_text :: "(64 word \<Rightarrow> byte list res) \<Rightarrow> mem \<Rightarrow> byte list \<Rightarrow> pg_value pg_res" where
  "bson_get_text iso_time = bson_get (convert_string iso_time)"

definition bson_get_int :: "mem \<Rightarrow> byte list \<Rightarrow> pg_value pg_res" where
  "bson_get_int = bson_get convert_int"

definition bson_get_double :: "mem \<Rightarrow> byte list \<Rightarrow> pg_value pg_res" where
  "bson_get_double = bson_get convert_double"

definition bson_get_bigint :: "mem \<Rightarrow> byte list \<Rightarrow> pg_value pg_res" where
  "bson_get_bigint = bson_get convert_int64"

text \<open>An object with the element as its single, anonymous field.\<close>

definition anonymous :: "mem \<Rightarrow> mem res" where
  "anonymous el = rbind (bob_new 512) (\<lambda>b. rbind (appendAs b el []) obj)"

definition bson_get_bson :: "mem \<Rightarrow> byte list \<Rightarrow> pg_value pg_res" where
  "bson_get_bson arg field_name =
     escaping (rbind (bson_obj arg) (\<lambda>ob. rbind (getFieldDotted ob field_name) (\<lambda>el.
       rbind (eoo el) (\<lambda>z. rbind (elem_type el) (\<lambda>t.
         if z then Inr PgNull
         else if t = Object then rbind (embeddedObject el) return_bson
         else rbind (anonymous el) return_bson)))))"

definition row_to_bson :: "pg_env \<Rightarrow> pg_attr list \<Rightarrow> pg_value pg_res" where
  "row_to_bson env record =
     escaping (rbind (bob_new 512) (\<lambda>b. rbind (composite_to_bson env b record) (\<lambda>b.
       rbind (obj b) return_bson)))"

definition bson_compare :: "mem \<Rightarrow> mem \<Rightarrow> int pg_res" where
  "bson_compare arg0 arg1 =
     escaping (rbind (bson_obj arg0) (\<lambda>ob0. rbind (bson_obj arg1) (\<lambda>ob1. woCompare ob0 ob1 emptyObj True)))"

definition bson_binary_equal :: "mem \<Rightarrow> mem \<Rightarrow> bool pg_res" where
  "bson_binary_equal arg0 arg1 =
     escaping (rbind (bson_obj arg0) (\<lambda>ob0. rbind (bson_obj arg1) (\<lambda>ob1. binaryEqual ob0 ob1)))"

definition bson_hash :: "mem \<Rightarrow> (32 word) pg_res" where
  "bson_hash arg0 = escaping (rbind (bson_obj arg0) hash)"

definition bson_array_size :: "mem \<Rightarrow> byte list \<Rightarrow> pg_value pg_res" where
  "bson_array_size arg field_name =
     escaping (rbind (bson_obj arg) (\<lambda>ob. rbind (getFieldDotted ob field_name) (\<lambda>el.
       rbind (eoo el) (\<lambda>z. rbind (elem_type el) (\<lambda>t.
         if z then Inr PgNull
         else if t = Array then rbind (embeddedObject el) (\<lambda>a. rmap PgInt32 (nFields a))
         else Inr (PgInt32 1))))))"

section \<open>The set-returning function\<close>

text \<open>
  \<open>bson_unwind_array\<close> is called until it reports the end.  The first call fills the context; each
  call returns the element at \<open>call_cntr\<close>, which \<open>SRF_RETURN_NEXT\<close> increments, or the end.
\<close>

record unwind_state =
  uw_array :: "mem list"
  uw_deepCopy :: mem
  uw_call_cntr :: nat

definition unwind_first :: "mem \<Rightarrow> byte list \<Rightarrow> unwind_state res" where
  "unwind_first arg field_name =
     rbind (bson_obj arg) (\<lambda>ob. rbind (copy_obj ob) (\<lambda>deepCopy.
       rbind (getFieldDotted ob field_name) (\<lambda>el. rbind (eoo el) (\<lambda>z. rbind (elem_type el) (\<lambda>t.
         rmap (\<lambda>v. \<lparr>uw_array = v, uw_deepCopy = deepCopy, uw_call_cntr = 0\<rparr>)
           (if z then Inr [] else if t = Array then elem_Array el else Inr [el]))))))"

definition unwind_row :: "mem \<Rightarrow> pg_value res" where
  "unwind_row el =
     rbind (isABSONObj el) (\<lambda>b. rbind (if b then embeddedObject el else anonymous el) return_bson)"

definition unwind_call :: "unwind_state \<Rightarrow> (pg_value \<times> unwind_state) option res" where
  "unwind_call s =
     (if uw_call_cntr s = length (uw_array s) then Inr None
      else if uw_call_cntr s < length (uw_array s) then
        rmap (\<lambda>v. Some (v, s\<lparr>uw_call_cntr := uw_call_cntr s + 1\<rparr>))
          (unwind_row (uw_array s ! uw_call_cntr s))
      else Inl BadRead)"

text \<open>What the calls return, one after the other.\<close>

inductive unwind_run :: "unwind_state \<Rightarrow> pg_value list \<Rightarrow> bool" where
  finished: "unwind_call s = Inr None \<Longrightarrow> unwind_run s []"
| returned: "unwind_call s = Inr (Some (v, s')) \<Longrightarrow> unwind_run s' vs \<Longrightarrow> unwind_run s (v # vs)"

inductive_simps unwind_run_Nil: "unwind_run s []"
inductive_simps unwind_run_Cons: "unwind_run s (v # vs)"

definition bson_unwind_array :: "mem \<Rightarrow> byte list \<Rightarrow> pg_value list \<Rightarrow> bool" where
  "bson_unwind_array arg field_name vs = (\<exists>s. unwind_first arg field_name = Inr s \<and> unwind_run s vs)"

section \<open>The operators\<close>

definition bson_equal :: "mem \<Rightarrow> mem \<Rightarrow> bool pg_res" where
  "bson_equal x y = map_sum id (\<lambda>c. c = 0) (bson_compare x y)"

definition bson_not_equal :: "mem \<Rightarrow> mem \<Rightarrow> bool pg_res" where
  "bson_not_equal x y = map_sum id (\<lambda>c. c \<noteq> 0) (bson_compare x y)"

definition bson_lt :: "mem \<Rightarrow> mem \<Rightarrow> bool pg_res" where
  "bson_lt x y = map_sum id (\<lambda>c. c < 0) (bson_compare x y)"

definition bson_lte :: "mem \<Rightarrow> mem \<Rightarrow> bool pg_res" where
  "bson_lte x y = map_sum id (\<lambda>c. c \<le> 0) (bson_compare x y)"

definition bson_gt :: "mem \<Rightarrow> mem \<Rightarrow> bool pg_res" where
  "bson_gt x y = map_sum id (\<lambda>c. c > 0) (bson_compare x y)"

definition bson_gte :: "mem \<Rightarrow> mem \<Rightarrow> bool pg_res" where
  "bson_gte x y = map_sum id (\<lambda>c. c \<ge> 0) (bson_compare x y)"

definition bson_binary_not_equal :: "mem \<Rightarrow> mem \<Rightarrow> bool pg_res" where
  "bson_binary_not_equal x y = map_sum id Not (bson_binary_equal x y)"

end
