(* ===== verification/PgbsonGet.thy ===== *)
theory PgbsonGet
  imports Pgbson JsonText CompareRefine
begin

text \<open>
  What the exported functions return on stored documents: field access with its conversions, the
  array functions, comparison operators and hashing.
\<close>

section \<open>The value of a dotted path\<close>

lemma elem_in_elems:
  "(n, v) \<in> set d \<Longrightarrow> length n + 2 + length (enc_value v) \<le> length (enc_elems d)"
  by (induction d) (auto simp: length_enc_elem enc_elems_Cons simp del: enc_elems.simps)

lemma lookup_dotted_bound:
  "wf_doc d \<Longrightarrow> lookup_dotted d name = Some v \<Longrightarrow>
     wf_value v \<and> length (enc_value v) + 7 \<le> length (encode d)"
proof (induction "length name" arbitrary: name d rule: less_induct)
  case less
  show ?case
  proof (cases "map_of d name")
    case (Some w)
    then have "w = v" "(name, w) \<in> set d"
      using less.prems(2) by (simp_all add: lookup_dotted.simps [of d] map_of_SomeD)
    then show ?thesis
      using enc_value_bound(2) [OF less.prems(1)] elem_in_elems [of name v d] by (auto simp: length_encode)
  next
    case None
    then obtain left right where s: "split_at 46 name = Some (left, right)"
      and l: "lookup_dotted (subdoc (map_of d left)) right = Some v"
      using less.prems(2) by (auto simp: lookup_dotted.simps [of d] split: option.splits)
    have b: "wf_value v \<and> length (enc_value v) + 7 \<le> length (encode (subdoc (map_of d left)))"
      by (rule less.hyps [OF split_at_shorter [OF s] wf_doc_subdoc [OF less.prems(1)] l])
    have "length (encode (subdoc (map_of d left))) \<le> length (encode d)"
    proof (cases "map_of d left")
      case (Some w)
      then have "length (enc_value w) \<le> length (enc_elems d)"
        using elem_in_elems [OF map_of_SomeD] by fastforce
      then show ?thesis
        using Some by (cases w) (simp_all add: length_encode encode_def [symmetric])
    qed (simp add: length_encode)
    with b show ?thesis by simp
  qed
qed

lemma wf_doc_single:
  assumes "wf_doc d" "lookup_dotted d name = Some v"
  shows "wf_doc [([], v)]"
  using lookup_dotted_bound [OF assms] assms(1)
  by (auto simp: wf_doc_def length_encode length_enc_elem enc_elems_single simp del: enc_elems.simps)

lemma lookup_sub:
  assumes "wf_doc d" "lookup_dotted d name = Some v" "v = VObject s \<or> v = VArray s"
  shows "wf_doc s"
proof -
  have "wf_value v" "length (enc_value v) \<le> BSONObjMaxInternalSize"
    using lookup_dotted_bound [OF assms(1,2)] assms(1) by (simp_all add: wf_doc_def)
  from sub_wf_doc [OF this] show ?thesis using assms(3) by auto
qed

text \<open>The element a dotted path leads to.\<close>

lemma getFieldDotted_cases:
  assumes "wf_doc d"
  obtains (missing) "lookup_dotted d name = None" "getFieldDotted (encode d @ r) name = Inr eooElement"
    | (found) v n t where "lookup_dotted d name = Some v" "elem_ok n v"
        "getFieldDotted (encode d @ r) name = Inr (enc_elem n v @ t)"
proof -
  obtain e n where "getFieldDotted (encode d @ r) name = Inr e" "denotes e n (lookup_dotted d name)"
    using getFieldDotted_denotes [OF assms] by blast
  then show ?thesis
    by (cases "lookup_dotted d name") (auto simp: denotes_def intro: that)
qed

lemma return_bson_encode:
  assumes "wf_doc d"
  shows "return_bson (encode d @ r) = Inr (PgBytea (encode d))" "return_bson (encode d) = Inr (PgBytea (encode d))"
proof -
  show "return_bson (encode d @ r) = Inr (PgBytea (encode d))" for r
    using assms by (simp add: return_bson_def size_t_encode read_bytes_def)
  from this [of "[]"] show "return_bson (encode d) = Inr (PgBytea (encode d))" by simp
qed

section \<open>Conversions\<close>

text \<open>The result of \<open>bson_get\<close>, given the value of the path and the conversion of values.\<close>

definition get_spec ::
  "(bval \<Rightarrow> (string + pg_value) res) \<Rightarrow> byte list \<Rightarrow> bval option \<Rightarrow> pg_value pg_res" where
  "get_spec spec name ov = (case ov of
      None \<Rightarrow> Inr PgNull
    | Some v \<Rightarrow> (case spec v of
          Inr (Inr x) \<Rightarrow> Inr x
        | Inr (Inl target) \<Rightarrow> Inl (CannotConvert (takeWhile (\<lambda>c. c \<noteq> 0) name) (typeName (vtype v)) target)
        | Inl e \<Rightarrow> Inl (if thrown e then ConvertFailed (takeWhile (\<lambda>c. c \<noteq> 0) name) (typeName (vtype v))
                       else Escaped e)))"

text \<open>
  What \<open>bson_get\<close> needs of a conversion: its result on an element is a function of the element's
  value.
\<close>

locale element_converter =
  fixes conv :: converter
    and spec :: "bval \<Rightarrow> (string + pg_value) res"
  assumes conv_enc: "elem_ok n v \<Longrightarrow> conv (enc_elem n v @ t) = spec v"
begin

lemma bson_get_value:
  assumes "wf_doc d"
  shows "bson_get conv (encode d @ r) name = get_spec spec name (lookup_dotted d name)"
  using assms
proof (cases rule: getFieldDotted_cases [where name = name and r = r])
  case missing
  then show ?thesis
    using assms by (simp add: bson_get_def get_spec_def bson_obj_encode)
next
  case (found v n t)
  have "report err name (enc_elem n v @ t) = (Inl (err (takeWhile (\<lambda>c. c \<noteq> 0) name) (typeName (vtype v))) :: pg_value pg_res)"
    for err
    by (simp add: report_def bson_type_name_def)
  with found show ?thesis
    using assms conv_enc [OF found(2)]
    by (simp add: bson_get_def get_spec_def bson_obj_encode split: sum.splits)
qed

end

fun as_int4 :: "bval \<Rightarrow> (string + pg_value) res" where
  "as_int4 (VInt n) = Inr (Inr (PgInt32 n))"
| "as_int4 _ = Inr (Inl ''int4'')"

fun as_int8 :: "bval \<Rightarrow> (string + pg_value) res" where
  "as_int8 (VLong n) = Inr (Inr (PgInt64 n))"
| "as_int8 (VInt n) = Inr (Inr (PgInt64 (scast n)))"
| "as_int8 _ = Inr (Inl ''int8'')"

fun as_float8 :: "bval \<Rightarrow> (string + pg_value) res" where
  "as_float8 (VDouble x) = Inr (Inr (PgFloat8 x))"
| "as_float8 (VInt n) = Inr (Inr (PgFloat8 (double_of_int (sint n))))"
| "as_float8 _ = Inr (Inl ''float8'')"

fun as_text :: "(64 word \<Rightarrow> byte list res) \<Rightarrow> bval \<Rightarrow> (string + pg_value) res" where
  "as_text iso_time (VString s) = Inr (Inr (PgText s))"
| "as_text iso_time (VSymbol s) = Inr (Inr (PgText s))"
| "as_text iso_time (VDBRef ns x) = Inr (Inr (PgText ns))"
| "as_text iso_time (VDouble x) = Inr (Inr (PgText (fmt_g 6 x)))"
| "as_text iso_time (VOID x) = Inr (Inr (PgText (oid_str x)))"
| "as_text iso_time (VBool b) = Inr (Inr (PgText (if b \<noteq> 0 then bs ''true'' else bs ''false'')))"
| "as_text iso_time (VDate w) = rmap (\<lambda>s. Inr (PgText s)) (iso_time w)"
| "as_text iso_time (VRegEx p f) = Inr (Inr (PgText p))"
| "as_text iso_time (VInt n) = Inr (Inr (PgText (dec_int (sint n))))"
| "as_text iso_time (VLong n) = Inr (Inr (PgText (dec_int (sint n))))"
| "as_text iso_time _ = Inr (Inl ''text'')"

interpretation get_int4: element_converter convert_int as_int4
proof
  fix n v t
  assume "elem_ok n v"
  then show "convert_int (enc_elem n v @ t) = as_int4 v"
    by (cases v) (simp_all add: convert_int_def numberInt_raw_def)
qed

interpretation get_int8: element_converter convert_int64 as_int8
proof
  fix n v t
  assume "elem_ok n v"
  then show "convert_int64 (enc_elem n v @ t) = as_int8 v"
    by (cases v) (simp_all add: convert_int64_def numberInt_raw_def numberLong_raw_def)
qed

interpretation get_float8: element_converter convert_double as_float8
proof
  fix n v t
  assume "elem_ok n v"
  then show "convert_double (enc_elem n v @ t) = as_float8 v"
    by (cases v) (simp_all add: convert_double_def numberInt_raw_def numberDouble_raw_def)
qed

lemma value_string_dbref:
  assumes "elem_ok n (VDBRef s x)"
  shows "value_string (enc_elem n (VDBRef s x) @ m) = Inr s"
proof -
  have "length s < 2 ^ 31"
    using elem_okD(3) [OF assms] by simp
  then show ?thesis
    using assms by (simp add: value_string_def valuestr_def valuestrsize_def std_string_append)
qed

interpretation get_text: element_converter "convert_string iso_time" "as_text iso_time" for iso_time
proof
  fix n v t
  assume ok: "elem_ok n v"
  then have "wf_value v" by (rule elem_okD(2))
  with ok show "convert_string iso_time (enc_elem n v @ t) = as_text iso_time v"
    using value_string_enc [OF ok] value_string_dbref [of n]
    by (cases v) (auto simp: convert_string_def return_string_def numberInt_raw_def numberLong_raw_def numberDouble_raw_def
        elem_oid_def boolean_def date_def elem_regex_def cstr_nul read_bytes_def)
qed

section \<open>Objects, arrays and rows of arrays\<close>

lemma anonymous_enc:
  assumes "elem_ok n v" "wf_doc [([], v)]"
  shows "anonymous (enc_elem n v @ t) = Inr (encode [([], v)])"
proof -
  obtain b where b: "bob_new 512 = Inr b" "builds b []"
    using bob_new_builds by blast
  obtain b' where b': "appendAs b (enc_elem n v @ t) [] = Inr b'" "builds b' [([], v)]"
    using appends_builds [OF appends_as [OF assms(1)] b(2)] assms(2) by auto
  then show ?thesis
    using b obj_builds [OF b'(2) assms(2)] by (simp add: anonymous_def)
qed

fun as_bson :: "bval \<Rightarrow> bdoc" where
  "as_bson (VObject d) = d"
| "as_bson v = [([], v)]"

lemma bson_get_bson_value:
  assumes "wf_doc d"
  shows "bson_get_bson (encode d @ r) name =
    (case lookup_dotted d name of None \<Rightarrow> Inr PgNull | Some v \<Rightarrow> Inr (PgBytea (encode (as_bson v))))"
  using assms
proof (cases rule: getFieldDotted_cases [where name = name and r = r])
  case missing
  then show ?thesis
    using assms by (simp add: bson_get_bson_def bson_obj_encode)
next
  case (found v n t)
  have s: "wf_doc [([], v)]" using assms found(1) by (rule wf_doc_single)
  show ?thesis
  proof (cases "\<exists>s. v = VObject s")
    case True
    then obtain s where s: "v = VObject s" by blast
    then have "wf_doc s" using lookup_sub [OF assms found(1)] by simp
    then show ?thesis
      using found assms s by (simp add: bson_get_bson_def bson_obj_encode embeddedObject_enc return_bson_encode)
  next
    case False
    then have "vtype v \<noteq> Object" "as_bson v = [([], v)]" by (cases v; simp)+
    then show ?thesis
      using found assms anonymous_enc [OF found(2) s] return_bson_encode(2) [OF s]
      by (simp add: bson_get_bson_def bson_obj_encode)
  qed
qed

fun array_count :: "bval \<Rightarrow> nat" where
  "array_count (VArray d) = length d"
| "array_count _ = 1"

lemma bson_array_size_value:
  assumes "wf_doc d"
  shows "bson_array_size (encode d @ r) name =
    (case lookup_dotted d name of None \<Rightarrow> Inr PgNull | Some v \<Rightarrow> Inr (PgInt32 (of_nat (array_count v))))"
  using assms
proof (cases rule: getFieldDotted_cases [where name = name and r = r])
  case missing
  then show ?thesis
    using assms by (simp add: bson_array_size_def bson_obj_encode)
next
  case (found v n t)
  show ?thesis
  proof (cases "\<exists>s. v = VArray s")
    case True
    then obtain s where s: "v = VArray s" by blast
    then have "wf_doc s" using lookup_sub [OF assms found(1)] by simp
    then show ?thesis
      using found assms s by (simp add: bson_array_size_def bson_obj_encode embeddedObject_enc nFields_enc)
  next
    case False
    then have "vtype v \<noteq> Array" "array_count v = 1" by (cases v; simp)+
    then show ?thesis
      using found assms by (simp add: bson_array_size_def bson_obj_encode)
  qed
qed

text \<open>The vector of an array whose names are its positions.\<close>

lemma elem_Array_step_numStr:
  assumes "elem_ok (numStr (int k)) v" "length acc = k" "k < 1000000"
  shows "elem_Array_step acc (enc_elem (numStr (int k)) v @ m) = Inr (acc @ [enc_elem (numStr (int k)) v @ m])"
proof -
  have "parseNumberFromStringWithBase 0 (2 ^ 32 - 1) (numStr (int k)) 0 = Inr (int k)"
    using assms(3) by (simp add: numStr_def parseNumber_dec_int)
  moreover have "nul_free (numStr (int k))" using assms(1) by (rule elem_okD(1))
  ultimately show ?thesis
    using assms(1,3) unfolding assms(2) [symmetric] by (simp add: elem_Array_step_def cstr_nul store_at_def)
qed

lemma each_Array:
  assumes "elems_ok (indexed k vs)" "length acc = k" "k + length vs \<le> 1000000"
  shows "each (\<lambda>v e. rmap Go (elem_Array_step v e)) acc (elem_ptrs (indexed k vs) r) =
    Inr (Go (acc @ elem_ptrs (indexed k vs) r))"
  using assms
proof (induction vs arbitrary: k acc)
  case (Cons v vs)
  let ?e = "enc_elem (numStr (int k)) v @ enc_elems (indexed (Suc k) vs) @ r"
  have "elem_Array_step acc ?e = Inr (acc @ [?e])"
    using Cons.prems by (intro elem_Array_step_numStr) simp_all
  then show ?case
    using Cons.prems Cons.IH [of "Suc k" "acc @ [?e]"] by simp
qed simp

lemma elem_Array_enc:
  assumes "elem_ok n (VArray (indexed 0 vs))" "wf_doc (indexed 0 vs)" "length vs \<le> 1000000"
  shows "elem_Array (enc_elem n (VArray (indexed 0 vs)) @ t) = Inr (elem_ptrs (indexed 0 vs) (0 # t))"
  using assms wf_docD(4) [OF assms(2)]
  by (simp add: elem_Array_def each_Array chk_def embeddedObjectUserCheck_def isABSONObj_def bson_obj_encode
      encode_def [symmetric] while_more_enc)

fun as_row :: "bval \<Rightarrow> bdoc" where
  "as_row (VObject d) = d"
| "as_row (VArray d) = d"
| "as_row v = [([], v)]"

lemma unwind_row_enc:
  assumes "elem_ok n v" "wf_doc [([], v)]"
  shows "unwind_row (enc_elem n v @ t) = Inr (PgBytea (encode (as_row v)))"
proof (cases "\<exists>s. v = VObject s \<or> v = VArray s")
  case True
  then obtain s where s: "v = VObject s \<or> v = VArray s" by blast
  have "length (enc_value v) \<le> BSONObjMaxInternalSize"
    using assms(2) by (simp add: wf_doc_def length_encode length_enc_elem enc_elems_single del: enc_elems.simps)
  then have "wf_doc s" using wf_doc_sub [OF assms(1) s] by simp
  then show ?thesis
    using s assms(1) embeddedObject_enc [OF assms(1) _ s] return_bson_encode
    by (auto simp: unwind_row_def isABSONObj_def)
next
  case False
  then have "\<not> isABSONObj_type (vtype v)" "as_row v = [([], v)]" by (cases v; simp)+
  then show ?thesis
    using assms anonymous_enc [OF assms] return_bson_encode(2) [OF assms(2)]
    by (simp add: unwind_row_def isABSONObj_def)
qed

lemma unwind_run_rows:
  assumes "\<And>i. i < length arr \<Longrightarrow> unwind_row (arr ! i) = Inr (rows ! i)" "length rows = length arr"
    and "k \<le> length arr"
  shows "unwind_run \<lparr>uw_array = arr, uw_deepCopy = c, uw_call_cntr = k\<rparr> vs \<longleftrightarrow> vs = drop k rows"
  using assms(3)
proof (induction "length arr - k" arbitrary: k vs)
  case 0
  then show ?case using assms(2)
    by (cases vs) (simp_all add: unwind_run_Nil unwind_run_Cons unwind_call_def)
next
  case (Suc j)
  then have k: "k < length arr" "k < length rows" "j = length arr - Suc k" using assms(2) by simp_all
  then have "unwind_run \<lparr>uw_array = arr, uw_deepCopy = c, uw_call_cntr = Suc k\<rparr> ws \<longleftrightarrow> ws = drop (Suc k) rows" for ws
    using Suc.hyps(1) [of "Suc k" ws] by simp
  then show ?case
    using k assms(1) [of k] Cons_nth_drop_Suc [OF k(2), symmetric]
    by (cases vs) (auto simp: unwind_run_Nil unwind_run_Cons unwind_call_def)
qed

text \<open>The rows of \<open>bson_unwind_array\<close>: the elements of an array, or the value itself.\<close>

fun unwind_values :: "bval option \<Rightarrow> bval list" where
  "unwind_values None = []"
| "unwind_values (Some (VArray d)) = map snd d"
| "unwind_values (Some v) = [v]"

fun unwindable :: "bval option \<Rightarrow> bool" where
  "unwindable (Some (VArray d)) = (positions_ok d \<and> length d \<le> 1000000)"
| "unwindable _ = True"

lemma copy_obj_encode: "wf_doc d \<Longrightarrow> copy_obj (encode d @ r) = Inr (encode d)"
  using bson_obj_encode [of d "[]"] by (simp add: copy_obj_def sint_encode read_bytes_def)

lemma elem_ptrs_nth:
  "i < length d \<Longrightarrow> \<exists>t. elem_ptrs d r ! i = enc_elem (fst (d ! i)) (snd (d ! i)) @ t"
proof (induction d arbitrary: i)
  case (Cons a d)
  obtain n v where "a = (n, v)" by (cases a)
  with Cons show ?case by (cases i) auto
qed simp

lemma wf_doc_anonymous:
  assumes "wf_doc d" "(n, v) \<in> set d"
  shows "wf_doc [([], v)]"
proof -
  have "length (enc_value v) + 2 \<le> length (enc_elems d)"
    using elem_in_elems [OF assms(2)] by simp
  then show ?thesis
    using assms(1) enc_value_bound(2) [OF assms]
    by (auto simp: wf_doc_def length_encode length_enc_elem enc_elems_single simp del: enc_elems.simps)
qed

lemma unwind_rows_elems:
  assumes "wf_doc d" "i < length d"
  shows "unwind_row (elem_ptrs d r ! i) = Inr (PgBytea (encode (as_row (snd (d ! i)))))"
proof -
  obtain n v where v: "d ! i = (n, v)" by (cases "d ! i")
  then have m: "(n, v) \<in> set d" using assms(2) by (metis nth_mem)
  obtain t where "elem_ptrs d r ! i = enc_elem n v @ t"
    using elem_ptrs_nth [OF assms(2), of r] v by auto
  moreover have "elem_ok n v"
    using wf_docD(4) [OF assms(1)] m by (auto simp: elems_ok_def)
  ultimately show ?thesis
    using unwind_row_enc [OF _ wf_doc_anonymous [OF assms(1) m]] v by simp
qed

lemma bson_unwind_array_rows:
  assumes "wf_doc d" "unwindable (lookup_dotted d name)"
  shows "bson_unwind_array (encode d @ r) name vs \<longleftrightarrow>
    vs = map (\<lambda>v. PgBytea (encode (as_row v))) (unwind_values (lookup_dotted d name))"
  using assms(1)
proof (cases rule: getFieldDotted_cases [where name = name and r = r])
  case missing
  then show ?thesis
    using assms unwind_run_rows [of "[]" "[]" 0 "encode d" vs]
    by (simp add: bson_unwind_array_def unwind_first_def bson_obj_encode copy_obj_encode)
next
  case (found v n t)
  have s: "wf_doc [([], v)]" using assms(1) found(1) by (rule wf_doc_single)
  show ?thesis
  proof (cases "\<exists>a. v = VArray a")
    case True
    then obtain a where a: "v = VArray a" by blast
    then have wf: "wf_doc a" using lookup_sub [OF assms(1) found(1)] by simp
    have ix: "a = indexed 0 (map snd a)" "length a \<le> 1000000"
      using assms(2) found(1) a by (simp_all add: positions_ok_def)
    then have "elem_Array (enc_elem n v @ t) = Inr (elem_ptrs a (0 # t))"
      using elem_Array_enc [of n "map snd a" t] found(2) wf a by simp
    then show ?thesis
      using assms(1) found a wf unwind_rows_elems [OF wf]
        unwind_run_rows [of "elem_ptrs a (0 # t)" "map (\<lambda>x. PgBytea (encode (as_row (snd x)))) a" 0 "encode d" vs]
      by (simp add: bson_unwind_array_def unwind_first_def bson_obj_encode copy_obj_encode comp_def)
  next
    case False
    then have "vtype v \<noteq> Array" "unwind_values (Some v) = [v]" by (cases v; simp)+
    then show ?thesis
      using assms(1) found unwind_row_enc [OF found(2) s]
        unwind_run_rows [of "[enc_elem n v @ t]" "[PgBytea (encode (as_row v))]" 0 "encode d" vs]
      by (simp add: bson_unwind_array_def unwind_first_def bson_obj_encode copy_obj_encode)
  qed
qed

section \<open>Equality, hashing and order\<close>

lemma size_t_nat:
  fixes n :: "32 word"
  assumes "0 < sint n"
  shows "unat (scast n :: 64 word) = nat (sint n)"
proof -
  have "sint n < 2 ^ 64" using sint_lt [of n] by simp
  then have "uint (word_of_int (sint n) :: 64 word) = sint n"
    using assms by (simp add: word_of_int_inverse)
  then show ?thesis
    unfolding unat_eq_nat_uint scast_eq by simp
qed

lemma bson_obj_Inr: "bson_obj a = Inr x \<Longrightarrow> x = a \<and> (\<exists>n. objsize a = Inr n \<and> 0 < sint n)"
  by (auto simp: bson_obj_def isValid_def rbind_Inr_iff rmap_Inr_iff massert_Inr_iff)

lemma equal_bytes_equal_hash:
  assumes "bson_binary_equal a b = Inr True"
  shows "bson_hash a = bson_hash b"
proof -
  have obj: "bson_obj a = Inr a" "bson_obj b = Inr b" and eq: "binaryEqual a b = Inr True"
    using assms bson_obj_Inr [of a] bson_obj_Inr [of b]
    by (auto simp: bson_binary_equal_def escaping_def rbind_Inr_iff split: sum.splits)
  then obtain n where n: "objsize a = Inr n" "0 < sint n"
    using bson_obj_Inr by blast
  then have "objsize b = Inr n" "take (nat (sint n)) a = take (nat (sint n)) b"
    "nat (sint n) \<le> length a" "nat (sint n) \<le> length b"
    using eq size_t_nat [OF n(2)]
    by (auto simp: binaryEqual_def memcmp_def rbind_Inr_iff rmap_Inr_iff split: if_splits)
  then show ?thesis
    using obj n by (simp add: bson_hash_def hash_def read_bytes_def)
qed

lemma bson_compare_sgn:
  assumes "wf_doc d" "wf_doc e" "orderables d" "orderables e"
  obtains c where "bson_compare (encode d) (encode e) = Inr c" "sgn c = sgn (doc_cmp d e)"
proof -
  obtain c where "woCompare (encode d) (encode e) emptyObj True = Inr c" "sgn c = sgn (doc_cmp d e)"
    using woCompare_agree [OF assms, of "[]" "[]"] by (auto dest!: agreeD)
  then show ?thesis
    using that bson_obj_encode [OF assms(1), of "[]"] bson_obj_encode [OF assms(2), of "[]"]
    by (simp add: bson_compare_def)
qed

lemma sgn_int_cases:
  "sgn (x :: int) = sgn y \<Longrightarrow> (x < 0 \<longleftrightarrow> y < 0) \<and> (x = 0 \<longleftrightarrow> y = 0) \<and> (0 < x \<longleftrightarrow> 0 < y)"
  by (auto simp: sgn_if split: if_splits)

lemma bson_operators:
  assumes "wf_doc d" "wf_doc e" "orderables d" "orderables e"
  shows "bson_lt (encode d) (encode e) = Inr (doc_cmp d e < 0)"
    "bson_lte (encode d) (encode e) = Inr (doc_cmp d e \<le> 0)"
    "bson_equal (encode d) (encode e) = Inr (doc_cmp d e = 0)"
    "bson_not_equal (encode d) (encode e) = Inr (doc_cmp d e \<noteq> 0)"
    "bson_gte (encode d) (encode e) = Inr (0 \<le> doc_cmp d e)"
    "bson_gt (encode d) (encode e) = Inr (0 < doc_cmp d e)"
proof -
  obtain c where c: "bson_compare (encode d) (encode e) = Inr c" "sgn c = sgn (doc_cmp d e)"
    by (rule bson_compare_sgn [OF assms])
  from sgn_int_cases [OF c(2)] c(1)
  show "bson_lt (encode d) (encode e) = Inr (doc_cmp d e < 0)"
    "bson_lte (encode d) (encode e) = Inr (doc_cmp d e \<le> 0)"
    "bson_equal (encode d) (encode e) = Inr (doc_cmp d e = 0)"
    "bson_not_equal (encode d) (encode e) = Inr (doc_cmp d e \<noteq> 0)"
    "bson_gte (encode d) (encode e) = Inr (0 \<le> doc_cmp d e)"
    "bson_gt (encode d) (encode e) = Inr (0 < doc_cmp d e)"
    by (auto simp: bson_lt_def bson_lte_def bson_equal_def bson_not_equal_def bson_gt_def bson_gte_def)
qed

section \<open>Properties\<close>

text \<open>
  C4: The integer accessors.  On a stored document, \<open>bson_get_int\<close> returns null when the dotted path
  leads nowhere, the value when it leads to a 32 bit integer, and otherwise reports the type it found;
  \<open>bson_get_bigint\<close> also takes 64 bit integers and widens 32 bit ones.
\<close>

theorem bson_get_integers:
  assumes "wf_doc d"
  shows "bson_get_int (encode d @ r) name = get_spec as_int4 name (lookup_dotted d name) \<and>
    bson_get_bigint (encode d @ r) name = get_spec as_int8 name (lookup_dotted d name)"
  unfolding bson_get_int_def bson_get_bigint_def
  using get_int4.bson_get_value [OF assms] get_int8.bson_get_value [OF assms] by simp

theorem bson_get_integers_witness:
  "let d = [(bs ''a'', VObject [(bs ''b'', VInt (-7))])] in
   bson_get_int (encode d @ []) (bs ''a.b'') = Inr (PgInt32 (-7)) \<and>
   bson_get_bigint (encode d @ []) (bs ''a.b'') = Inr (PgInt64 (-7)) \<and>
   bson_get_int (encode d @ []) (bs ''a'') = Inl (CannotConvert (bs ''a'') ''Object'' ''int4'')"
  using bson_get_integers [of "[(bs ''a'', VObject [(bs ''b'', VInt (-7))])]" "[]" "bs ''a.b''"]
    bson_get_integers [of "[(bs ''a'', VObject [(bs ''b'', VInt (-7))])]" "[]" "bs ''a''"]
  by (simp add: wf_doc_iff get_spec_def lookup_dotted.simps)

text \<open>
  C5: \<open>bson_get_double\<close> on a stored document returns null, the double, the exact conversion of a 32 bit
  integer, or a report; \<open>bson_get_text\<close> returns the text of strings, symbols, reference names,
  numbers, identifiers, booleans, dates and patterns, and a report for every other type.
\<close>

theorem bson_get_double_and_text:
  assumes "wf_doc d"
  shows "bson_get_double (encode d @ r) name = get_spec as_float8 name (lookup_dotted d name) \<and>
    bson_get_text iso_time (encode d @ r) name = get_spec (as_text iso_time) name (lookup_dotted d name)"
  unfolding bson_get_double_def bson_get_text_def
  using get_float8.bson_get_value [OF assms] get_text.bson_get_value [OF assms] by simp

theorem bson_get_double_and_text_witness:
  "bson_get_double (encode [(bs ''a'', VInt 0)] @ []) (bs ''a'') = Inr (PgFloat8 0) \<and>
   bson_get_text (\<lambda>_. Inr []) (encode [(bs ''a'', VString (bs ''x''))] @ []) (bs ''a'') = Inr (PgText (bs ''x''))"
  using bson_get_double_and_text [of "[(bs ''a'', VInt 0)]" "[]" "bs ''a''" "\<lambda>_. Inr []"]
    bson_get_double_and_text [of "[(bs ''a'', VString (bs ''x''))]" "[]" "bs ''a''" "\<lambda>_. Inr []"]
  by (simp add: wf_doc_iff get_spec_def lookup_dotted.simps double_of_int_def double_of_nat_def)

text \<open>
  C6: \<open>bson_get_bson\<close> returns null, a sub-object as it is, and any other value as an object with one
  anonymous field.
\<close>

theorem bson_get_bson_wraps:
  assumes "wf_doc d"
  shows "bson_get_bson (encode d @ r) name =
    (case lookup_dotted d name of None \<Rightarrow> Inr PgNull | Some v \<Rightarrow> Inr (PgBytea (encode (as_bson v))))"
  using assms by (rule bson_get_bson_value)

theorem bson_get_bson_wraps_witness:
  "bson_get_bson (encode [(bs ''a'', VNull)] @ []) (bs ''a'') = Inr (PgBytea [7, 0, 0, 0, 10, 0, 0])"
  using bson_get_bson_wraps [of "[(bs ''a'', VNull)]" "[]" "bs ''a''"]
  by (simp add: wf_doc_iff lookup_dotted.simps encode_def enc_frame_def type_byte_def put32_expand int32_def)

text \<open>
  C3: \<open>bson_unwind_array\<close>.  Called until it reports the end, it returns the elements of the array in
  order and then ends: an object or an array as it is, any other value as an object with one
  anonymous field.  A value that is not an array gives one row and a missing one none.
\<close>

theorem bson_unwind_array_returns:
  assumes "wf_doc d" "unwindable (lookup_dotted d name)"
  shows "bson_unwind_array (encode d @ r) name vs \<longleftrightarrow>
    vs = map (\<lambda>v. PgBytea (encode (as_row v))) (unwind_values (lookup_dotted d name))"
  using assms by (rule bson_unwind_array_rows)

theorem bson_unwind_array_returns_witness:
  "bson_unwind_array (encode [(bs ''a'', VArray [(bs ''0'', VNull), (bs ''1'', VObject [])])] @ []) (bs ''a'')
     [PgBytea (encode [([], VNull)]), PgBytea (encode [])]"
  by (subst bson_unwind_array_returns)
     (simp_all add: wf_doc_iff lookup_dotted.simps positions_ok_def numStr_def dec_int_def dec_nat.simps digit_byte_def)

text \<open>
  C7: \<open>bson_array_size\<close> returns the number of elements of an array, 1 for any other value, and null for
  a missing one.
\<close>

theorem bson_array_size_counts:
  assumes "wf_doc d"
  shows "bson_array_size (encode d @ r) name =
    (case lookup_dotted d name of None \<Rightarrow> Inr PgNull | Some v \<Rightarrow> Inr (PgInt32 (of_nat (array_count v))))"
  using assms by (rule bson_array_size_value)

theorem bson_array_size_counts_witness:
  "bson_array_size (encode [(bs ''a'', VArray [(bs ''0'', VNull), (bs ''1'', VObject [])])] @ []) (bs ''a'') =
     Inr (PgInt32 2)"
  using bson_array_size_counts [of "[(bs ''a'', VArray [(bs ''0'', VNull), (bs ''1'', VObject [])])]" "[]" "bs ''a''"]
  by (simp add: wf_doc_iff lookup_dotted.simps)

text \<open>
  C8: The hash operator class is consistent: whatever the stored bytes, two values that
  \<open>bson_binary_equal\<close> calls equal have the same \<open>bson_hash\<close>.
\<close>

theorem hash_consistent:
  assumes "bson_binary_equal a b = Inr True"
  shows "bson_hash a = bson_hash b"
  using assms by (rule equal_bytes_equal_hash)

theorem hash_consistent_witness: "bson_hash [5, 0, 0, 0, 0, 1] = bson_hash [5, 0, 0, 0, 0, 2]"
  by (rule hash_consistent)
     (simp add: bson_binary_equal_def bson_obj_def isValid_def objsize_def get32_def binaryEqual_def memcmp_def
       BSONObjMaxInternalSize_def BSONObjMaxUserSize_def)

text \<open>
  C9: The order operators form a consistent class on documents with integers below 2^53 in magnitude
  and without timestamps: exactly one of \<open><\<close>, \<open>=\<close> and \<open>>\<close> holds, \<open><=\<close> and \<open>>=\<close> are their unions,
  the operators are mirror images, and \<open><\<close> and \<open>=\<close> are transitive.
\<close>

theorem btree_operators_consistent:
  assumes "wf_doc d" "wf_doc e" "wf_doc f" "orderables d" "orderables e" "orderables f"
  shows "(\<exists>lt eq gt. bson_lt (encode d) (encode e) = Inr lt \<and> bson_equal (encode d) (encode e) = Inr eq \<and>
        bson_gt (encode d) (encode e) = Inr gt \<and> bson_lte (encode d) (encode e) = Inr (lt \<or> eq) \<and>
        bson_gte (encode d) (encode e) = Inr (gt \<or> eq) \<and> bson_gt (encode e) (encode d) = Inr lt \<and>
        [lt, eq, gt] \<in> {[True, False, False], [False, True, False], [False, False, True]}) \<and>
    (bson_lt (encode d) (encode e) = Inr True \<longrightarrow> bson_lt (encode e) (encode f) = Inr True \<longrightarrow>
      bson_lt (encode d) (encode f) = Inr True) \<and>
    (bson_equal (encode d) (encode e) = Inr True \<longrightarrow> bson_equal (encode e) (encode f) = Inr True \<longrightarrow>
      bson_equal (encode d) (encode f) = Inr True)"
  using assms doc_order.cmp_neg_swap [of d e] doc_order.cmp_less_le_trans [of d e f] doc_order.cmp_eq_trans [of d e f]
  by (auto simp: bson_operators)

theorem btree_operators_consistent_witness:
  "\<exists>lt eq gt. bson_lt (encode []) (encode [(bs ''a'', VNull)]) = Inr lt \<and>
     bson_equal (encode []) (encode [(bs ''a'', VNull)]) = Inr eq \<and>
     bson_gt (encode []) (encode [(bs ''a'', VNull)]) = Inr gt \<and>
     [lt, eq, gt] \<in> {[True, False, False], [False, True, False], [False, False, True]}"
proof -
  have "wf_doc [(bs ''a'', VNull)]" by (simp add: wf_doc_iff)
  from btree_operators_consistent [OF wf_doc_Nil this wf_doc_Nil] show ?thesis by fastforce
qed

end
