(* ===== verification/JsonRoundtrip.thy ===== *)
theory JsonRoundtrip
  imports JsonText JsonParse
begin

text \<open>
  Reading what the printer prints: \<open>fromjson\<close> inverts \<open>jsonString\<close> on the documents whose values
  strict JSON can express.
\<close>

section \<open>Tokens\<close>

lemma isspace_numerals [simp]:
  "isspace 32" "\<not> isspace 34" "\<not> isspace 36" "\<not> isspace 39" "\<not> isspace 40" "\<not> isspace 41" "\<not> isspace 44" "\<not> isspace 45"
  "\<not> isspace 47" "\<not> isspace 58" "\<not> isspace 91" "\<not> isspace 93" "\<not> isspace 123" "\<not> isspace 125"
  "\<not> isspace 116" "\<not> isspace 102" "\<not> isspace 110" "\<not> isspace 78" "\<not> isspace 73" "\<not> isspace 117"
  by (simp_all add: isspace_def)

lemma accept_space [simp]: "accept t (32 # s) = accept t s"
  by (simp add: accept_def skip_space_def)

lemma accept_Cons:
  "\<not> isspace d \<Longrightarrow> accept (c # t) (d # s) =
     (if c = d \<and> take (length t) s = t then Some (drop (length t) s) else None)"
  by (auto simp: accept_def skip_space_def)

lemma accept_append: "(\<exists>c t. token = c # t \<and> \<not> isspace c) \<Longrightarrow> accept token (token @ s) = Some s"
  by (auto simp: accept_def skip_space_def)

lemma expect_hit [simp]: "accept t s = Some r \<Longrightarrow> expect t msg s k = k r"
  by (simp add: expect_def)

section \<open>Strings\<close>

lemma isxdigit_hex: "isxdigit (hex_hi c)" "isxdigit (hex_lo c)"
proof -
  have "\<forall>i \<in> set [0..<16]. isxdigit (hexchars_lower ! i)" by code_simp
  then have x: "isxdigit (hexchars_lower ! i)" if "i < 16" for i using that by auto
  show "isxdigit (hex_hi c)" "isxdigit (hex_lo c)"
    unfolding hex_hi_def hex_lo_def by (rule x [OF half_less(1)], rule x [OF half_less(2)])
qed

lemma isHexString_toHexLower: "isHexString (toHexLower s)"
  by (induction s) (auto simp: isHexString_def isxdigit_hex toHexLower_Cons)

lemma chars_loop_plain:
  assumes "\<not> jmatch c ts" "\<not> c \<le> 0x1F" "c \<noteq> 92"
  shows "chars_loop ts None acc (c # q) = chars_loop ts None (acc @ [c]) q"
  using assms by (simp add: chars_loop.simps(2))

lemma chars_loop_escape:
  assumes "\<not> jmatch 92 ts" "d \<noteq> 117" "d \<noteq> 120" "\<not> (48 \<le> d \<and> d \<le> 55)"
  shows "chars_loop ts None acc (92 # d # q) = chars_loop ts None (acc @ [unescape d]) q"
  using assms by (auto simp: chars_loop.simps(2) [of _ _ _ 92])

lemma chars_loop_u00:
  assumes "\<not> jmatch 92 ts" "q \<noteq> []" "c < 0x80"
  shows "chars_loop ts None acc (92 # 117 # 48 # 48 # toHexLower [c] @ q) = chars_loop ts None (acc @ [c]) q"
proof -
  have x: "isxdigit 48" by (simp add: isxdigit_def isdigit_def)
  have z: "fromHex2 48 48 = Inr 0" by (simp add: fromHex2_def fromHex_def)
  have e: "encodeUTF8 0 c = [c]" using assms(3) by (simp add: encodeUTF8_def)
  have l: "\<not> length q \<le> 0" using assms(2) by simp
  show ?thesis
    using assms(1) x z e l isxdigit_hex [of c]
    by (simp add: toHexLower_Cons chars_loop.simps(2) [of _ _ _ 92] isHexString_def)
qed

lemma chars_escape_byte:
  assumes "q \<noteq> []"
  shows "chars_loop [34] None acc (escape_byte False c @ q) = chars_loop [34] None (acc @ [c]) q"
proof -
  have m: "\<not> jmatch 92 [34]" by (simp add: jmatch_def)
  note esc = chars_loop_escape [OF m]
  consider "c = 34" | "c = 92" | "c = 8" | "c = 12" | "c = 10" | "c = 13" | "c = 9"
    | "c \<le> 0x1f" "c \<noteq> 8" "c \<noteq> 12" "c \<noteq> 10" "c \<noteq> 13" "c \<noteq> 9" "c \<noteq> 34" "c \<noteq> 92" "c \<noteq> 47"
    | "\<not> c \<le> 0x1f" "c \<noteq> 34" "c \<noteq> 92"
    by (cases "c = 47"; cases "c \<le> 0x1f") auto
  then show ?thesis
  proof cases
    case 8
    then have "c < 0x80" by (auto simp: word_le_nat_alt word_less_nat_alt)
    from chars_loop_u00 [OF m assms this] 8 show ?thesis
      by (simp add: escape_byte_def)
  next
    case 9
    then have p: "escape_byte False c = [c]"
      by (auto simp: escape_byte_def word_le_nat_alt word_less_nat_alt)
    have "\<not> jmatch c [34]" using 9 by (auto simp: jmatch_def)
    from chars_loop_plain [OF this] 9 p show ?thesis by simp
  qed (simp_all add: escape_byte_def esc unescape_def)
qed

lemma chars_escape: "chars_loop [34] None acc (escape False s @ 34 # r) = Inr (acc @ s, 34 # r)"
proof (induction s arbitrary: acc)
  case Nil
  then show ?case by (simp add: escape_def chars_loop.simps(2) jmatch_def)
next
  case (Cons c s)
  have "escape False (c # s) = escape_byte False c @ escape False s"
    by (simp add: escape_def)
  then show ?case
    using chars_escape_byte [of "escape False s @ 34 # r" acc c] Cons by simp
qed

lemma quotedString_escape [simp]:
  "quotedString (32 # quoted (escape False s) @ r) = Inr (s, r)"
  by (simp add: quotedString_def quoted_def accept_Cons jchars_def chars_escape)

lemma jfield_escape [simp]: "jfield (32 # quoted (escape False s) @ r) = Inr (s, r)"
  using quotedString_escape [of s r] by (simp add: jfield_def quoted_def accept_Cons)

text \<open>Strings the printer writes without escapes.\<close>

definition plain :: "byte list \<Rightarrow> bool" where
  "plain s \<longleftrightarrow> (\<forall>c \<in> set s. escape_byte False c = [c])"

lemma escape_plain: "plain s \<Longrightarrow> escape False s = s"
  by (induction s) (auto simp: escape_def plain_def)

lemma quotedString_plain: "plain s \<Longrightarrow> quotedString (32 # quoted s @ r) = Inr (s, r)"
  using quotedString_escape [of s r] by (simp add: escape_plain)

lemma jfield_plain: "plain s \<Longrightarrow> jfield (32 # quoted s @ r) = Inr (s, r)"
  using jfield_escape [of s r] by (simp add: escape_plain)

section \<open>Scalar values\<close>

text \<open>
  The handler \<open>H\<close> reads the text of the value \<open>v\<close> after a blank and appends the value, when the
  text is followed by a comma or a blank and the buffer has room.
\<close>

definition delimiter :: "byte \<Rightarrow> bool" where
  "delimiter c \<longleftrightarrow> c = 44 \<or> c = 32"

definition parses :: "jhandler \<Rightarrow> byte list \<Rightarrow> bval \<Rightarrow> bool" where
  "parses H txt v \<longleftrightarrow>
     (\<forall>n c r b. delimiter c \<longrightarrow> length (bob_contents b) + length (enc_elem n v) \<le> BufferMaxSize \<longrightarrow>
       (\<exists>b'. H n (32 # txt @ c # r) b = Inr (c # r, b') \<and> bob_extended b (enc_elem n v) b'))"

lemma parsesD:
  assumes "parses H txt v" "delimiter c" "length (bob_contents b) + length (enc_elem n v) \<le> BufferMaxSize"
  obtains b' where "H n (32 # txt @ c # r) b = Inr (c # r, b')" "bob_extended b (enc_elem n v) b'"
  using assms unfolding parses_def by blast

lemma parses_appends:
  assumes "\<And>n c r b. delimiter c \<Longrightarrow> H n (32 # txt @ c # r) b = appended (c # r) (f b n)"
    and "\<And>n. appends (\<lambda>b. f b n) n v"
  shows "parses H txt v"
  unfolding parses_def
proof (intro allI impI)
  fix n c r b
  assume "delimiter c" and room: "length (bob_contents b) + length (enc_elem n v) \<le> BufferMaxSize"
  obtain b' where "f b n = Inr b'" "bob_extended b (enc_elem n v) b'"
    using bob_sink.writes_room [OF assms(2) [unfolded appends_def] room] by blast
  then show "\<exists>b'. H n (32 # txt @ c # r) b = Inr (c # r, b') \<and> bob_extended b (enc_elem n v) b'"
    using assms(1) \<open>delimiter c\<close> by (simp add: appended_def)
qed

lemmas value_eval = value_with_def accept_Cons jwords_def

lemma parses_words:
  "parses (value_with val) (bs ''true'') (VBool 1)"
  "parses (value_with val) (bs ''false'') (VBool 0)"
  "parses (value_with val) (bs ''null'') VNull"
  "parses (value_with val) (bs ''NaN'') (VDouble quiet_NaN)"
  "parses (value_with val) (bs ''Infinity'') (VDouble infinity)"
  "parses (value_with val) (bs ''-Infinity'') (VDouble neg_infinity)"
proof -
  show "parses (value_with val) (bs ''true'') (VBool 1)"
    using appends_scalars(4) [where x = True]
    by (intro parses_appends [where f = "\<lambda>b n. appendBool b n True"]) (simp_all add: value_eval)
  show "parses (value_with val) (bs ''false'') (VBool 0)"
    using appends_scalars(4) [where x = False]
    by (intro parses_appends [where f = "\<lambda>b n. appendBool b n False"]) (simp_all add: value_eval)
  show "parses (value_with val) (bs ''null'') VNull"
    using appends_markers(1)
    by (intro parses_appends [where f = appendNull]) (simp_all add: value_eval)
  show "parses (value_with val) (bs ''NaN'') (VDouble quiet_NaN)"
    using appends_scalars(3)
    by (intro parses_appends [where f = "\<lambda>b n. append_double b n quiet_NaN"]) (simp_all add: value_eval)
  show "parses (value_with val) (bs ''Infinity'') (VDouble infinity)"
    using appends_scalars(3)
    by (intro parses_appends [where f = "\<lambda>b n. append_double b n infinity"]) (simp_all add: value_eval)
  show "parses (value_with val) (bs ''-Infinity'') (VDouble neg_infinity)"
    using appends_scalars(3)
    by (intro parses_appends [where f = "\<lambda>b n. append_double b n neg_infinity"]) (simp_all add: value_eval)
qed

lemma parses_string: "parses (value_with val) (quoted (escape False s)) (VString s)"
proof (rule parses_appends [where f = "\<lambda>b n. append_str b n s"])
  fix n c r b
  show "value_with val n (32 # quoted (escape False s) @ c # r) b = appended (c # r) (append_str b n s)"
    using quotedString_escape [of s "c # r"] by (simp add: value_eval quoted_def)
qed (rule appends_strings)

lemma digit_ne:
  assumes "isdigit d"
  shows "d \<notin> {34, 39, 45, 47, 91, 123, 110, 68, 84, 79, 116, 102, 117, 78, 73}"
  using assms by (auto simp: isdigit_def word_le_nat_alt)

lemma ends_delimiter: "delimiter c \<Longrightarrow> ends_number c"
  by (auto simp: delimiter_def ends_number_def isdigit_def lower_def)

lemma value_with_int:
  "value_with val n (32 # dec_int k @ r) b = jnumber n (32 # dec_int k @ r) b"
proof (cases "k < 0")
  case True
  obtain d t where d: "dec_nat (nat (- k)) = d # t" "isdigit d" by (rule dec_nat_hd)
  then show ?thesis
    using True digit_ne [OF d(2)] by (simp add: value_eval dec_int_def)
next
  case False
  obtain d t where d: "dec_nat (nat k) = d # t" "isdigit d" by (rule dec_nat_hd)
  then show ?thesis
    using False digit_ne [OF d(2)] digit_not_sign_space(3) [OF d(2)] by (auto simp: value_eval dec_int_def)
qed

lemma jnumber_int:
  assumes "ends_number c" "- (2 ^ 63) \<le> k" "k < 2 ^ 63"
  shows "jnumber n (32 # dec_int k @ c # r) b =
    appended (c # r) (if - (2 ^ 31) \<le> k \<and> k < 2 ^ 31 then append_int b n (word_of_int k)
                      else append_long b n (word_of_int k))"
proof -
  have nd: "\<not> isdigit c" using assms(1) by (simp add: ends_number_def)
  have "\<bar>k\<bar> < 2 ^ 64" using assms by auto
  then obtain d where d: "strtod (dec_int k @ c # r) = (d, c # r, False)"
    using strtod_dec_int [OF assms(1)] by blast
  moreover have "c # r \<noteq> dec_int k @ c # r"
    by (simp add: dec_int_def)
  ultimately have d': "strtod (32 # dec_int k @ c # r) = (d, c # r, False)"
    by (subst strtod_skip) (auto simp: strtod_def split: option.splits prod.splits)
  have l: "strtoll (32 # dec_int k @ c # r) = (k, c # r, False)"
    using strtoll_dec_int [OF nd assms(2,3), of r] scan_int_skip [of 32 "dec_int k @ c # r"] scan_int_dec_int [OF nd, of k r]
    by (simp add: strtoll_def)
  have ne: "c # r \<noteq> 32 # dec_int k @ c # r"
    by (metis append_Cons append_self_conv2 list.distinct(1) append_same_eq append_assoc)
  show ?thesis
    using ne by (simp add: jnumber_def d' l appended_def rmap_def rbind_def)
qed

lemma parses_int: "parses (value_with val) (dec_int (sint k)) (VInt k)"
proof (rule parses_appends [where f = "\<lambda>b n. append_int b n k"])
  fix n c r b
  assume "delimiter c"
  have r: "- (2 ^ 31) \<le> sint k" "sint k < 2 ^ 31"
    using sint_greater_eq [of k] sint_less [of k] by simp_all
  then show "value_with val n (32 # dec_int (sint k) @ c # r) b = appended (c # r) (append_int b n k)"
    using jnumber_int [OF ends_delimiter [OF \<open>delimiter c\<close>], of "sint k"] by (simp add: value_with_int)
qed (rule appends_scalars)

lemma parses_long:
  assumes "\<not> (- (2 ^ 31) \<le> sint k \<and> sint k < 2 ^ 31)"
  shows "parses (value_with val) (dec_int (sint k)) (VLong k)"
proof (rule parses_appends [where f = "\<lambda>b n. append_long b n k"])
  fix n c r b
  assume "delimiter c"
  have r: "- (2 ^ 63) \<le> sint k" "sint k < 2 ^ 63"
    using sint_greater_eq [of k] sint_less [of k] by simp_all
  then show "value_with val n (32 # dec_int (sint k) @ c # r) b = appended (c # r) (append_long b n k)"
    using jnumber_int [OF ends_delimiter [OF \<open>delimiter c\<close>], of "sint k"] assms by (auto simp: value_with_int)
qed (rule appends_scalars)

section \<open>Special objects\<close>

lemma value_special:
  assumes "plain (bs key)"
    and "objectBody val True (bs key) n (sp_colon @ body @ 32 # 125 # r) b = appended (32 # 125 # r) m"
  shows "value_with val n (32 # special key body @ r) b = appended r m"
proof -
  have f: "jfield (32 # quoted (bs key) @ sp_colon @ body @ 32 # 125 # r) =
      Inr (bs key, sp_colon @ body @ 32 # 125 # r)"
    using assms(1) by (rule jfield_plain)
  have a: "accept [125] (32 # quoted (bs key) @ sp_colon @ body @ 32 # 125 # r) = None"
    by (simp add: quoted_def accept_Cons)
  have "jobject val True n (32 # special key body @ r) b = appended r m"
    unfolding special_def jobject_def using assms(2) f a
    by (cases m) (simp_all add: accept_Cons appended_def)
  then show ?thesis
    by (simp add: value_with_def special_def accept_Cons)
qed

lemma expect_colon [simp]: "expect (bs '':'') msg (sp_colon @ s) k = k (32 # s)"
  by (simp add: expect_def sp_colon_def accept_Cons)

lemma expect_comma [simp]: "expect (bs '','') msg (comma_sp @ s) k = k (32 # s)"
  by (simp add: expect_def comma_sp_def accept_Cons)

lemma expect_field_plain [simp]:
  "plain f \<Longrightarrow> expect_field f msg (32 # quoted f @ s) k = k s"
  by (simp add: expect_field_def acceptField_def jfield_plain)

lemma plain_keys [simp]:
  "plain (bs ''$oid'')" "plain (bs ''$binary'')" "plain (bs ''$type'')" "plain (bs ''$date'')"
  "plain (bs ''$timestamp'')" "plain (bs ''t'')" "plain (bs ''i'')" "plain (bs ''$regex'')"
  "plain (bs ''$options'')" "plain (bs ''$undefined'')"
  by code_simp+

lemma plain_xdigit: "isxdigit c \<Longrightarrow> escape_byte False c = [c]"
  by (auto simp: escape_byte_def isxdigit_def isdigit_def word_le_nat_alt)

lemma plain_toHexLower: "plain (toHexLower s)"
  using isHexString_toHexLower [of s] by (auto simp: plain_def isHexString_def plain_xdigit)

lemma plain_b64: "plain (b64_encode s)"
proof -
  have "\<forall>c \<in> set b64_chars. escape_byte False c = [c]" by code_simp
  then show ?thesis using b64_encode_chars [of s] by (auto simp: plain_def)
qed

lemma plain_options: "set f \<subseteq> set joptions \<Longrightarrow> plain f"
proof -
  have "\<forall>c \<in> set joptions. escape_byte False c = [c]" by code_simp
  then show "set f \<subseteq> set joptions \<Longrightarrow> plain f" by (auto simp: plain_def)
qed

lemma parses_oid:
  assumes "length x = 12"
  shows "parses (value_with val) (special ''$oid'' (quoted (oid_str x))) (VOID x)"
proof (rule parses_appends [where f = "\<lambda>b n. append_oid b n x"])
  fix n c r b
  have "parse_oid (oid_str x) = Inr x"
    using oid_text.dec_enc [OF assms] assms isHexString_toHexLower [of x]
    by (simp add: parse_oid_def oid_str_def)
  moreover have "plain (oid_str x)"
    by (simp add: oid_str_def plain_toHexLower)
  ultimately show "value_with val n (32 # special ''$oid'' (quoted (oid_str x)) @ c # r) b = appended (c # r) (append_oid b n x)"
    by (intro value_special) (simp_all add: objectBody_def reserved_in_base_def objectIdObject_def quotedString_plain del: bs_simps)
qed (use assms in \<open>rule appends_oid\<close>)

lemma parses_undefined: "parses (value_with val) (special ''$undefined'' (bs ''true'')) VUndefined"
proof (rule parses_appends [where f = appendUndefined])
  fix n c r b
  have "objectBody val True (bs ''$undefined'') n (sp_colon @ bs ''true'' @ 32 # 125 # c # r) b =
      appended (32 # 125 # c # r) (appendUndefined b n)"
    by (simp add: objectBody_def reserved_in_base_def undefinedObject_def sp_colon_def expect_def accept_Cons)
  then show "value_with val n (32 # special ''$undefined'' (bs ''true'') @ c # r) b = appended (c # r) (appendUndefined b n)"
    by (intro value_special) (simp_all del: bs_simps)
qed (rule appends_markers)

lemma isBase64_encode: "isBase64String (b64_encode s)"
proof -
  have "b64_chars \<noteq> []" by (simp add: b64_chars_def)
  then show ?thesis
    using b64_encode_chars [of s] by (auto simp: isBase64String_def jmatch_def)
qed

lemma parses_binData:
  assumes "small x"
  shows "parses (value_with val) (json_text (VBinData t x)) (VBinData t x)"
proof (rule parses_appends [where f = "\<lambda>b n. appendBinData b n (int32 (length x)) t x"])
  fix n c r b
  let ?body = "quoted (b64_encode x) @ comma_sp @ quoted (bs ''$type'') @ sp_colon @ quoted (toHexLower [t])"
  have l: "length (b64_encode x) mod 4 = 0" by (simp add: b64_encode_length)
  have h: "isHexString (toHexLower [t])" "toHexLower [t] = [hex_hi t, hex_lo t]"
    by (rule isHexString_toHexLower) (simp add: toHexLower_Cons)
  have "binaryObject n (sp_colon @ ?body @ 32 # 125 # c # r) b =
      appended (32 # 125 # c # r) (appendBinData b n (int32 (length x)) t x)"
    using quotedString_plain [OF plain_b64 [of x]] quotedString_plain [OF plain_toHexLower [of "[t]"]] l
      isBase64_encode [of x] base64_text.dec_enc [of x] h
    by (simp add: binaryObject_def del: bs_simps)
  then have "objectBody val True (bs ''$binary'') n (sp_colon @ ?body @ 32 # 125 # c # r) b =
      appended (32 # 125 # c # r) (appendBinData b n (int32 (length x)) t x)"
    by (simp add: objectBody_def reserved_in_base_def)
  then show "value_with val n (32 # json_text (VBinData t x) @ c # r) b =
      appended (c # r) (appendBinData b n (int32 (length x)) t x)"
    unfolding json_text.simps by (intro value_special plain_keys)
qed (use appends_binData [OF assms, of _ _ _ "[]"] in simp)

lemma parse_millis_dec:
  assumes "\<not> isdigit c"
  shows "parse_millis (32 # dec_int (sint w) @ c # r) = Inr ((w :: 64 word), c # r)"
proof -
  have r: "- (2 ^ 63) \<le> sint w" "sint w < 2 ^ 63"
    using sint_greater_eq [of w] sint_less [of w] by simp_all
  have l: "strtoll (32 # dec_int (sint w) @ c # r) = (sint w, c # r, False)"
    using strtoll_dec_int [OF assms r, of r] scan_int_skip [of 32 "dec_int (sint w) @ c # r"]
      scan_int_dec_int [OF assms, of "sint w" r]
    by (simp add: strtoll_def)
  have "length (c # r) \<noteq> length (32 # dec_int (sint w) @ c # r)" by simp
  then have "c # r \<noteq> 32 # dec_int (sint w) @ c # r" by metis
  then show ?thesis by (simp add: parse_millis_def l)
qed

lemma parses_date: "parses (value_with val) (json_text (VDate w)) (VDate w)"
proof (rule parses_appends [where f = "\<lambda>b n. appendDate b n w"])
  fix n c r b
  have "\<not> isdigit 32" by (simp add: isdigit_def)
  then have "dateObject n (sp_colon @ dec_int (sint w) @ 32 # 125 # c # r) b =
      appended (32 # 125 # c # r) (appendDate b n w)"
    by (simp add: dateObject_def parse_millis_dec del: bs_simps)
  then have "objectBody val True (bs ''$date'') n (sp_colon @ dec_int (sint w) @ 32 # 125 # c # r) b =
      appended (32 # 125 # c # r) (appendDate b n w)"
    by (simp add: objectBody_def reserved_in_base_def)
  then show "value_with val n (32 # json_text (VDate w) @ c # r) b = appended (c # r) (appendDate b n w)"
    unfolding json_text.simps by (intro value_special plain_keys)
qed (rule appends_scalars)

lemma ucast_up_down: "ucast (ucast (w :: 32 word) :: 64 word) = w"
  by (rule bit_eqI) (auto simp: bit_simps)

lemma parse_u32_dec:
  assumes "\<not> isdigit c"
  shows "parse_u32 (32 # dec_nat (unat w) @ c # r) = Inr ((w :: 32 word), c # r)"
proof -
  obtain d t where d: "dec_nat (unat w) = d # t" "isdigit d" by (rule dec_nat_hd)
  have a: "accept [45] (dec_nat (unat w) @ c # r) = None"
    using d digit_ne [OF d(2)] digit_not_sign_space(3) [OF d(2)] by (simp add: accept_Cons)
  have l: "unat w < 2 ^ 64"
    using unsigned_less [of w, where ?'a = nat] by simp
  have u: "strtoull (32 # dec_nat (unat w) @ c # r) = (of_nat (unat w), c # r, False)"
    using scan_int_skip [of 32 "dec_nat (unat w) @ c # r"]
      scan_int_dec_int [OF assms, of "int (unat w)" r] l
    by (simp add: strtoull_def dec_int_def)
  have "length (c # r) \<noteq> length (32 # dec_nat (unat w) @ c # r)" by simp
  then have "c # r \<noteq> 32 # dec_nat (unat w) @ c # r" by metis
  moreover have "ucast (of_nat (unat w) :: 64 word) = w"
    by (simp add: ucast_up_down)
  ultimately show ?thesis by (simp add: parse_u32_def a u)
qed

lemma expect_braces:
  "expect (bs ''{'') msg (32 # bs ''{ '' @ s) k = k (32 # s)"
  "expect (bs ''}'') msg (bs '' }'' @ s) k = k s"
  by (simp_all add: expect_def accept_Cons)

lemma ts_halves: "optime_asDate (ucast ((ucast (ts_secs w) :: 64 word) * 1000 div 1000)) (ts_inc w) = w"
proof -
  have "(ucast (ts_secs w) :: 64 word) * 1000 div 1000 = ucast (ts_secs w)"
    using ucast_thousand [of "ts_secs w"] by (simp add: word_unat_eq_iff)
  moreover have "or (push_bit 32 (ucast (ts_secs w))) (ucast (ts_inc w)) = w"
    by (rule bit_eqI) (auto simp: ts_secs_def ts_inc_def bit_simps)
  ultimately show ?thesis by (simp add: optime_asDate_def ucast_up_down)
qed

lemma parses_timestamp: "parses (value_with val) (json_text (VTimestamp w)) (VTimestamp w)"
proof (rule parses_appends [where f = "\<lambda>b n. append_ts b n (ts_secs w) (ts_inc w)"])
  fix n c r b
  let ?body = "bs ''{ '' @ quoted (bs ''t'') @ sp_colon @ dec_nat (unat (ts_secs w)) @ comma_sp @
       quoted (bs ''i'') @ sp_colon @ dec_nat (unat (ts_inc w)) @ bs '' }''"
  have nd: "\<not> isdigit 32" "\<not> isdigit 44" by (simp_all add: isdigit_def)
  have p: "parse_u32 (32 # dec_nat (unat (ts_secs w)) @ comma_sp @ s) = Inr (ts_secs w, comma_sp @ s)" for s
    using parse_u32_dec [OF nd(2), of "ts_secs w" "32 # s"] by (simp add: comma_sp_def)
  have q: "parse_u32 (32 # dec_nat (unat (ts_inc w)) @ bs '' }'' @ s) = Inr (ts_inc w, bs '' }'' @ s)" for s
    using parse_u32_dec [OF nd(1), of "ts_inc w" "125 # s"] by simp
  have "timestampObject n (sp_colon @ ?body @ 32 # 125 # c # r) b =
      appended (32 # 125 # c # r) (append_ts b n (ts_secs w) (ts_inc w))"
    by (simp add: timestampObject_def p q expect_braces del: bs_simps)
  then have "objectBody val True (bs ''$timestamp'') n (sp_colon @ ?body @ 32 # 125 # c # r) b =
      appended (32 # 125 # c # r) (append_ts b n (ts_secs w) (ts_inc w))"
    by (simp add: objectBody_def reserved_in_base_def)
  then show "value_with val n (32 # json_text (VTimestamp w) @ c # r) b =
      appended (c # r) (append_ts b n (ts_secs w) (ts_inc w))"
    unfolding json_text.simps by (intro value_special plain_keys)
qed (use appends_scalars(6) in \<open>simp add: append_ts_def appendTimestamp_inc_def ts_halves\<close>)

lemma parses_regex:
  assumes "set f \<subseteq> set joptions"
  shows "parses (value_with val) (json_text (VRegEx p f)) (VRegEx p f)"
proof (rule parses_appends [where f = "\<lambda>b n. appendRegex b n p f"])
  fix n c r b
  let ?body = "quoted (escape False p) @ comma_sp @ quoted (bs ''$options'') @ sp_colon @ quoted f"
  have o: "regexOptCheck f = Inr ()"
    using assms by (auto simp: regexOptCheck_def jmatch_def joptions_def)
  have a: "accept (bs '','') (comma_sp @ s) = Some (32 # s)" for s
    by (simp add: comma_sp_def accept_Cons)
  have "regexObject n (sp_colon @ ?body @ 32 # 125 # c # r) b =
      appended (32 # 125 # c # r) (appendRegex b n p f)"
    using quotedString_plain [OF plain_options [OF assms]] o a
    by (simp add: regexObject_def del: bs_simps)
  then have "objectBody val True (bs ''$regex'') n (sp_colon @ ?body @ 32 # 125 # c # r) b =
      appended (32 # 125 # c # r) (appendRegex b n p f)"
    by (simp add: objectBody_def reserved_in_base_def)
  then show "value_with val n (32 # json_text (VRegEx p f) @ c # r) b =
      appended (c # r) (appendRegex b n p f)"
    unfolding json_text.simps by (intro value_special plain_keys)
qed (rule appends_regex)

section \<open>Objects\<close>

text \<open>What follows the first member of an object.\<close>

definition members_tail :: "bdoc \<Rightarrow> byte list \<Rightarrow> byte list" where
  "members_tail d r = concat (map (\<lambda>(n, v). comma_sp @ elem_text True n v) d) @ 32 # 125 # r"

lemma members_tail_simps [simp]:
  "members_tail [] r = 32 # 125 # r"
  "members_tail ((n, v) # d) r = comma_sp @ quoted (escape False n) @ sp_colon @ json_text v @ members_tail d r"
  by (simp_all add: members_tail_def elem_text_def)

lemma members_tail_hd: obtains c t where "members_tail d r = c # t" "delimiter c"
  by (cases d) (auto simp: comma_sp_def delimiter_def)

lemma join_members_tail:
  "join comma_sp (json_members ((n, v) # d)) @ 32 # 125 # r =
     quoted (escape False n) @ sp_colon @ json_text v @ members_tail d r"
  by (induction d arbitrary: n v) auto

lemma length_members_tail: "length d < length (members_tail d r)"
  by (induction d) (auto simp: comma_sp_def)

lemma members_loop_tail:
  assumes "\<And>n v. (n, v) \<in> set d \<Longrightarrow> parses val (json_text v) v" "length d < k"
    and "length (bob_contents b) + length (enc_elems d) \<le> BufferMaxSize"
  shows "\<exists>b'. members_loop val k (members_tail d r) b = Inr (32 # 125 # r, b') \<and> bob_extended b (enc_elems d) b'"
  using assms
proof (induction d arbitrary: k b)
  case Nil
  then obtain k' where "k = Suc k'" by (cases k) auto
  then show ?case using bob_sink.ext_refl [of b] by (simp add: accept_Cons)
next
  case (Cons a d)
  obtain n v where a: "a = (n, v)" by (cases a) auto
  obtain k' where k: "k = Suc k'" using Cons.prems(2) by (cases k) auto
  obtain c t where t: "members_tail d r = c # t" "delimiter c" by (rule members_tail_hd)
  have l: "length (enc_elems (a # d)) = length (enc_elem n v) + length (enc_elems d)"
    by (simp add: a length_enc_elem)
  have p: "parses val (json_text v) v" using Cons.prems(1) [of n v] by (simp add: a)
  have room: "length (bob_contents b) + length (enc_elem n v) \<le> BufferMaxSize"
    using Cons.prems(3) l by simp
  obtain b1 where b1: "val n (32 # json_text v @ members_tail d r) b = Inr (members_tail d r, b1)"
      "bob_extended b (enc_elem n v) b1"
    using parsesD [OF p t(2) room, of t] unfolding t(1) by blast
  have "length (bob_contents b1) + length (enc_elems d) \<le> BufferMaxSize"
    using Cons.prems(3) l b1(2) by (simp add: bob_extended_def)
  then obtain b2 where b2: "members_loop val k' (members_tail d r) b1 = Inr (32 # 125 # r, b2)"
      "bob_extended b1 (enc_elems d) b2"
    using Cons.IH [of k' b1] Cons.prems k by auto
  have "accept (bs '','') (comma_sp @ s) = Some (32 # s)" for s
    by (simp add: comma_sp_def accept_Cons)
  then have "members_loop val k (members_tail (a # d) r) b = Inr (32 # 125 # r, b2)"
    using b1(1) b2(1) by (simp add: a k del: bs_simps)
  moreover have "bob_extended b (enc_elems (a # d)) b2"
    using bob_sink.ext_trans [OF b1(2) b2(2)] by (simp add: a enc_elems_Cons del: enc_elems.simps)
  ultimately show ?case by blast
qed

lemma jmembers_tail:
  assumes "\<And>m w. (m, w) \<in> set ((n, v) # d) \<Longrightarrow> parses val (json_text w) w"
    and "length (bob_contents b) + length (enc_elems ((n, v) # d)) \<le> BufferMaxSize"
  shows "\<exists>b'. jmembers val n (sp_colon @ json_text v @ members_tail d r) b = Inr (32 # 125 # r, b') \<and>
    bob_extended b (enc_elems ((n, v) # d)) b'"
proof -
  obtain c t where t: "members_tail d r = c # t" "delimiter c" by (rule members_tail_hd)
  have l: "length (enc_elems ((n, v) # d)) = length (enc_elem n v) + length (enc_elems d)"
    by (simp add: length_enc_elem)
  have room: "length (bob_contents b) + length (enc_elem n v) \<le> BufferMaxSize"
    using assms(2) l by simp
  have p: "parses val (json_text v) v" using assms(1) [of n v] by simp
  obtain b1 where b1: "val n (32 # json_text v @ members_tail d r) b = Inr (members_tail d r, b1)"
      "bob_extended b (enc_elem n v) b1"
    using parsesD [OF p t(2) room, of t] unfolding t(1) by blast
  have "length (bob_contents b1) + length (enc_elems d) \<le> BufferMaxSize"
    using assms(2) l b1(2) by (simp add: bob_extended_def)
  then obtain b2 where b2: "members_loop val (Suc (length (members_tail d r))) (members_tail d r) b1 = Inr (32 # 125 # r, b2)"
      "bob_extended b1 (enc_elems d) b2"
    using members_loop_tail [of d val "Suc (length (members_tail d r))" b1 r] assms(1) length_members_tail [of d r] by auto
  have "jmembers val n (sp_colon @ json_text v @ members_tail d r) b = Inr (32 # 125 # r, b2)"
    using b1(1) b2(1) by (simp add: jmembers_def del: bs_simps members_loop.simps)
  moreover have "bob_extended b (enc_elems ((n, v) # d)) b2"
    using bob_sink.ext_trans [OF b1(2) b2(2)] by (simp add: enc_elems_Cons del: enc_elems.simps)
  ultimately show ?thesis by blast
qed

definition reserved :: "byte list list" where
  "reserved = map bs [''$oid'', ''$binary'', ''$date'', ''$timestamp'', ''$regex'', ''$ref'', ''$undefined'']"

lemma objectBody_normal:
  "n \<notin> set reserved \<Longrightarrow> objectBody val subObject n name s b = normalObject val subObject n name s b"
  by (simp add: objectBody_def reserved_def del: bs_simps)

text \<open>The object after its opening brace, at the first member.\<close>

lemma jobject_members:
  assumes "n \<notin> set reserved"
  shows "jobject val subObject name (bs ''{ '' @ join comma_sp (json_members ((n, v) # d)) @ bs '' }'' @ r) b =
    rbind (normalObject val subObject n name (sp_colon @ json_text v @ members_tail d r) b)
      (\<lambda>(s, b). expect (bs ''}'') ''Expecting } or ,'' s (\<lambda>s. Inr (s, b)))"
proof -
  let ?m = "quoted (escape False n) @ sp_colon @ json_text v @ members_tail d r"
  have t: "bs ''{ '' @ join comma_sp (json_members ((n, v) # d)) @ bs '' }'' @ r = 123 # 32 # ?m"
    using join_members_tail [of n v d r] by simp
  have "accept (bs ''{'') (123 # 32 # ?m) = Some (32 # ?m)" "accept (bs ''}'') (32 # ?m) = None"
    by (simp_all add: accept_Cons quoted_def)
  then show ?thesis
    unfolding t jobject_def by (simp add: expect_def objectBody_normal [OF assms] del: bs_simps)
qed

lemma parses_object:
  assumes "d \<noteq> []" "fst (hd d) \<notin> set reserved" "\<And>n v. (n, v) \<in> set d \<Longrightarrow> parses val (json_text v) v"
  shows "parses (value_with val) (json_text (VObject d)) (VObject d)"
  unfolding parses_def
proof (intro allI impI)
  fix n c r b
  assume "delimiter c" and room: "length (bob_contents b) + length (enc_elem n (VObject d)) \<le> BufferMaxSize"
  obtain m v d' where d: "d = (m, v) # d'" using assms(1) by (cases d) auto
  obtain b1 sub where h: "bob_header b Object n = Inr b1" "bob_sub (bob_b b1) = Inr sub"
    "length (bob_contents sub) + length (enc_elems d) + 1 \<le> BufferMaxSize"
    "\<And>sub1. bob_extended sub (enc_elems d) sub1 \<Longrightarrow>
       \<exists>sub2. bob_done sub1 = Inr sub2 \<and> bob_bytes sub2 = encode d \<and>
         bob_extended b (enc_elem n (VObject d)) (bob_return b1 sub2)"
    by (rule nested_builder [OF room, of d]) (simp_all add: encode_def)
  obtain sub1 where s1: "jmembers val m (sp_colon @ json_text v @ members_tail d' (c # r)) sub = Inr (32 # 125 # c # r, sub1)"
      "bob_extended sub (enc_elems d) sub1"
    using jmembers_tail [of m v d' val sub "c # r"] assms(3) h(3) unfolding d by auto
  obtain sub2 where s2: "bob_done sub1 = Inr sub2" "bob_extended b (enc_elem n (VObject d)) (bob_return b1 sub2)"
    using h(4) [OF s1(2)] by blast
  have "normalObject val True m n (sp_colon @ json_text v @ members_tail d' (c # r)) b =
      Inr (32 # 125 # c # r, bob_return b1 sub2)"
    using h(1,2) s1(1) s2(1) by (simp add: normalObject_def subobjStart_def)
  then have "jobject val True n (json_text (VObject d) @ c # r) b = Inr (c # r, bob_return b1 sub2)"
    using assms(2) jobject_members [of m val True n v d' "c # r" b] expect_braces(2) [of _ "c # r"]
    by (simp add: d del: bs_simps json_members.simps) simp
  moreover have "jobject val True n (32 # s) b = jobject val True n s b" for s
    by (simp add: jobject_def expect_def)
  moreover have "value_with val n (32 # json_text (VObject d) @ c # r) b =
      jobject val True n (32 # json_text (VObject d) @ c # r) b"
    using assms(1) by (simp add: value_with_def accept_Cons)
  ultimately show "\<exists>b'. value_with val n (32 # json_text (VObject d) @ c # r) b = Inr (c # r, b') \<and>
      bob_extended b (enc_elem n (VObject d)) b'"
    using s2(2) by auto
qed

lemma parses_empty_object: "parses (value_with val) (json_text (VObject [])) (VObject [])"
  unfolding parses_def
proof (intro allI impI)
  fix n c r b
  assume "delimiter c" and room: "length (bob_contents b) + length (enc_elem n (VObject [])) \<le> BufferMaxSize"
  obtain b1 sub where h: "bob_header b Object n = Inr b1" "bob_sub (bob_b b1) = Inr sub"
    "\<And>sub1. bob_extended sub (enc_elems []) sub1 \<Longrightarrow>
       \<exists>sub2. bob_done sub1 = Inr sub2 \<and> bob_bytes sub2 = encode [] \<and>
         bob_extended b (enc_elem n (VObject [])) (bob_return b1 sub2)"
    by (rule nested_builder [OF room, of "[]"]) (simp_all add: encode_def)
  obtain sub2 where s2: "bob_done sub = Inr sub2" "bob_bytes sub2 = encode []"
      "bob_extended b (enc_elem n (VObject [])) (bob_return b1 sub2)"
    using h(3) [of sub] bob_sink.ext_refl [of sub] by auto
  have "value_with val n (32 # json_text (VObject []) @ c # r) b = Inr (c # r, bob_return b1 sub2)"
    using h(1,2) done_obj_bytes [OF s2(1,2)]
    by (simp add: value_with_def jobject_def expect_def accept_Cons emptyObject_def subobjStart_def)
  with s2(3) show "\<exists>b'. value_with val n (32 # json_text (VObject []) @ c # r) b = Inr (c # r, b') \<and>
      bob_extended b (enc_elem n (VObject [])) b'" by blast
qed

section \<open>Arrays\<close>

definition items_tail :: "bval list \<Rightarrow> byte list \<Rightarrow> byte list" where
  "items_tail vs r = concat (map (\<lambda>v. comma_sp @ json_text v) vs) @ 32 # 93 # r"

lemma items_tail_simps [simp]:
  "items_tail [] r = 32 # 93 # r"
  "items_tail (v # vs) r = comma_sp @ json_text v @ items_tail vs r"
  by (simp_all add: items_tail_def)

lemma items_tail_hd: obtains c t where "items_tail vs r = c # t" "delimiter c"
  by (cases vs) (auto simp: comma_sp_def delimiter_def)

lemma join_items_tail:
  "join comma_sp (map json_text (v # vs)) @ 32 # 93 # r = json_text v @ items_tail vs r"
  by (induction vs arbitrary: v) auto

lemma length_items_tail: "length vs < length (items_tail vs r)"
  by (induction vs) (auto simp: comma_sp_def)

lemma array_loop_tail:
  assumes "\<And>w. w \<in> set (v # vs) \<Longrightarrow> parses val (json_text w) w" "length vs < k"
    and "length (bob_contents b) + length (enc_elems (indexed i (v # vs))) \<le> BufferMaxSize"
    and "i + length vs < 2 ^ 31"
  shows "\<exists>b'. array_loop val k (of_nat i) (32 # json_text v @ items_tail vs r) b = Inr (32 # 93 # r, b') \<and>
    bob_extended b (enc_elems (indexed i (v # vs))) b'"
  using assms
proof (induction vs arbitrary: v i k b)
  case Nil
  then obtain k' where k: "k = Suc k'" by (cases k) auto
  have i: "sint (of_nat i :: 32 word) = int i"
    using sint_int32 [of i] Nil.prems(4) by (simp add: int32_def)
  have p: "parses val (json_text v) v" and dl: "delimiter 32" using Nil.prems(1) by (simp_all add: delimiter_def)
  have room: "length (bob_contents b) + length (enc_elem (numStr (int i)) v) \<le> BufferMaxSize"
    using Nil.prems(3) by (simp add: length_enc_elem)
  obtain b' where "val (numStr (int i)) (32 # json_text v @ 32 # 93 # r) b = Inr (32 # 93 # r, b')"
      "bob_extended b (enc_elem (numStr (int i)) v) b'"
    using parsesD [OF p dl room, of "93 # r"] by blast
  then show ?case
    by (simp add: k i accept_Cons) (simp add: enc_elem_def)
next
  case (Cons w vs)
  obtain k' where k: "k = Suc k'" using Cons.prems(2) by (cases k) auto
  have i: "sint (of_nat i :: 32 word) = int i"
    using sint_int32 [of i] Cons.prems(4) by (simp add: int32_def)
  let ?t = "items_tail (w # vs) r"
  obtain c t where t: "?t = c # t" "delimiter c" by (rule items_tail_hd)
  have p: "parses val (json_text v) v" using Cons.prems(1) by simp
  have l: "length (enc_elems (indexed i (v # w # vs))) =
      length (enc_elem (numStr (int i)) v) + length (enc_elems (indexed (Suc i) (w # vs)))"
    by (simp add: length_enc_elem)
  have room: "length (bob_contents b) + length (enc_elem (numStr (int i)) v) \<le> BufferMaxSize"
    using Cons.prems(3) l by simp
  obtain b1 where b1: "val (numStr (int i)) (32 # json_text v @ ?t) b = Inr (?t, b1)"
      "bob_extended b (enc_elem (numStr (int i)) v) b1"
    using parsesD [OF p t(2) room, of t] unfolding t(1) by blast
  have "length (bob_contents b1) + length (enc_elems (indexed (Suc i) (w # vs))) \<le> BufferMaxSize"
    using Cons.prems(3) l b1(2) by (simp add: bob_extended_def)
  then obtain b2 where b2: "array_loop val k' (of_nat (Suc i)) (32 # json_text w @ items_tail vs r) b1 = Inr (32 # 93 # r, b2)"
      "bob_extended b1 (enc_elems (indexed (Suc i) (w # vs))) b2"
    using Cons.IH [of w k' b1 "Suc i"] Cons.prems k by auto
  have "accept (bs '','') ?t = Some (32 # json_text w @ items_tail vs r)"
    by (simp add: comma_sp_def accept_Cons)
  then have "array_loop val k (of_nat i) (32 # json_text v @ ?t) b = Inr (32 # 93 # r, b2)"
    using b1(1) b2(1) by (simp add: k i add.commute del: bs_simps items_tail_simps)
  moreover have "bob_extended b (enc_elems (indexed i (v # w # vs))) b2"
    using bob_sink.ext_trans [OF b1(2) b2(2)]
    by (simp only: indexed_Cons enc_elems_Cons)
  ultimately show ?case by blast
qed

lemma parses_array:
  assumes "positions_ok d" "wf_doc d" "\<And>n v. (n, v) \<in> set d \<Longrightarrow> parses val (json_text v) v"
    and "\<And>n v. (n, v) \<in> set d \<Longrightarrow> \<exists>c t. json_text v = c # t \<and> \<not> isspace c \<and> c \<noteq> 93"
  shows "parses (value_with val) (json_text (VArray d)) (VArray d)"
  unfolding parses_def
proof (intro allI impI)
  fix n c r b
  assume "delimiter c" and room: "length (bob_contents b) + length (enc_elem n (VArray d)) \<le> BufferMaxSize"
  obtain b1 sub where h: "bob_header b Array n = Inr b1" "bob_sub (bob_b b1) = Inr sub"
    "length (bob_contents sub) + length (enc_elems d) + 1 \<le> BufferMaxSize"
    "\<And>sub1. bob_extended sub (enc_elems d) sub1 \<Longrightarrow>
       \<exists>sub2. bob_done sub1 = Inr sub2 \<and> bob_bytes sub2 = encode d \<and>
         bob_extended b (enc_elem n (VArray d)) (bob_return b1 sub2)"
    by (rule nested_builder [OF room, of d]) (simp_all add: encode_def)
  have v: "value_with val n (32 # json_text (VArray d) @ c # r) b = jarray val n (32 # json_text (VArray d) @ c # r) b"
    by (simp add: value_with_def accept_Cons)
  show "\<exists>b'. value_with val n (32 # json_text (VArray d) @ c # r) b = Inr (c # r, b') \<and>
      bob_extended b (enc_elem n (VArray d)) b'"
  proof (cases "map snd d")
    case Nil
    then have d: "d = []" by simp
    obtain sub2 where s2: "bob_done sub = Inr sub2" "bob_bytes sub2 = encode d"
        "bob_extended b (enc_elem n (VArray d)) (bob_return b1 sub2)"
      using h(4) [of sub] bob_sink.ext_refl [of sub] d by auto
    have "jarray val n (32 # json_text (VArray d) @ c # r) b = Inr (c # r, bob_return b1 sub2)"
      using h(1,2) done_obj_bytes [OF s2(1,2) assms(2)] d
      by (simp add: jarray_def expect_def accept_Cons subarrayStart_def)
    with s2(3) v show ?thesis by auto
  next
    case (Cons w ws)
    have d: "d = indexed 0 (w # ws)" using assms(1) Cons by (simp add: positions_ok_def)
    have in_d: "\<exists>n. (n, x) \<in> set d" if "x \<in> set (w # ws)" for x
      using that Cons by (metis (no_types, lifting) imageE list.set_map prod.collapse)
    have "length ws < 2 ^ 31"
      using wf_docD(3) [OF assms(2)] length_enc_elems [of d] Cons length_map [of snd d]
      by (simp add: length_encode)
    moreover have "parses val (json_text x) x" if "x \<in> set (w # ws)" for x
      using in_d [OF that] assms(3) by blast
    moreover have "length ws < Suc (length (32 # json_text w @ items_tail ws (c # r)))"
      using length_items_tail [of ws "c # r"] by simp
    moreover have "length (bob_contents sub) + length (enc_elems (indexed 0 (w # ws))) \<le> BufferMaxSize"
      using h(3) unfolding d by simp
    ultimately have "\<exists>sub1. array_loop val (Suc (length (32 # json_text w @ items_tail ws (c # r)))) (of_nat 0)
          (32 # json_text w @ items_tail ws (c # r)) sub = Inr (32 # 93 # c # r, sub1) \<and>
        bob_extended sub (enc_elems (indexed 0 (w # ws))) sub1"
      by (intro array_loop_tail) simp_all
    then obtain sub1 where s1: "array_loop val (Suc (length (32 # json_text w @ items_tail ws (c # r)))) 0
          (32 # json_text w @ items_tail ws (c # r)) sub = Inr (32 # 93 # c # r, sub1)"
        "bob_extended sub (enc_elems d) sub1"
      by (auto simp only: d semiring_1_class.of_nat_0)
    obtain sub2 where s2: "bob_done sub1 = Inr sub2" "bob_bytes sub2 = encode d"
        "bob_extended b (enc_elem n (VArray d)) (bob_return b1 sub2)"
      using h(4) [OF s1(2)] by blast
    obtain x t where x: "json_text w = x # t" "\<not> isspace x" "x \<noteq> 93"
      using assms(4) in_d [of w] by (metis list.set_intros(1))
    let ?s = "32 # json_text w @ items_tail ws (c # r)"
    have "json_items d = map json_text (map snd d)"
      by (simp add: json_items_map case_prod_beta')
    then have items: "json_items d = map json_text (w # ws)"
      by (simp only: Cons)
    have text_eq: "32 # json_text (VArray d) @ c # r = 32 # 91 # ?s"
      using join_items_tail [of w ws "c # r"] Cons by (auto simp: items simp del: list.map)
    have "accept (bs ''['') (32 # 91 # ?s) = Some ?s" "accept (bs '']'') ?s = None"
      "accept (bs '']'') (32 # 93 # c # r) = Some (c # r)"
      using x by (simp_all add: accept_Cons)
    then have "jarray val n (32 # json_text (VArray d) @ c # r) b = Inr (c # r, bob_return b1 sub2)"
      unfolding text_eq using h(1,2) s1(1) done_obj_bytes [OF s2(1,2) assms(2)]
      by (simp add: jarray_def expect_def subarrayStart_def del: bs_simps array_loop.simps)
    with s2(3) v show ?thesis by auto
  qed
qed

section \<open>Round trip\<close>

text \<open>
  The documents strict JSON expresses exactly: a long integer must not fit an int, a double must be a
  NaN or an infinity, a Boolean is one or zero, the options of a regular expression are those the reader
  knows, the elements of an array are named by their positions, and the first field of an object is
  not one of the reserved names.
\<close>

definition first_ok :: "bdoc \<Rightarrow> bool" where
  "first_ok d \<longleftrightarrow> d = [] \<or> fst (hd d) \<notin> set reserved"

fun json_ok :: "bval \<Rightarrow> bool"
and json_oks :: "(byte list \<times> bval) list \<Rightarrow> bool" where
  "json_ok (VDouble w) = (w = quiet_NaN \<or> w = infinity \<or> w = neg_infinity)"
| "json_ok (VString s) = True"
| "json_ok (VObject d) = (first_ok d \<and> json_oks d)"
| "json_ok (VArray d) = (positions_ok d \<and> json_oks d)"
| "json_ok (VBinData t b) = True"
| "json_ok VUndefined = True"
| "json_ok (VOID x) = True"
| "json_ok (VBool b) = (b = 0 \<or> b = 1)"
| "json_ok (VDate w) = True"
| "json_ok VNull = True"
| "json_ok (VRegEx p f) = (set f \<subseteq> set joptions)"
| "json_ok (VDBRef n x) = False"
| "json_ok (VCode c) = False"
| "json_ok (VSymbol s) = False"
| "json_ok (VCodeWScope c d) = False"
| "json_ok (VInt n) = True"
| "json_ok (VTimestamp w) = True"
| "json_ok (VLong n) = (\<not> (- (2 ^ 31) \<le> sint n \<and> sint n < 2 ^ 31))"
| "json_ok VMinKey = False"
| "json_ok VMaxKey = False"
| "json_oks [] = True"
| "json_oks ((n, v) # d) = (json_ok v \<and> json_oks d)"

lemma json_oks_iff: "json_oks d \<longleftrightarrow> (\<forall>(n, v) \<in> set d. json_ok v)"
  by (induction d) auto

lemma json_ok_printable:
  "json_ok v \<Longrightarrow> printable v"
  "json_oks d \<Longrightarrow> printables d"
  by (induction v and d rule: json_ok_json_oks.induct) auto

lemma double_texts:
  "double_text quiet_NaN = bs ''NaN''" "double_text infinity = bs ''Infinity''"
  "double_text neg_infinity = bs ''-Infinity''"
  by (simp_all add: double_text_def quiet_NaN_def infinity_def neg_infinity_def d_nan_def d_finite_def d_exp_def
      d_frac_def d_mag_def d_neg_def)

lemma dec_int_first: "\<exists>c. (\<exists>t. dec_int n = c # t) \<and> \<not> isspace c \<and> c \<noteq> 93"
proof (cases "n < 0")
  case False
  obtain d t where d: "dec_nat (nat n) = d # t" "isdigit d" by (rule dec_nat_hd)
  with False show ?thesis
    by (auto simp: dec_int_def digit_not_sign_space isdigit_def)
qed (simp add: dec_int_def)

lemma text_hd: "json_ok v \<Longrightarrow> \<exists>c t. json_text v = c # t \<and> \<not> isspace c \<and> c \<noteq> 93"
  by (cases v) (auto simp: double_texts quoted_def special_def dec_int_first)

lemma length_join: "x \<in> set xs \<Longrightarrow> length x \<le> length (join sep xs)"
  by (induction sep xs rule: join.induct) auto

lemma jvalue_Suc: "jvalue (Suc N) = value_with (jvalue N)"
  by (intro ext) simp

lemma jvalue_parses:
  assumes "json_ok v" "wf_value v" "length (enc_value v) \<le> BSONObjMaxInternalSize" "length (json_text v) \<le> N"
  shows "parses (jvalue N) (json_text v) v"
  using assms
proof (induction N arbitrary: v)
  case 0
  then show ?case using text_hd [of v] by auto
next
  case (Suc N)
  have sub: "parses (jvalue N) (json_text w) w"
    if "json_oks d" "wf_doc d" "(n, w) \<in> set d" "length (json_text w) \<le> N" for n w d
    using that Suc.IH [of w] enc_value_bound [OF that(2,3)] by (auto simp: json_oks_iff)
  note wf = sub_wf_doc [OF Suc.prems(2,3)]
  show ?case
  proof (cases v)
    case (VObject d)
    have "length (json_text w) \<le> N" if "(n, w) \<in> set d" for n w
    proof -
      have "quoted (escape False n) @ sp_colon @ json_text w \<in> set (json_members d)"
        using that by (force simp: json_members_map)
      from length_join [OF this, of comma_sp] that show ?thesis
        using Suc.prems(4) VObject by (auto split: if_splits)
    qed
    then show ?thesis
      using VObject Suc.prems(1) wf sub [of d] parses_empty_object parses_object [of d "jvalue N"]
      by (cases "d = []") (auto simp: jvalue_Suc first_ok_def)
  next
    case (VArray d)
    have "length (json_text w) \<le> N" if "(n, w) \<in> set d" for n w
    proof -
      have "json_text w \<in> set (json_items d)"
        using that by (force simp: json_items_map)
      from length_join [OF this, of comma_sp] that show ?thesis
        using Suc.prems(4) VArray by (auto split: if_splits)
    qed
    moreover have "\<exists>c t. json_text w = c # t \<and> \<not> isspace c \<and> c \<noteq> 93" if "(n, w) \<in> set d" for n w
      using that VArray Suc.prems(1) by (intro text_hd) (auto simp: json_oks_iff)
    ultimately show ?thesis
      unfolding VArray jvalue_Suc
      using VArray Suc.prems(1) wf sub [of d] by (intro parses_array) auto
  next
    case (VBinData t x)
    have "small x" using VBinData Suc.prems(3)
      by (simp add: small_def BSONObjMaxInternalSize_def BSONObjMaxUserSize_def)
    then show ?thesis unfolding VBinData jvalue_Suc by (rule parses_binData)
  qed (use Suc.prems in \<open>auto simp: jvalue_Suc parses_words parses_string parses_int parses_long parses_oid
      parses_undefined double_texts parses_date [unfolded json_text.simps]
      parses_timestamp [unfolded json_text.simps] parses_regex [unfolded json_text.simps] simp del: bs_simps\<close>)
qed

lemma jobject_json_doc:
  assumes "first_ok d" "\<And>m w. (m, w) \<in> set d \<Longrightarrow> parses val (json_text w) w"
    and "length (enc_elems d) + 8 \<le> BufferMaxSize" "builds b []"
  shows "\<exists>b'. jobject val False name (json_doc d) b = Inr ([], b') \<and> builds b' d"
proof (cases d)
  case Nil
  then show ?thesis
    using assms(4) by (simp add: json_doc_def jobject_def expect_def accept_Cons emptyObject_def)
next
  case (Cons a d')
  obtain n v where a: "a = (n, v)" by (cases a) auto
  have room: "length (bob_contents b) + length (enc_elems d) \<le> BufferMaxSize"
    using rep_length [of b "[]"] assms(3,4) by (simp add: builds_def)
  obtain b' where b': "jmembers val n (sp_colon @ json_text v @ members_tail d' []) b = Inr ([32, 125], b')"
      "bob_extended b (enc_elems d) b'"
    using jmembers_tail [of n v d' val b "[]"] assms(2) room unfolding Cons a by auto
  have "n \<notin> set reserved" using assms(1) by (simp add: first_ok_def Cons a)
  from jobject_members [OF this, of val False name v d' "[]" b]
  have "jobject val False name (json_doc d) b = Inr ([], b')"
    using b'(1) by (simp add: json_doc_def Cons a normalObject_def expect_def accept_Cons del: json_members.simps)
  then show ?thesis using builds_extended [OF assms(4) b'(2)] by simp
qed

lemma text_of_member: "(m, w) \<in> set d \<Longrightarrow> length (json_text w) \<le> length (json_doc d)"
proof -
  assume m: "(m, w) \<in> set d"
  then have "quoted (escape False m) @ sp_colon @ json_text w \<in> set (json_members d)"
    by (force simp: json_members_map)
  from length_join [OF this, of comma_sp] m show ?thesis by (auto simp: json_doc_def)
qed

lemma fromjson_json_doc:
  assumes "wf_doc d" "json_ok (VObject d)"
  shows "fromjson (json_doc d) = Inr (encode d)"
proof -
  obtain b where b: "bob_new 512 = Inr b" "builds b []"
    using bob_new_builds by blast
  have p: "parses (jvalue (length (json_doc d))) (json_text w) w" if "(m, w) \<in> set d" for m w
    using assms(2) that enc_value_bound [OF assms(1) that] text_of_member [OF that]
    by (intro jvalue_parses) (auto simp: json_oks_iff)
  have room: "length (enc_elems d) + 8 \<le> BufferMaxSize"
    using wf_docD(3) [OF assms(1)] by (simp add: BufferMaxSize_def length_encode)
  obtain b' where b': "jobject (jvalue (length (json_doc d))) False (bs ''UNUSED'') (json_doc d) b = Inr ([], b')"
      "builds b' d"
    using jobject_json_doc [of d "jvalue (length (json_doc d))" b "bs ''UNUSED''"] p room b(2) assms(2)
    by (auto simp del: bs_simps)
  have "json_doc d \<noteq> []" by (simp add: json_doc_def)
  then show ?thesis
    using b b'(1) obj_builds [OF b'(2) assms(1)] by (simp add: fromjson_def fromjson_len_def)
qed

text \<open>
  C14: Reading inverts printing.  For every well-formed document whose values strict JSON expresses
  exactly (any nesting of objects and arrays, strings of any bytes, integers, dates, timestamps,
  identifiers, binary data, regular expressions), \<open>jsonString\<close> returns a text and \<open>fromjson\<close> of that
  text returns the bytes of the document.
\<close>

theorem json_roundtrip:
  assumes "wf_doc d" "json_ok (VObject d)"
  shows "\<exists>t. jsonString ctime Strict 0 (encode d @ r) = Inr t \<and> fromjson t = Inr (encode d)"
proof -
  have "printables d" using json_ok_printable(1) [OF assms(2)] by simp
  from jsonString_encode [OF assms(1) this] fromjson_json_doc [OF assms] show ?thesis by blast
qed

theorem json_roundtrip_witness:
  "\<exists>t. jsonString (\<lambda>_. []) Strict 0
      (encode [(bs ''a'', VString [34, 92, 0, 200]), (bs ''b'', VArray [(bs ''0'', VLong (-5000000000)), (bs ''1'', VObject [])]),
        (bs ''c'', VTimestamp 7)] @ [1, 2]) = Inr t \<and>
    fromjson t = Inr (encode [(bs ''a'', VString [34, 92, 0, 200]),
        (bs ''b'', VArray [(bs ''0'', VLong (-5000000000)), (bs ''1'', VObject [])]), (bs ''c'', VTimestamp 7)])"
  by (rule json_roundtrip)
     (simp_all add: wf_doc_iff first_ok_def reserved_def positions_ok_def numStr_def dec_int_def dec_nat.simps digit_byte_def)

end
