(* ===== verification/Validate.thy ===== *)
theory Validate
  imports ObjRefine
begin

text \<open>
  \<open>validateBSON\<close> (\<open>bson/bson_validate.cpp\<close>): the buffer with its read position, the frames of the
  objects that are open, and the state machine over them.  The position is a \<open>uint64_t\<close>, so a
  negative size read from the data moves it backwards; the loop is a partial function, \<open>None\<close> when
  it does not end.
\<close>

section \<open>The buffer\<close>

record vbuf =
  vb_mem :: mem
  vb_pos :: nat
  vb_max :: nat

definition invalid :: "string \<Rightarrow> 'a res" where
  "invalid msg = Inl (BadStatus msg)"

text \<open>\<open>readNumber\<close>: the bytes of a number of \<open>k\<close> bytes, \<open>None\<close> for the result \<open>false\<close>.\<close>

definition vb_read :: "nat \<Rightarrow> vbuf \<Rightarrow> (byte list \<times> vbuf) option res" where
  "vb_read k b =
     (if (vb_pos b + k) mod 2 ^ 64 > vb_max b then Inr None
      else rbind (ptr_add (vb_mem b) (vb_pos b)) (\<lambda>p. rmap (\<lambda>cs.
        Some (cs, b\<lparr>vb_pos := (vb_pos b + k) mod 2 ^ 64\<rparr>)) (read_bytes p k)))"

definition readNumber_char :: "string \<Rightarrow> vbuf \<Rightarrow> (byte \<times> vbuf) res" where
  "readNumber_char msg b =
     rbind (vb_read 1 b) (\<lambda>r. case r of None \<Rightarrow> invalid msg | Some (cs, b') \<Rightarrow> Inr (hd cs, b'))"

definition readNumber_int :: "string \<Rightarrow> vbuf \<Rightarrow> ((32 word) \<times> vbuf) res" where
  "readNumber_int msg b =
     rbind (vb_read 4 b) (\<lambda>r. case r of
        None \<Rightarrow> invalid msg
      | Some (cs, b') \<Rightarrow> rmap (\<lambda>n. (n, b')) (get32 cs))"

text \<open>\<open>readCString\<close>: \<open>memchr\<close> over what is left of the buffer.\<close>

definition readCString :: "vbuf \<Rightarrow> vbuf res" where
  "readCString b =
     rbind (ptr_add (vb_mem b) (vb_pos b)) (\<lambda>p. rbind (strnlen p (vb_max b - vb_pos b)) (\<lambda>r.
       case r of
         None \<Rightarrow> invalid ''no end of c-string''
       | Some len \<Rightarrow> Inr (b\<lparr>vb_pos := (vb_pos b + (len + 1)) mod 2 ^ 64\<rparr>)))"

text \<open>\<open>skip\<close>: the argument is converted to \<open>uint64_t\<close>.\<close>

definition vb_skip :: "int \<Rightarrow> vbuf \<Rightarrow> bool \<times> vbuf" where
  "vb_skip sz b =
     (let p = nat ((int (vb_pos b) + sz) mod 2 ^ 64) in (p < vb_max b, b\<lparr>vb_pos := p\<rparr>))"

definition vb_skip_or :: "int \<Rightarrow> vbuf \<Rightarrow> vbuf res" where
  "vb_skip_or sz b =
     (let (ok, b') = vb_skip sz b in if ok then Inr b' else invalid ''invalid bson'')"

definition readUTF8String :: "vbuf \<Rightarrow> vbuf res" where
  "readUTF8String b =
     rbind (readNumber_int ''invalid bson'' b) (\<lambda>(sz, b).
       rbind (vb_skip_or (sint (sz - 1)) b) (\<lambda>b.
         rbind (readNumber_char ''invalid bson'' b) (\<lambda>(c, b).
           if c \<noteq> 0 then invalid ''not null terminate string'' else Inr b)))"

section \<open>The state machine\<close>

datatype vstate = BeginObj | WithinObj | EndObj | BeginCodeWScope | EndCodeWScope | Done

text \<open>A frame keeps the start position in 31 bits and a flag in the highest bit.\<close>

record vframe =
  vf_expected :: "32 word"
  vf_start :: "32 word"

definition vf_flag :: "32 word" where
  "vf_flag = push_bit 31 1"

definition startPosition :: "vframe \<Rightarrow> 32 word" where
  "startPosition f = and (vf_start f) (not vf_flag)"

definition isCodeWithScope :: "vframe \<Rightarrow> bool" where
  "isCodeWithScope f = (and (vf_start f) vf_flag \<noteq> 0)"

definition setStartPosition :: "32 word \<Rightarrow> vframe \<Rightarrow> vframe" where
  "setStartPosition pos f =
     f\<lparr>vf_start := or (and (vf_start f) vf_flag) (and pos (not vf_flag))\<rparr>"

definition setIsCodeWithScope :: "bool \<Rightarrow> vframe \<Rightarrow> vframe" where
  "setIsCodeWithScope c f =
     f\<lparr>vf_start := (if c then or (vf_start f) vf_flag else and (vf_start f) (not vf_flag))\<rparr>"

definition new_frame :: "bool \<Rightarrow> vbuf \<Rightarrow> vframe" where
  "new_frame c b =
     setIsCodeWithScope c (setStartPosition (of_nat (vb_pos b)) \<lparr>vf_expected = 0, vf_start = 0\<rparr>)"

text \<open>The switch of \<open>validateElementInfo\<close> on the type, after the field name.\<close>

definition validateValueInfo :: "BSONType \<Rightarrow> vbuf \<Rightarrow> vstate \<Rightarrow> (vbuf \<times> vstate) res" where
  "validateValueInfo t b st =
     (let stay = (\<lambda>b. (b, st)) in
      case t of
        MinKey \<Rightarrow> Inr (stay b)
      | MaxKey \<Rightarrow> Inr (stay b)
      | jstNULL \<Rightarrow> Inr (stay b)
      | Undefined \<Rightarrow> Inr (stay b)
      | jstOID \<Rightarrow> rmap stay (vb_skip_or 12 b)
      | NumberInt \<Rightarrow> rmap stay (vb_skip_or 4 b)
      | Bool \<Rightarrow> rmap stay (vb_skip_or 1 b)
      | NumberDouble \<Rightarrow> rmap stay (vb_skip_or 8 b)
      | NumberLong \<Rightarrow> rmap stay (vb_skip_or 8 b)
      | Timestamp \<Rightarrow> rmap stay (vb_skip_or 8 b)
      | Date \<Rightarrow> rmap stay (vb_skip_or 8 b)
      | DBRef \<Rightarrow> rmap (\<lambda>b. stay (snd (vb_skip 12 b))) (readUTF8String b)
      | RegEx \<Rightarrow> rbind (readCString b) (\<lambda>b. rmap stay (readCString b))
      | Code \<Rightarrow> rmap stay (readUTF8String b)
      | Symbol \<Rightarrow> rmap stay (readUTF8String b)
      | String \<Rightarrow> rmap stay (readUTF8String b)
      | BinData \<Rightarrow>
          rbind (readNumber_int ''invalid bson'' b) (\<lambda>(sz, b).
            rmap stay (vb_skip_or (sint (1 + sz)) b))
      | CodeWScope \<Rightarrow> Inr (b, BeginCodeWScope)
      | Object \<Rightarrow> Inr (b, BeginObj)
      | Array \<Rightarrow> Inr (b, BeginObj)
      | _ \<Rightarrow> invalid ''invalid bson type'')"

definition validateElementInfo :: "vbuf \<Rightarrow> vstate \<Rightarrow> (vbuf \<times> vstate) res" where
  "validateElementInfo b st =
     rbind (readNumber_char ''invalid bson'' b) (\<lambda>(c, b).
       let t = type_of_code (sint c) in
       if t = EOO then Inr (b, EndObj)
       else rbind (readCString b) (\<lambda>b. validateValueInfo t b st))"

text \<open>The state of \<open>validateBSONIterative\<close>; the last frame is the head of the list.\<close>

record vmachine =
  vm_buf :: vbuf
  vm_frames :: "vframe list"
  vm_state :: vstate

definition actualLength :: "vbuf \<Rightarrow> vframe \<Rightarrow> 32 word" where
  "actualLength b f = of_nat (vb_pos b) - startPosition f"

definition within_step :: "vmachine \<Rightarrow> vmachine res" where
  "within_step s =
     rmap (\<lambda>(b, st). s\<lparr>vm_buf := b, vm_state := st\<rparr>) (validateElementInfo (vm_buf s) WithinObj)"

definition validate_step :: "vmachine \<Rightarrow> vmachine res" where
  "validate_step s =
     (case vm_state s of
        BeginObj \<Rightarrow>
          rbind (readNumber_int ''bson size is larger than buffer size'' (vm_buf s)) (\<lambda>(n, b).
            within_step (s\<lparr>vm_buf := b,
              vm_frames := (new_frame False (vm_buf s))\<lparr>vf_expected := n\<rparr> # vm_frames s\<rparr>))
      | WithinObj \<Rightarrow> within_step s
      | EndObj \<Rightarrow>
          (case vm_frames s of
             [] \<Rightarrow> Inl BadRead
           | f # fs \<Rightarrow>
               if actualLength (vm_buf s) f \<noteq> vf_expected f
               then invalid ''bson length doesn't match what we found''
               else Inr (s\<lparr>vm_frames := fs, vm_state :=
                 (case fs of
                    [] \<Rightarrow> Done
                  | g # _ \<Rightarrow> if isCodeWithScope g then EndCodeWScope else WithinObj)\<rparr>))
      | BeginCodeWScope \<Rightarrow>
          rbind (readNumber_int ''invalid bson CodeWScope size'' (vm_buf s)) (\<lambda>(n, b).
            rmap (\<lambda>b. s\<lparr>vm_buf := b,
                vm_frames := (new_frame True (vm_buf s))\<lparr>vf_expected := n\<rparr> # vm_frames s,
                vm_state := BeginObj\<rparr>)
              (readUTF8String b))
      | EndCodeWScope \<Rightarrow>
          (case vm_frames s of
             [] \<Rightarrow> Inl BadRead
           | f # fs \<Rightarrow>
               if actualLength (vm_buf s) f \<noteq> vf_expected f
               then invalid ''bson length for CodeWScope doesn't match what we found''
               else if fs = [] then invalid ''unnested CodeWScope''
               else Inr (s\<lparr>vm_frames := fs, vm_state := WithinObj\<rparr>))
      | Done \<Rightarrow> Inr s)"

partial_function (option) validate_loop :: "vmachine \<Rightarrow> unit res option" where
  "validate_loop s =
     (if vm_state s = Done then Some (Inr ())
      else case validate_step s of Inl e \<Rightarrow> Some (Inl e) | Inr s' \<Rightarrow> validate_loop s')"

definition validateBSONIterative :: "vbuf \<Rightarrow> unit res option" where
  "validateBSONIterative b = validate_loop \<lparr>vm_buf = b, vm_frames = [], vm_state = BeginObj\<rparr>"

definition validateBSON :: "mem \<Rightarrow> nat \<Rightarrow> unit res option" where
  "validateBSON originalBuffer maxLength =
     (if maxLength < 5 then Some (invalid ''bson data has to be at least 5 bytes'')
      else validateBSONIterative \<lparr>vb_mem = originalBuffer, vb_pos = 0, vb_max = maxLength\<rparr>)"

text \<open>\<open>BSONObj::valid\<close> of \<open>db/jsobj.cpp\<close>.\<close>

definition obj_valid :: "mem \<Rightarrow> bool option res" where
  "obj_valid ob =
     rmap (\<lambda>n. map_option (\<lambda>r. \<not> isl r) (validateBSON ob (unat (scast n :: 64 word)))) (objsize ob)"

end
