(* ===== verification/ValidateRefine.thy ===== *)
theory ValidateRefine
  imports Validate
begin

text \<open>
  \<open>validateBSON\<close> accepts the encoding of every well-formed document, and there are inputs on which
  it does not return.
\<close>

section \<open>Reading from a position\<close>

definition vat :: "mem \<Rightarrow> nat \<Rightarrow> nat \<Rightarrow> vbuf" where
  "vat m k p = \<lparr>vb_mem = m, vb_pos = p, vb_max = k\<rparr>"

text \<open>What the lemmas assume of the buffer and of the bytes from position \<open>p\<close>.\<close>

definition vhas :: "mem \<Rightarrow> nat \<Rightarrow> nat \<Rightarrow> byte list \<Rightarrow> bool" where
  "vhas m k p xs = (k \<le> length m \<and> k < 2 ^ 31 \<and> p + length xs \<le> k \<and> take (length xs) (drop p m) = xs)"

lemma vhas_append:
  "vhas m k p (xs @ ys) \<longleftrightarrow> vhas m k p xs \<and> vhas m k (p + length xs) ys"
proof -
  have "take (length xs + length ys) (drop p m) =
      take (length xs) (drop p m) @ take (length ys) (drop (p + length xs) m)"
    by (simp add: take_add add.commute)
  then show ?thesis
    by (auto simp: vhas_def append_eq_append_conv)
qed

lemma vhas_Cons:
  "vhas m k p (x # ys) \<longleftrightarrow> vhas m k p [x] \<and> vhas m k (p + 1) ys"
  using vhas_append [of m k p "[x]" ys] by simp

lemma vb_read_vat:
  assumes "vhas m k p xs"
  shows "vb_read (length xs) (vat m k p) = Inr (Some (xs, vat m k (p + length xs)))"
  using assms by (auto simp: vb_read_def vat_def vhas_def ptr_add_def read_bytes_def)

lemma readNumber_char_vat:
  assumes "vhas m k p [c]"
  shows "readNumber_char msg (vat m k p) = Inr (c, vat m k (p + 1))"
  using vb_read_vat [OF assms] by (simp add: readNumber_char_def)

lemma readNumber_int_vat:
  assumes "vhas m k p (put32 w)"
  shows "readNumber_int msg (vat m k p) = Inr (w, vat m k (p + 4))"
  using vb_read_vat [OF assms] by (simp add: readNumber_int_def)

lemma readCString_vat:
  assumes "vhas m k p (s @ [0])" "nul_free s"
  shows "readCString (vat m k p) = Inr (vat m k (p + length s + 1))"
proof -
  have v: "k \<le> length m" "k < 2 ^ 31" "p + length s + 1 \<le> k"
    "take (length s + 1) (drop p m) = s @ [0]"
    using assms(1) by (simp_all add: vhas_def)
  obtain r where "drop p m = s @ 0 # r"
    using append_take_drop_id [of "length s + 1" "drop p m"] v(4) by (metis append.assoc append_Cons append_Nil)
  then show ?thesis
    using v assms(2) by (simp add: readCString_def vat_def ptr_add_def strnlen_nul)
qed

lemma vb_skip_vat:
  assumes "p + n < k" "k < 2 ^ 31"
  shows "vb_skip_or (int n) (vat m k p) = Inr (vat m k (p + n))"
    and "snd (vb_skip (int n) (vat m k p)) = vat m k (p + n)"
proof -
  have "nat ((int p + int n) mod 2 ^ 64) = p + n"
    using assms by (simp add: nat_eq_iff flip: of_nat_add)
  then show "vb_skip_or (int n) (vat m k p) = Inr (vat m k (p + n))"
    and "snd (vb_skip (int n) (vat m k p)) = vat m k (p + n)"
    using assms by (simp_all add: vb_skip_or_def vb_skip_def vat_def)
qed

lemma readUTF8String_vat:
  assumes "vhas m k p (enc_str s)"
  shows "readUTF8String (vat m k p) = Inr (vat m k (p + length (enc_str s)))"
proof -
  have v: "vhas m k p (put32 (int32 (length s + 1)))" "vhas m k (p + 4) s" "vhas m k (p + 4 + length s) [0]"
    using assms by (simp_all add: enc_str_def vhas_append)
  then have b: "p + 4 + length s < k" "k < 2 ^ 31"
    by (simp_all add: vhas_def)
  have "int32 (length s + 1) - 1 = int32 (length s)"
    by (simp add: int32_def)
  then have "sint (int32 (length s + 1) - 1) = int (length s)"
    using b by (simp add: sint_int32)
  then show ?thesis
    using readNumber_int_vat [OF v(1)] vb_skip_vat(1) [OF b] readNumber_char_vat [OF v(3)]
    by (simp add: readUTF8String_def ac_simps)
qed

section \<open>Frames\<close>

lemma bit_vf_flag: "bit vf_flag n \<longleftrightarrow> n = 31"
  unfolding vf_flag_def bit_push_bit_iff by (auto simp: bit_1_iff)

lemma flag_bits:
  assumes "p < 2 ^ 31"
  shows "and (of_nat p) (not vf_flag) = (of_nat p :: 32 word)" "and (of_nat p) vf_flag = (0 :: 32 word)"
proof -
  have u: "\<not> bit (of_nat p :: 32 word) n" if "31 \<le> n" for n
  proof -
    have "p < 2 ^ n"
      using assms that by (meson less_le_trans one_le_numeral power_increasing)
    then have "\<not> bit (unat (of_nat p :: 32 word)) n"
      using assms by (simp add: bit_iff_odd unat_of_nat)
    then show ?thesis
      by (simp add: bit_unsigned_iff)
  qed
  show "and (of_nat p) (not vf_flag) = (of_nat p :: 32 word)"
    by (rule bit_eqI) (use u in \<open>auto simp: bit_vf_flag bit_and_iff bit_not_iff\<close>)
  show "and (of_nat p) vf_flag = (0 :: 32 word)"
    by (rule bit_eqI) (use u in \<open>auto simp: bit_vf_flag bit_and_iff bit_not_iff\<close>)
qed

lemma new_frame_start:
  assumes "p < 2 ^ 31"
  shows "startPosition (new_frame c (vat m k p)) = of_nat p"
    and "isCodeWithScope (new_frame c (vat m k p)) = c"
proof -
  have f: "vf_start (new_frame c (vat m k p)) =
      (if c then or (of_nat p) vf_flag else of_nat p)"
    using flag_bits [OF assms] by (simp add: new_frame_def setIsCodeWithScope_def setStartPosition_def vat_def)
  have g: "and vf_flag (not vf_flag) = 0" "vf_flag \<noteq> 0"
    by (simp_all add: vf_flag_def)
  show "startPosition (new_frame c (vat m k p)) = of_nat p"
    using flag_bits [OF assms] g by (simp add: startPosition_def f bit.conj_disj_distrib2)
  show "isCodeWithScope (new_frame c (vat m k p)) = c"
    using flag_bits [OF assms] g by (simp add: isCodeWithScope_def f bit.conj_disj_distrib2)
qed


section \<open>Runs of the machine\<close>

definition vst :: "mem \<Rightarrow> nat \<Rightarrow> nat \<Rightarrow> vframe list \<Rightarrow> vstate \<Rightarrow> vmachine" where
  "vst m k p fs st = \<lparr>vm_buf = vat m k p, vm_frames = fs, vm_state = st\<rparr>"

lemma loop_step:
  "vm_state s \<noteq> Done \<Longrightarrow> validate_step s = Inr s' \<Longrightarrow> validate_loop s = validate_loop s'"
  by (subst validate_loop.simps) simp

lemma within_loop:
  assumes "validateElementInfo (vat m k p) WithinObj = Inr (vat m k q, st)"
  shows "validate_loop (vst m k p fs WithinObj) = validate_loop (vst m k q fs st)"
  by (rule loop_step) (simp_all add: vst_def validate_step_def within_step_def assms)

lemma vhas_header:
  assumes "vhas m k p (enc_elem n v)"
  shows "vhas m k p [type_byte (vtype v)]" "vhas m k (p + 1) (n @ [0])"
    "vhas m k (p + length n + 2) (enc_value v)"
  using assms vhas_append [of m k p "[type_byte (vtype v)]" "(n @ [0]) @ enc_value v"]
    vhas_append [of m k "p + 1" "n @ [0]" "enc_value v"]
  by (simp_all add: enc_elem_def add.commute add.left_commute)

lemma header_vat:
  assumes "vhas m k p (enc_elem n v)" "nul_free n"
  shows "validateElementInfo (vat m k p) st = validateValueInfo (vtype v) (vat m k (p + length n + 2)) st"
  using readNumber_char_vat [OF vhas_header(1) [OF assms(1)]]
    readCString_vat [OF vhas_header(2) [OF assms(1)] assms(2)]
  by (simp add: validateElementInfo_def)

text \<open>What follows the header of an element.\<close>

fun begin_state :: "bval \<Rightarrow> vstate" where
  "begin_state (VObject d) = BeginObj"
| "begin_state (VArray d) = BeginObj"
| "begin_state (VCodeWScope c d) = BeginCodeWScope"
| "begin_state _ = WithinObj"

lemma element_scalar:
  assumes "vhas m k p (enc_elem n v)" "nul_free n" "wf_value v" "p + length (enc_elem n v) < k"
    and "begin_state v = WithinObj"
  shows "validateElementInfo (vat m k p) WithinObj = Inr (vat m k (p + length (enc_elem n v)), WithinObj)"
proof -
  let ?q = "p + length n + 2"
  note h = header_vat [OF assms(1,2)]
  note defs = h validateValueInfo_def
  have v: "vhas m k ?q (enc_value v)"
    using assms(1) by (rule vhas_header(3))
  have b: "?q + length (enc_value v) < k" "k < 2 ^ 31"
    using assms(1,4) by (simp_all add: vhas_def length_enc_elem)
  have e: "p + length (enc_elem n v) = ?q + length (enc_value v)"
    by (simp add: length_enc_elem)
  have skip: "vb_skip_or j (vat m k ?q) = Inr (vat m k (?q + length (enc_value v)))"
    if "j = int (length (enc_value v))" for j
    using vb_skip_vat(1) [OF b] that by simp
  have str: "readUTF8String (vat m k ?q) = Inr (vat m k (?q + length (enc_value v)))"
    if "enc_value v = enc_str s" for s
    using readUTF8String_vat [of m k ?q s] v that by simp
  show ?thesis
  proof (cases v)
    case (VRegEx r f)
    have "vhas m k ?q (r @ [0])" "vhas m k (?q + length r + 1) (f @ [0])"
      using v vhas_append [of m k ?q "r @ [0]" "f @ [0]"] by (simp_all add: VRegEx)
    then have "readCString (vat m k ?q) = Inr (vat m k (?q + length r + 1))"
      "readCString (vat m k (?q + length r + 1)) = Inr (vat m k (?q + length (enc_value v)))"
      using readCString_vat [of m k ?q r] readCString_vat [of m k "?q + length r + 1" f] assms(3)
      by (simp_all add: VRegEx add.assoc)
    then show ?thesis
      unfolding e by (simp add: defs VRegEx)
  next
    case (VBinData t cs)
    let ?n = "int32 (length cs)"
    have "vhas m k ?q (put32 ?n)"
      using v by (simp add: VBinData vhas_append)
    then have r: "readNumber_int ''invalid bson'' (vat m k ?q) = Inr (?n, vat m k (?q + 4))"
      by (rule readNumber_int_vat)
    have "1 + ?n = int32 (1 + length cs)"
      by (simp add: int32_def)
    then have "sint (1 + ?n) = int (1 + length cs)"
      using b by (simp add: VBinData sint_int32 del: of_nat_add)
    moreover have "vb_skip_or (int (1 + length cs)) (vat m k (?q + 4)) = Inr (vat m k (?q + 4 + (1 + length cs)))"
      using b by (intro vb_skip_vat(1)) (auto simp: VBinData)
    moreover have "validateValueInfo BinData (vat m k ?q) WithinObj =
        rmap (\<lambda>b. (b, WithinObj)) (vb_skip_or (sint (1 + ?n)) (vat m k (?q + 4)))"
      using r by (simp add: validateValueInfo_def)
    ultimately have "validateValueInfo BinData (vat m k ?q) WithinObj =
        Inr (vat m k (?q + 4 + (1 + length cs)), WithinObj)"
      by (simp only: rmap_simps)
    moreover have "?q + 4 + (1 + length cs) = ?q + length (enc_value v)"
      by (simp add: VBinData)
    ultimately show ?thesis
      unfolding h e by (simp only: VBinData vtype.simps)
  next
    case (VDBRef ns x)
    have "vhas m k ?q (enc_str ns)"
      using v by (simp add: VDBRef vhas_append)
    then have "readUTF8String (vat m k ?q) = Inr (vat m k (?q + length (enc_str ns)))"
      by (rule readUTF8String_vat)
    moreover have "snd (vb_skip (int 12) (vat m k (?q + length (enc_str ns)))) =
        vat m k (?q + length (enc_str ns) + 12)"
      using b assms(3) by (intro vb_skip_vat(2)) (auto simp: VDBRef)
    ultimately show ?thesis
      using assms(3) unfolding e by (simp add: defs VDBRef add.commute add.left_commute)
  qed (use assms(3,5) skip str in \<open>simp_all add: defs length_enc_elem ac_simps\<close>)
qed

text \<open>Ending an object returns to the enclosing frame.\<close>

fun after_pop :: "vframe list \<Rightarrow> vstate" where
  "after_pop [] = Done"
| "after_pop (f # fs) = (if isCodeWithScope f then EndCodeWScope else WithinObj)"

definition runs_elems :: "mem \<Rightarrow> nat \<Rightarrow> bdoc \<Rightarrow> bool" where
  "runs_elems m k d =
     (\<forall>p g fs. vhas m k p (enc_elems d) \<longrightarrow> p + length (enc_elems d) < k \<longrightarrow> \<not> isCodeWithScope g \<longrightarrow>
        validate_loop (vst m k p (g # fs) WithinObj) =
        validate_loop (vst m k (p + length (enc_elems d)) (g # fs) WithinObj))"

lemma actualLength_new:
  assumes "p < 2 ^ 31"
  shows "actualLength (vat m k (p + n)) ((new_frame c (vat m k p))\<lparr>vf_expected := x\<rparr>) = int32 n"
proof -
  have "startPosition ((new_frame c (vat m k p))\<lparr>vf_expected := x\<rparr>) = of_nat p"
    using new_frame_start(1) [OF assms] by (simp add: startPosition_def)
  then show ?thesis
    by (simp add: actualLength_def vat_def int32_def)
qed

lemma run_object:
  assumes "runs_elems m k d" "vhas m k p (encode d)"
  shows "validate_loop (vst m k p fs BeginObj) = validate_loop (vst m k (p + length (encode d)) fs (after_pop fs))"
proof -
  let ?n = "int32 (length (enc_elems d) + 5)"
  let ?f = "(new_frame False (vat m k p))\<lparr>vf_expected := ?n\<rparr>"
  let ?e = "p + 4 + length (enc_elems d)"
  have v: "vhas m k p (put32 ?n)" "vhas m k (p + 4) (enc_elems d)" "vhas m k ?e [0]"
    using assms(2) by (simp_all add: encode_def enc_frame_def vhas_append)
  then have b: "p + 4 + length (enc_elems d) < k" "k < 2 ^ 31"
    by (simp_all add: vhas_def)
  have f: "\<not> isCodeWithScope ?f"
    using new_frame_start(2) [of p False m k] b by (simp add: isCodeWithScope_def)
  have r: "readNumber_int msg (vat m k p) = Inr (?n, vat m k (p + 4))" for msg
    using v(1) by (rule readNumber_int_vat)
  have "validate_step (vst m k p fs BeginObj) = within_step (vst m k (p + 4) (?f # fs) BeginObj)"
    by (simp add: vst_def validate_step_def r)
  moreover have "within_step (vst m k (p + 4) (?f # fs) BeginObj) =
      validate_step (vst m k (p + 4) (?f # fs) WithinObj)"
    by (simp add: vst_def validate_step_def within_step_def rmap_def split: sum.splits)
  ultimately have "validate_loop (vst m k p fs BeginObj) = validate_loop (vst m k (p + 4) (?f # fs) WithinObj)"
    by (subst (1 2) validate_loop.simps) (simp add: vst_def)
  also have "\<dots> = validate_loop (vst m k ?e (?f # fs) WithinObj)"
    using assms(1) v(2) b f by (simp add: runs_elems_def)
  also have "\<dots> = validate_loop (vst m k (?e + 1) (?f # fs) EndObj)"
    using readNumber_char_vat [OF v(3)]
    by (intro within_loop) (simp add: validateElementInfo_def type_of_code_def)
  also have "\<dots> = validate_loop (vst m k (?e + 1) fs (after_pop fs))"
  proof (rule loop_step)
    have "?e + 1 = p + (length (enc_elems d) + 5)" by simp
    then have "actualLength (vat m k (?e + 1)) ?f = ?n"
      using b by (simp only:) (rule actualLength_new, simp)
    then show "validate_step (vst m k (?e + 1) (?f # fs) EndObj) = Inr (vst m k (?e + 1) fs (after_pop fs))"
      by (cases fs) (simp_all add: vst_def validate_step_def)
  qed (simp add: vst_def)
  also have "?e + 1 = p + length (encode d)"
    by (simp add: length_encode)
  finally show ?thesis .
qed


lemma run_codeWScope:
  assumes "runs_elems m k d" "vhas m k p (enc_value (VCodeWScope c d))"
    and "\<not> isCodeWithScope g"
  shows "validate_loop (vst m k p (g # fs) BeginCodeWScope) =
    validate_loop (vst m k (p + length (enc_value (VCodeWScope c d))) (g # fs) WithinObj)"
proof -
  let ?l = "length (enc_str c) + length (encode d) + 4"
  let ?f = "(new_frame True (vat m k p))\<lparr>vf_expected := int32 ?l\<rparr>"
  let ?q = "p + 4 + length (enc_str c)"
  have v: "vhas m k p (put32 (int32 ?l))" "vhas m k (p + 4) (enc_str c)" "vhas m k ?q (encode d)"
    using assms(2) by (simp_all add: vhas_append encode_def [symmetric] del: length_enc_str)
  then have b: "p < 2 ^ 31"
    by (simp add: vhas_def)
  have "validate_loop (vst m k p (g # fs) BeginCodeWScope) = validate_loop (vst m k ?q (?f # g # fs) BeginObj)"
    by (rule loop_step)
       (simp_all add: vst_def validate_step_def readNumber_int_vat [OF v(1)] readUTF8String_vat [OF v(2)])
  also have "\<dots> = validate_loop (vst m k (?q + length (encode d)) (?f # g # fs) EndCodeWScope)"
    using run_object [OF assms(1) v(3)] new_frame_start(2) [OF b] by (simp add: isCodeWithScope_def)
  also have "?q + length (encode d) = p + ?l"
    by simp
  also have "validate_loop (vst m k (p + ?l) (?f # g # fs) EndCodeWScope) =
      validate_loop (vst m k (p + ?l) (g # fs) WithinObj)"
    using actualLength_new [OF b] by (intro loop_step) (simp_all add: vst_def validate_step_def)
  also have "?l = length (enc_value (VCodeWScope c d))"
    by (simp add: length_encode)
  finally show ?thesis .
qed

text \<open>One element: its header, and its value when the value is a document.\<close>

definition runs_elem :: "mem \<Rightarrow> nat \<Rightarrow> byte list \<Rightarrow> bval \<Rightarrow> bool" where
  "runs_elem m k n v =
     (\<forall>p g fs. vhas m k p (enc_elem n v) \<longrightarrow> p + length (enc_elem n v) < k \<longrightarrow> \<not> isCodeWithScope g \<longrightarrow>
        validate_loop (vst m k p (g # fs) WithinObj) =
        validate_loop (vst m k (p + length (enc_elem n v)) (g # fs) WithinObj))"

lemma runs_elem_scalar:
  assumes "nul_free n" "wf_value v" "begin_state v = WithinObj"
  shows "runs_elem m k n v"
  unfolding runs_elem_def using within_loop [OF element_scalar] assms by blast


lemma run_begin:
  assumes "vhas m k p (enc_elem n v)" "nul_free n" "begin_state v \<noteq> WithinObj"
  shows "validate_loop (vst m k p fs WithinObj) = validate_loop (vst m k (p + length n + 2) fs (begin_state v))"
  using header_vat [OF assms(1,2)] assms(3)
  by (intro within_loop) (cases v; simp add: validateValueInfo_def)

lemma runs_elem_doc:
  assumes "nul_free n" "runs_elems m k d"
    and "v = VObject d \<or> v = VArray d \<or> v = VCodeWScope c d"
  shows "runs_elem m k n v"
  unfolding runs_elem_def
proof (intro allI impI)
  fix p g fs
  assume h: "vhas m k p (enc_elem n v)" "p + length (enc_elem n v) < k" "\<not> isCodeWithScope g"
  let ?q = "p + length n + 2"
  have e: "p + length (enc_elem n v) = ?q + length (enc_value v)"
    by (simp add: length_enc_elem)
  have q: "vhas m k ?q (enc_value v)"
    using h(1) by (rule vhas_header(3))
  have b: "validate_loop (vst m k p (g # fs) WithinObj) = validate_loop (vst m k ?q (g # fs) (begin_state v))"
    using assms(3) by (intro run_begin [OF h(1) assms(1)]) auto
  show "validate_loop (vst m k p (g # fs) WithinObj) =
      validate_loop (vst m k (p + length (enc_elem n v)) (g # fs) WithinObj)"
  proof (cases "v = VCodeWScope c d")
    case True
    then show ?thesis
      using run_codeWScope [OF assms(2) _ h(3), of ?q c] q b unfolding e by simp
  next
    case False
    then have "enc_value v = encode d" "begin_state v = BeginObj"
      using assms(3) by (auto simp: encode_def)
    then show ?thesis
      using run_object [OF assms(2), of ?q "g # fs"] q b h(3) unfolding e by simp
  qed
qed

lemma runs_elems_Nil: "runs_elems m k []"
  by (simp add: runs_elems_def)

lemma runs_elems_Cons:
  assumes "runs_elem m k n v" "runs_elems m k d"
  shows "runs_elems m k ((n, v) # d)"
  unfolding runs_elems_def
proof (intro allI impI)
  fix p g fs
  let ?e = "length (enc_elem n v)"
  assume h: "vhas m k p (enc_elems ((n, v) # d))" "p + length (enc_elems ((n, v) # d)) < k" "\<not> isCodeWithScope g"
  then have v: "vhas m k p (enc_elem n v)" "vhas m k (p + ?e) (enc_elems d)"
    "p + ?e + length (enc_elems d) < k"
    by (simp_all only: enc_elems_Cons vhas_append length_append add.assoc)
  then have "p + ?e < k" by simp
  then have "validate_loop (vst m k p (g # fs) WithinObj) = validate_loop (vst m k (p + ?e) (g # fs) WithinObj)"
    using assms(1) v h(3) by (simp add: runs_elem_def)
  also have "\<dots> = validate_loop (vst m k (p + ?e + length (enc_elems d)) (g # fs) WithinObj)"
    using assms(2) v h(3) by (simp add: runs_elems_def)
  finally show "validate_loop (vst m k p (g # fs) WithinObj) =
      validate_loop (vst m k (p + length (enc_elems ((n, v) # d))) (g # fs) WithinObj)"
    by (simp only: enc_elems_Cons length_append add.assoc)
qed

lemma runs_wf:
  "wf_value v \<Longrightarrow> nul_free n \<Longrightarrow> runs_elem m k n v"
  "wf_elems d \<Longrightarrow> runs_elems m k d"
proof (induction v and d arbitrary: n and rule: wf_value_wf_elems.induct)
  case (1 d)
  then show ?case using runs_elem_doc by simp
next
  case (2 d)
  then show ?case using runs_elem_doc by simp
next
  case (3 c d)
  then show ?case using runs_elem_doc by simp
next
  case (22 n v d)
  then show ?case using runs_elems_Cons by simp
qed (simp_all add: runs_elem_scalar runs_elems_Nil)

lemma validateBSON_encode:
  assumes "wf_doc d" "length (encode d) \<le> k" "k \<le> length (encode d @ r)" "k < 2 ^ 31"
  shows "validateBSON (encode d @ r) k = Some (Inr ())"
proof -
  let ?m = "encode d @ r"
  have "runs_elems ?m k d"
    using runs_wf(2) wf_docD(1) [OF assms(1)] .
  moreover have "vhas ?m k 0 (encode d)"
    using assms by (simp add: vhas_def)
  ultimately have "validate_loop (vst ?m k 0 [] BeginObj) = validate_loop (vst ?m k (length (encode d)) [] Done)"
    using run_object [of ?m k d 0 "[]"] by simp
  also have "\<dots> = Some (Inr ())"
    by (subst validate_loop.simps) (simp add: vst_def)
  finally have "validate_loop (vst ?m k 0 [] BeginObj) = Some (Inr ())" .
  moreover have "\<not> k < 5"
    using assms(2) by (simp add: length_encode)
  ultimately show ?thesis
    by (simp add: validateBSON_def validateBSONIterative_def vst_def vat_def)
qed


section \<open>An input without a result\<close>

lemma loop_stuck:
  assumes "validate_step s = Inr s" "vm_state s \<noteq> Done"
  shows "validate_loop s = None"
proof (rule ccontr)
  assume "validate_loop s \<noteq> None"
  then obtain y where "validate_loop s = Some y" by auto
  then have "s \<noteq> s"
  proof (rule validate_loop.raw_induct [where P = "\<lambda>x y. x \<noteq> s", rotated])
  qed (use assms in \<open>auto split: if_splits sum.splits\<close>)
  then show False by simp
qed

text \<open>
  One binary element whose size is -7: skipping \<open>1 + (-7)\<close> bytes from the end of its size field goes
  back to its type byte.
\<close>

definition loop_doc :: mem where
  "loop_doc = [12, 0, 0, 0, 5, 0, 249, 255, 255, 255, 0, 0]"

lemma loop_doc_element:
  "validateElementInfo (vat loop_doc 12 4) WithinObj = Inr (vat loop_doc 12 4, WithinObj)"
proof -
  have n: "put32 4294967289 = [249, 255, 255, 255]"
    by (simp add: put32_expand)
  have "readNumber_char msg (vat loop_doc 12 4) = Inr (5, vat loop_doc 12 5)" for msg
    using readNumber_char_vat [of loop_doc 12 4 5] by (simp add: vhas_def loop_doc_def)
  moreover have "readCString (vat loop_doc 12 5) = Inr (vat loop_doc 12 6)"
    using readCString_vat [of loop_doc 12 5 "[]"] by (simp add: vhas_def loop_doc_def)
  moreover have "readNumber_int msg (vat loop_doc 12 6) = Inr (4294967289, vat loop_doc 12 10)" for msg
    using readNumber_int_vat [of loop_doc 12 6 "4294967289"] by (simp add: vhas_def loop_doc_def n)
  moreover have "vb_skip_or (sint (1 + 4294967289 :: 32 word)) (vat loop_doc 12 10) = Inr (vat loop_doc 12 4)"
    by (simp add: vb_skip_or_def vb_skip_def vat_def)
  ultimately show ?thesis
    by (simp add: validateElementInfo_def validateValueInfo_def type_of_code_def)
qed

section \<open>Properties\<close>

text \<open>
  C15: \<open>validateBSON\<close> accepts every well-formed document: on the encoding of a document of any nesting,
  within a buffer of at least its size, the state machine ends in \<open>Done\<close> and reports no error.
\<close>

theorem validateBSON_accepts:
  assumes "wf_doc d" "length (encode d) \<le> k" "k \<le> length (encode d @ r)" "k < 2 ^ 31"
  shows "validateBSON (encode d @ r) k = Some (Inr ())"
  using assms by (rule validateBSON_encode)

theorem validateBSON_accepts_witness:
  "validateBSON (encode [(bs ''a'', VCodeWScope (bs ''f()'') [(bs ''x'', VInt 1)]),
     (bs ''b'', VArray [(bs ''0'', VNull)])] @ []) 43 = Some (Inr ())"
  by (rule validateBSON_accepts) (simp_all add: wf_doc_iff length_encode)

text \<open>
  C20: \<open>validateBSON\<close> does not return on some inputs of twelve bytes: a binary element with the size
  -7 sends the read position back to the element's own type byte, and the state machine repeats
  that element forever.
\<close>

theorem validateBSON_does_not_return: "validateBSON loop_doc 12 = None"
proof -
  let ?f = "(new_frame False (vat loop_doc 12 0))\<lparr>vf_expected := 12\<rparr>"
  have n: "put32 12 = [12, 0, 0, 0]"
    by (simp add: put32_expand)
  have "readNumber_int msg (vat loop_doc 12 0) = Inr (12, vat loop_doc 12 4)" for msg
    using readNumber_int_vat [of loop_doc 12 0 12] by (simp add: vhas_def loop_doc_def n)
  then have "validate_loop (vst loop_doc 12 0 [] BeginObj) = validate_loop (vst loop_doc 12 4 [?f] WithinObj)"
    by (intro loop_step) (simp_all add: vst_def validate_step_def within_step_def loop_doc_element)
  also have "\<dots> = None"
    by (rule loop_stuck) (simp_all add: vst_def validate_step_def within_step_def loop_doc_element)
  finally show ?thesis
    by (simp add: validateBSON_def validateBSONIterative_def vst_def vat_def)
qed

end
