(* ===== verification/PgbsonRow.thy ===== *)
theory PgbsonRow
  imports PgbsonGet JsonRoundtrip ValidateRefine
begin

text \<open>
  Conversion of rows to documents, and the input and output functions of the type.
\<close>

lemma rbind_return: "rbind m Inr = m"
  by (cases m) simp_all

section \<open>What a row denotes\<close>

text \<open>
  The value of a datum and the document of a row.  A text denotes a string when a zero byte follows
  it in memory.  A single \<open>"char"\<close> denotes no value: what is stored for it is not a BSON string.
\<close>

inductive datum_rel :: "pg_env \<Rightarrow> pg_datum \<Rightarrow> bval \<Rightarrow> bool"
and row_rel :: "pg_env \<Rightarrow> pg_attr list \<Rightarrow> bdoc \<Rightarrow> bool"
  for env :: pg_env where
  rel_bool: "datum_rel env (BOOLOID x) (VBool (if x then 1 else 0))"
| rel_int8: "datum_rel env (INT8OID n) (VLong n)"
| rel_int2: "datum_rel env (INT2OID i) (VInt (scast i))"
| rel_int4: "datum_rel env (INT4OID k) (VInt k)"
| rel_text: "datum_rel env (TEXTOID s (0 # m)) (VString s)"
| rel_json: "datum_rel env (JSONOID s (0 # m)) (VString s)"
| rel_xml: "datum_rel env (XMLOID s (0 # m)) (VString s)"
| rel_float4: "datum_rel env (FLOAT4OID w) (VDouble (double_of_float w))"
| rel_float8: "datum_rel env (FLOAT8OID n) (VDouble n)"
| rel_record: "row_rel env row d \<Longrightarrow> datum_rel env (RECORDOID row) (VObject d)"
| rel_timestamp: "datum_rel env (TIMESTAMPOID n) (VDate n)"
| rel_bson: "get_typename env t = bs ''bson'' \<Longrightarrow> wf_doc d \<Longrightarrow> datum_rel env (OtherOID t (encode d @ m)) (VObject d)"
| rel_other: "get_typename env t \<noteq> bs ''bson'' \<Longrightarrow> outfunc env t v = s @ 0 # m \<Longrightarrow> nul_free s \<Longrightarrow>
    datum_rel env (OtherOID t v) (VString s)"
| rel_Nil: "row_rel env [] []"
| rel_dropped: "row_rel env row d \<Longrightarrow> row_rel env (Attr name True x # row) d"
| rel_null: "row_rel env row d \<Longrightarrow> row_rel env (Attr name False None # row) ((name, VNull) # d)"
| rel_value: "datum_rel env x v \<Longrightarrow> row_rel env row d \<Longrightarrow> row_rel env (Attr name False (Some x) # row) ((name, v) # d)"

lemma appends_str_sz:
  assumes "length s + 1 < 2 ^ 31"
  shows "appends (\<lambda>b. append_str_sz b name (s @ 0 # m) (int32 (length s) + 1)) name (VString s)"
proof -
  have n: "int32 (length s) + 1 = int32 (length (s @ [0]))"
    by (simp add: int32_def)
  have "writes (\<lambda>b. bob_putBuf b ((s @ [0]) @ m) (int32 (length (s @ [0])))) (s @ [0])"
    using assms by (intro writes_putBuf) simp_all
  then have "writes (\<lambda>b. rbind (bob_put b (put32 (int32 (length s + 1)))) (\<lambda>b. bob_putBuf b (s @ 0 # m) (int32 (length s + 1))))
      (put32 (int32 (length s + 1)) @ s @ [0])"
    using bob_sink.writes_bind [OF bob_sink.put_writes] by simp
  then show ?thesis
    unfolding append_str_sz_def n
    using appendsI [of _ "VString s" name] by (simp add: enc_str_def)
qed

text \<open>An append that finds room extends the builder by the element.\<close>

definition adds :: "(BSONObjBuilder \<Rightarrow> BSONObjBuilder res) \<Rightarrow> byte list \<Rightarrow> bool" where
  "adds f es = (\<forall>b. length (bob_contents b) + length es \<le> BufferMaxSize \<longrightarrow>
     (\<exists>b'. f b = Inr b' \<and> bob_extended b es b'))"

lemma writes_adds: "writes f es \<Longrightarrow> adds f es"
  unfolding adds_def by (metis bob_sink.writes_room)

lemma appends_adds: "appends f n v \<Longrightarrow> adds f (enc_elem n v)"
  by (simp add: appends_def writes_adds)

lemma adds_bind:
  assumes "adds f xs" "adds g ys"
  shows "adds (\<lambda>b. rbind (f b) g) (xs @ ys)"
  unfolding adds_def
proof safe
  fix b
  assume r: "length (bob_contents b) + length (xs @ ys) \<le> BufferMaxSize"
  then obtain b1 where b1: "f b = Inr b1" "bob_extended b xs b1"
    using assms(1) unfolding adds_def by (metis le_add1 length_append add_le_mono1 add.assoc order_trans)
  then have "length (bob_contents b1) + length ys \<le> BufferMaxSize"
    using r by (simp add: bob_extended_def)
  then obtain b2 where "g b1 = Inr b2" "bob_extended b1 ys b2"
    using assms(2) unfolding adds_def by blast
  then show "\<exists>b'. rbind (f b) g = Inr b' \<and> bob_extended b (xs @ ys) b'"
    using b1 bob_sink.ext_trans by fastforce
qed

lemma record_adds:
  assumes "adds (\<lambda>b. composite_to_bson env b row) (enc_elems d)" "wf_doc d"
  shows "adds (\<lambda>b. datum_to_bson env (Some n) b (Some (RECORDOID row))) (enc_elem n (VObject d))"
  unfolding adds_def
proof (intro allI impI)
  fix b
  assume room: "length (bob_contents b) + length (enc_elem n (VObject d)) \<le> BufferMaxSize"
  obtain b1 sub where h: "bob_header b Object n = Inr b1" "bob_sub (bob_b b1) = Inr sub"
    "length (bob_contents sub) + length (enc_elems d) + 1 \<le> BufferMaxSize"
    "\<And>sub1. bob_extended sub (enc_elems d) sub1 \<Longrightarrow>
       \<exists>sub2. bob_done sub1 = Inr sub2 \<and> bob_bytes sub2 = encode d \<and>
         bob_extended b (enc_elem n (VObject d)) (bob_return b1 sub2)"
    by (rule nested_builder [OF room, of d]) (simp_all add: encode_def)
  have "length (bob_contents sub) + length (enc_elems d) \<le> BufferMaxSize" using h(3) by simp
  then obtain sub1 where s1: "composite_to_bson env sub row = Inr sub1" "bob_extended sub (enc_elems d) sub1"
    using assms(1) unfolding adds_def by blast
  obtain sub2 where s2: "bob_done sub1 = Inr sub2" "bob_bytes sub2 = encode d"
    "bob_extended b (enc_elem n (VObject d)) (bob_return b1 sub2)"
    using h(4) [OF s1(2)] by blast
  have "datum_to_bson env (Some n) b (Some (RECORDOID row)) = Inr (bob_return b1 sub2)"
    using h(1,2) s1(1) done_obj_bytes [OF s2(1,2) assms(2)] by (simp add: subobjStart_def field_or_empty_def)
  with s2(3) show "\<exists>b'. datum_to_bson env (Some n) b (Some (RECORDOID row)) = Inr b' \<and> bob_extended b (enc_elem n (VObject d)) b'"
    by blast
qed

lemma rel_adds:
  "datum_rel env x v \<Longrightarrow> wf_value v \<Longrightarrow> length (enc_value v) \<le> BSONObjMaxInternalSize \<Longrightarrow>
     adds (\<lambda>b. datum_to_bson env (Some n) b (Some x)) (enc_elem n v)"
  "row_rel env row d \<Longrightarrow> wf_elems d \<Longrightarrow> length (encode d) \<le> BSONObjMaxInternalSize \<Longrightarrow>
     adds (\<lambda>b. composite_to_bson env b row) (enc_elems d)"
proof (induction arbitrary: n and rule: datum_rel_row_rel.inducts)
  case (rel_record row d)
  then have wf: "wf_doc d" using sub_wf_doc(1) [of "VObject d" d] by simp
  then show ?case using rel_record by (intro record_adds) (auto simp: wf_doc_def)
next
  case (rel_value x v row d name)
  then show ?case
    using adds_bind [of "\<lambda>b. datum_to_bson env (Some name) b (Some x)" "enc_elem name v"
        "\<lambda>b. composite_to_bson env b row" "enc_elems d"]
    by (simp add: enc_elems_Cons length_encode length_enc_elem del: enc_elems.simps datum_to_bson.simps)
next
  case (rel_null row d name)
  then show ?case
    using adds_bind [OF appends_adds [OF appends_markers(1)], of "\<lambda>b. composite_to_bson env b row" "enc_elems d" name]
    by (simp add: enc_elems_Cons length_encode length_enc_elem field_or_empty_def del: enc_elems.simps)
next
  case (rel_bson t d m)
  then show ?case
    using appends_adds [OF appends_obj(1) [OF rel_bson(2)], of n m]
    by (simp add: append_other_def bson_obj_encode field_or_empty_def)
next
  case (rel_other t v s m)
  have "length s + 1 < 2 ^ 31" using rel_other.prems(2) by (simp add: BSONObjMaxInternalSize_def BSONObjMaxUserSize_def)
  then show ?case
    using rel_other appends_adds [OF appends_str_sz [of s n m]]
    by (simp add: append_other_def append_cstr_def strlen_nul field_or_empty_def)
next
  case rel_Nil
  then show ?case by (simp add: adds_def bob_sink.ext_refl)
next
  case (rel_bool x)
  then show ?case using appends_adds [OF appends_scalars(4) [of n x]] by (simp add: field_or_empty_def)
qed (auto intro!: appends_adds appends_scalars appends_str_sz simp: field_or_empty_def append_text_def
      BSONObjMaxInternalSize_def BSONObjMaxUserSize_def)

lemma row_to_bson_rel:
  assumes "row_rel env row d" "wf_doc d"
  shows "row_to_bson env row = Inr (PgBytea (encode d))"
proof -
  obtain b where b: "bob_new 512 = Inr b" "builds b []"
    using bob_new_builds by blast
  have "length (bob_contents b) + length (enc_elems d) \<le> BufferMaxSize"
    using fresh_builder(1) [OF b(2)] wf_docD(3) [OF assms(2)] by (simp add: BufferMaxSize_def length_encode)
  then obtain b' where b': "composite_to_bson env b row = Inr b'" "bob_extended b (enc_elems d) b'"
    using rel_adds(2) [OF assms(1)] assms(2) unfolding adds_def wf_doc_def by blast
  have "builds b' d" using builds_extended [OF b(2) b'(2)] by simp
  then have "obj b' = Inr (encode d)" using assms(2) by (rule obj_builds)
  then show ?thesis
    using b(1) b'(1) return_bson_encode(2) [OF assms(2)] by (simp add: row_to_bson_def)
qed

section \<open>Text input and output\<close>

lemma plain_nul_free: "plain s \<Longrightarrow> nul_free s"
  by (auto simp: plain_def nul_free_def escape_byte_def)

lemma escape_nul_free: "nul_free (escape False s)"
proof -
  have "nul_free (escape_byte False c)" for c
    using plain_nul_free [OF plain_toHexLower [of "[c]"]] by (auto simp: escape_byte_def)
  then show ?thesis by (induction s) (auto simp: escape_def)
qed

lemma nul_free_join: "nul_free sep \<Longrightarrow> (\<And>x. x \<in> set xs \<Longrightarrow> nul_free x) \<Longrightarrow> nul_free (join sep xs)"
  by (induction sep xs rule: join.induct) auto

lemma nul_free_quoted [simp]: "nul_free (quoted s) \<longleftrightarrow> nul_free s"
  by (simp add: quoted_def)

lemma nul_free_dec_int [simp]: "nul_free (dec_int n)"
  by (simp add: dec_int_def)

lemma nul_free_special: "nul_free (bs key) \<Longrightarrow> nul_free body \<Longrightarrow> nul_free (special key body)"
  by (simp add: special_def sp_colon_def)

lemma nul_free_text:
  "json_ok v \<Longrightarrow> nul_free (json_text v)"
  "json_oks d \<Longrightarrow> (\<forall>x \<in> set (json_members d). nul_free x) \<and> (\<forall>x \<in> set (json_items d). nul_free x)"
proof (induction v and d rule: json_ok_json_oks.induct)
  case (11 p f)
  then show ?case
    by (auto intro!: nul_free_special simp: escape_nul_free plain_nul_free [OF plain_options] comma_sp_def sp_colon_def)
next
  case (3 d)
  then show ?case by (auto intro!: nul_free_join simp: comma_sp_def)
next
  case (4 d)
  then show ?case by (auto intro!: nul_free_join simp: comma_sp_def)
qed (auto intro!: nul_free_special simp: escape_nul_free plain_nul_free [OF plain_b64] plain_nul_free [OF plain_toHexLower]
      comma_sp_def sp_colon_def oid_str_def double_texts)

lemma bson_in_json_doc:
  assumes "wf_doc d" "json_ok (VObject d)"
  shows "bson_in (json_doc d @ 0 # m) = Inr (PgBytea (encode d))"
proof -
  have "cstr (json_doc d @ 0 # m) = Inr (json_doc d)"
    using nul_free_text(1) [OF assms(2)] by (simp add: cstr_nul json_doc_def del: json_text.simps)
  then show ?thesis
    using fromjson_json_doc [OF assms] return_bson_encode(2) [OF assms(1)] by (simp add: bson_in_def)
qed

lemma bson_out_json_doc:
  assumes "wf_doc d" "json_ok (VObject d)"
  shows "bson_out ctime (encode d @ r) = Inr (PgCString (json_doc d @ [0]))"
proof -
  have "printables d" using json_ok_printable(1) [OF assms(2)] by simp
  from jsonString_encode [OF assms(1) this] show ?thesis
    using bson_obj_encode [OF assms(1)] by (simp add: bson_out_def return_cstring_def)
qed

section \<open>Properties\<close>



text \<open>
  C2: \<open>row_to_bson\<close> builds the document of the row: one field for every column that is not dropped, in
  order, with nested rows as nested objects, stored documents as sub-objects, and a value of any other
  type as the text of its output function.
\<close>

theorem row_to_bson_builds:
  assumes "row_rel env row d" "wf_doc d"
  shows "row_to_bson env row = Inr (PgBytea (encode d))"
  using assms by (rule row_to_bson_rel)

theorem row_to_bson_builds_witness:
  "row_to_bson \<lparr>syscache = (\<lambda>t. if t = 9 then Some (bs ''bson'') else None), outfunc = (\<lambda>t v. v)\<rparr>
     [Attr (bs ''a'') False (Some (INT4OID 42)), Attr (bs ''x'') True None, Attr (bs ''n'') False None,
      Attr (bs ''t'') False (Some (TEXTOID (bs ''abc'') [0, 9])),
      Attr (bs ''r'') False (Some (RECORDOID [Attr (bs ''b'') False (Some (BOOLOID True))])),
      Attr (bs ''o'') False (Some (OtherOID 9 (encode [] @ []))),
      Attr (bs ''p'') False (Some (OtherOID 8 (bs ''(1,2)'' @ [0])))] =
   Inr (PgBytea (encode [(bs ''a'', VInt 42), (bs ''n'', VNull), (bs ''t'', VString (bs ''abc'')),
      (bs ''r'', VObject [(bs ''b'', VBool 1)]), (bs ''o'', VObject []), (bs ''p'', VString (bs ''(1,2)''))]))"
proof (rule row_to_bson_builds)
  let ?env = "\<lparr>syscache = (\<lambda>t. if t = 9 then Some (bs ''bson'') else None), outfunc = (\<lambda>t v. v)\<rparr>"
  have "datum_rel ?env (BOOLOID True) (VBool 1)" using rel_bool [of ?env True] by simp
  moreover have "datum_rel ?env (OtherOID 8 (bs ''(1,2)'' @ [0])) (VString (bs ''(1,2)''))"
    by (rule rel_other) (simp_all add: get_typename_def)
  moreover have "datum_rel ?env (OtherOID 9 (encode [] @ [])) (VObject [])"
    by (rule rel_bson) (simp_all add: get_typename_def)
  ultimately show "row_rel ?env
     [Attr (bs ''a'') False (Some (INT4OID 42)), Attr (bs ''x'') True None, Attr (bs ''n'') False None,
      Attr (bs ''t'') False (Some (TEXTOID (bs ''abc'') [0, 9])),
      Attr (bs ''r'') False (Some (RECORDOID [Attr (bs ''b'') False (Some (BOOLOID True))])),
      Attr (bs ''o'') False (Some (OtherOID 9 (encode [] @ []))),
      Attr (bs ''p'') False (Some (OtherOID 8 (bs ''(1,2)'' @ [0])))]
     [(bs ''a'', VInt 42), (bs ''n'', VNull), (bs ''t'', VString (bs ''abc'')),
      (bs ''r'', VObject [(bs ''b'', VBool 1)]), (bs ''o'', VObject []), (bs ''p'', VString (bs ''(1,2)''))]"
    by (intro rel_value rel_dropped rel_null rel_Nil rel_int4 rel_text rel_record)
qed (simp add: wf_doc_iff)

text \<open>
  C24: A column of type \<open>"char"\<close> makes \<open>row_to_bson\<close> return bytes that are not a BSON document: the
  string is stored with the size 1 and without its terminator, and \<open>validateBSON\<close> rejects it.
\<close>

definition char_row_bytes :: "byte \<Rightarrow> mem" where
  "char_row_bytes c = [13, 0, 0, 0, 2, 99, 0, 1, 0, 0, 0, c, 0]"

lemma row_to_bson_char:
  "row_to_bson env [Attr (bs ''c'') False (Some (CHAROID c))] = Inr (PgBytea (char_row_bytes c))"
proof -
  have "writes (\<lambda>b. bob_putBuf b ([c] @ []) 1) [c]"
    by (rule writes_putBuf) (simp_all add: int32_def)
  then have "writes (\<lambda>b. append_str_sz b (bs ''c'') [c] 1) (type_byte String # bs ''c'' @ 0 # put32 1 @ [c])"
    unfolding append_str_sz_def
    by (intro writes_after_header bob_sink.writes_bind bob_sink.put_writes) simp
  from obj_writes [OF this, of 512]
  have "rbind (bob_new 512) (\<lambda>b. rbind (append_str_sz b (bs ''c'') [c] 1) obj) =
      Inr (enc_frame (type_byte String # bs ''c'' @ 0 # put32 1 @ [c]))"
    by (simp add: BSONObjMaxInternalSize_def BSONObjMaxUserSize_def)
  moreover have "enc_frame (type_byte String # bs ''c'' @ 0 # put32 1 @ [c]) = char_row_bytes c"
    by (simp add: enc_frame_def char_row_bytes_def type_byte_def put32_expand int32_def)
  moreover have "return_bson (char_row_bytes c) = Inr (PgBytea (char_row_bytes c))"
    by (simp add: return_bson_def char_row_bytes_def objsize_def get32_def read_bytes_def)
  moreover have "rbind (bob_new 512) (\<lambda>b. rbind (append_str_sz b (bs ''c'') [c] 1) (\<lambda>b. rbind (obj b) return_bson)) =
      rbind (rbind (bob_new 512) (\<lambda>b. rbind (append_str_sz b (bs ''c'') [c] 1) obj)) return_bson"
    by (simp add: rbind_assoc)
  ultimately show ?thesis
    by (simp add: row_to_bson_def field_or_empty_def rbind_return)
qed

lemma validate_char_row:
  assumes "c \<noteq> 0"
  shows "validateBSON (char_row_bytes c) 13 = Some (Inl (BadStatus ''not null terminate string''))"
proof -
  let ?v = "vat (char_row_bytes c) 13"
  have p: "put32 13 = [13, 0, 0, 0]" "put32 1 = [1, 0, 0, 0]"
    by (simp_all add: put32_expand)
  have n: "readNumber_int msg (?v 0) = Inr (13, ?v 4)" "readNumber_int msg (?v 7) = Inr (1, ?v 11)" for msg
    using readNumber_int_vat [of "char_row_bytes c" 13 0 13] readNumber_int_vat [of "char_row_bytes c" 13 7 1]
    by (simp_all add: vhas_def char_row_bytes_def p)
  have ch: "readNumber_char msg (?v 4) = Inr (2, ?v 5)" "readNumber_char msg (?v 11) = Inr (c, ?v 12)" for msg
    using readNumber_char_vat [of "char_row_bytes c" 13 4 2] readNumber_char_vat [of "char_row_bytes c" 13 11 c]
    by (simp_all add: vhas_def char_row_bytes_def)
  have s: "readCString (?v 5) = Inr (?v 7)"
    using readCString_vat [of "char_row_bytes c" 13 5 "[99]"] by (simp add: vhas_def char_row_bytes_def)
  have "vb_skip_or 0 (?v 11) = Inr (?v 11)"
    using vb_skip_vat(1) [of 11 0 13 "char_row_bytes c"] by simp
  then have "readUTF8String (?v 7) = invalid ''not null terminate string''"
    using assms by (simp add: readUTF8String_def n ch)
  then have "validateElementInfo (?v 4) st = invalid ''not null terminate string''" for st
    by (simp add: validateElementInfo_def validateValueInfo_def ch s type_of_code_def invalid_def)
  then have "validate_step (vst (char_row_bytes c) 13 0 [] BeginObj) = invalid ''not null terminate string''"
    by (simp add: vst_def validate_step_def within_step_def n invalid_def)
  then have "validate_loop (vst (char_row_bytes c) 13 0 [] BeginObj) = Some (invalid ''not null terminate string'')"
    by (subst validate_loop.simps) (simp add: vst_def invalid_def)
  then show ?thesis
    by (simp add: validateBSON_def validateBSONIterative_def vst_def vat_def invalid_def)
qed

theorem char_column_invalid:
  assumes "c \<noteq> 0"
  shows "\<exists>m e. row_to_bson env [Attr (bs ''c'') False (Some (CHAROID c))] = Inr (PgBytea m) \<and>
    validateBSON m (length m) = Some (Inl e)"
proof -
  have "length (char_row_bytes c) = 13" by (simp add: char_row_bytes_def)
  then show ?thesis using row_to_bson_char [of env c] validate_char_row [OF assms] by metis
qed

theorem char_column_invalid_witness:
  "\<exists>m e. row_to_bson \<lparr>syscache = (\<lambda>_. None), outfunc = (\<lambda>_ v. v)\<rparr> [Attr (bs ''c'') False (Some (CHAROID 65))] =
      Inr (PgBytea m) \<and> validateBSON m (length m) = Some (Inl e)"
  by (rule char_column_invalid) simp

text \<open>
  C25: A text column is read one byte past its end: when the text is the last thing in its memory,
  \<open>row_to_bson\<close> reads outside it.
\<close>

theorem text_column_overread:
  assumes "length s < 1000000"
  shows "row_to_bson env [Attr (bs ''c'') False (Some (TEXTOID s []))] = Inl (Escaped BadRead)"
proof -
  obtain b where b: "bob_new 512 = Inr b" "builds b []"
    using bob_new_builds by blast
  have w: "writes (\<lambda>b. rbind (bob_header b String (bs ''c'')) (\<lambda>b. bob_put b (put32 (int32 (length s) + 1))))
      (type_byte String # bs ''c'' @ 0 # put32 (int32 (length s) + 1))"
    by (intro writes_after_header bob_sink.put_writes)
  obtain b1 where b1: "rbind (bob_header b String (bs ''c'')) (\<lambda>b. bob_put b (put32 (int32 (length s) + 1))) = Inr b1"
      "bob_extended b (type_byte String # bs ''c'' @ 0 # put32 (int32 (length s) + 1)) b1"
    using bob_sink.writes_room [OF w, of b] fresh_builder(1) [OF b(2)] by (auto simp: BufferMaxSize_def)
  have sz: "sint (int32 (length s) + 1) = int (length s) + 1"
    using assms sint_int32 [of "length s + 1"] by (simp add: int32_def add.commute)
  have "bb_len (bob_b b1) = 15"
    using b1(2) fresh_builder(1) [OF b(2)] by (simp add: bob_extended_def bob_contents_def bb_len_def)
  then obtain k where "bb_grow (bob_b b1) (Suc (length s)) = Inr ((bob_b b1)\<lparr>bb_size := k\<rparr>)"
    using bb_grow_spec [of "bob_b b1" "Suc (length s)"] assms by (auto simp: BufferMaxSize_def)
  then have "bob_putBuf b1 s (int32 (length s) + 1) = Inl BadRead"
    by (simp add: bob_putBuf_def bb_appendBuf_def sz nat_add_distrib read_bytes_def)
  then have "append_str_sz b (bs ''c'') s (int32 (length s) + 1) = Inl BadRead"
    using b1(1) by (simp add: append_str_sz_def flip: rbind_assoc)
  then show ?thesis
    using b(1) by (simp add: row_to_bson_def field_or_empty_def append_text_def)
qed

theorem text_column_overread_witness:
  "row_to_bson \<lparr>syscache = (\<lambda>_. None), outfunc = (\<lambda>_ v. v)\<rparr> [Attr (bs ''c'') False (Some (TEXTOID (bs ''hi'') []))] =
     Inl (Escaped BadRead)"
  by (rule text_column_overread) simp

text \<open>
  C26: \<open>bson_recv\<close> takes the bytes from the start of the buffer, as many as their first four bytes say,
  whatever the cursor is and whatever they hold: nothing checks that they form a document.
\<close>

theorem bson_recv_accepts:
  assumes "objsize (si_data buf) = Inr n" "0 < sint n" "sint n \<le> int BSONObjMaxInternalSize"
    and "sint n \<le> int (length (si_data buf))"
  shows "bson_recv buf =
    Inr (PgBytea (take (nat (sint n)) (si_data buf)), buf\<lparr>si_cursor := si_cursor buf + n\<rparr>)"
proof -
  have "bson_obj (si_data buf) = Inr (si_data buf)"
    using assms by (simp add: bson_obj_def isValid_def)
  moreover have "return_bson (si_data buf) = Inr (PgBytea (take (nat (sint n)) (si_data buf)))"
    using assms size_t_nat [OF assms(2)] by (simp add: return_bson_def read_bytes_def nat_le_iff)
  ultimately show ?thesis
    using assms(1) by (simp add: bson_recv_def)
qed

theorem bson_recv_accepts_witness:
  "bson_recv \<lparr>si_data = loop_doc, si_cursor = 100\<rparr> = Inr (PgBytea loop_doc, \<lparr>si_data = loop_doc, si_cursor = 112\<rparr>)"
proof -
  have "objsize loop_doc = Inr 12" by (simp add: objsize_def get32_def loop_doc_def)
  moreover have "length loop_doc = 12" by (simp add: loop_doc_def)
  ultimately show ?thesis
    using bson_recv_accepts [of "\<lparr>si_data = loop_doc, si_cursor = 100\<rparr>" 12]
    by (simp add: BSONObjMaxInternalSize_def BSONObjMaxUserSize_def)
qed

end
