(* ===== verification/MinMax.thy ===== *)
theory MinMax
  imports CompareRefine BuilderRefine PgbsonRow
begin

text \<open>
  \<open>appendMinForType\<close> and \<open>appendMaxForType\<close> of \<open>db/jsobj.cpp\<close>, the two key objects and
  \<open>appendAsNumber\<close>.  The values the first two append are shown to bound the values of the type in the order
  of \<open>woCompare\<close>.
\<close>

section \<open>Definitions\<close>

definition dbl_max :: "64 word" where
  "dbl_max = 0x7FEFFFFFFFFFFFFF"

definition neg_dbl_max :: "64 word" where
  "neg_dbl_max = 0xFFEFFFFFFFFFFFFF"

definition appendMinForType :: "BSONObjBuilder \<Rightarrow> byte list \<Rightarrow> BSONType \<Rightarrow> BSONObjBuilder res" where
  "appendMinForType b name t =
     (case t of
        NumberInt \<Rightarrow> append_double b name neg_dbl_max
      | NumberDouble \<Rightarrow> append_double b name neg_dbl_max
      | NumberLong \<Rightarrow> append_double b name neg_dbl_max
      | Symbol \<Rightarrow> append_cstr b name [0]
      | String \<Rightarrow> append_cstr b name [0]
      | Date \<Rightarrow> appendBool b name True
      | Timestamp \<Rightarrow> appendTimestamp b name 0
      | Undefined \<Rightarrow> appendUndefined b name
      | MinKey \<Rightarrow> appendMinKey b name
      | MaxKey \<Rightarrow> appendMaxKey b name
      | jstOID \<Rightarrow> appendOID b name (Some (replicate 12 0))
      | Bool \<Rightarrow> appendBool b name False
      | jstNULL \<Rightarrow> appendNull b name
      | Object \<Rightarrow> append_obj b name emptyObj
      | Array \<Rightarrow> appendArray b name emptyObj
      | BinData \<Rightarrow> appendBinData b name 0 0 []
      | RegEx \<Rightarrow> appendRegex b name [] []
      | DBRef \<Rightarrow> appendDBRef b name [] (replicate 12 0)
      | Code \<Rightarrow> appendCode b name []
      | CodeWScope \<Rightarrow> appendCodeWScope b name [] emptyObj
      | _ \<Rightarrow> Inl (UserAssert 10061))"

definition appendMaxForType :: "BSONObjBuilder \<Rightarrow> byte list \<Rightarrow> BSONType \<Rightarrow> BSONObjBuilder res" where
  "appendMaxForType b name t =
     (case t of
        NumberInt \<Rightarrow> append_double b name dbl_max
      | NumberDouble \<Rightarrow> append_double b name dbl_max
      | NumberLong \<Rightarrow> append_double b name dbl_max
      | Symbol \<Rightarrow> appendMinForType b name Object
      | String \<Rightarrow> appendMinForType b name Object
      | Date \<Rightarrow> appendDate b name 0x7FFFFFFFFFFFFFFF
      | Timestamp \<Rightarrow> appendTimestamp b name (-1)
      | Undefined \<Rightarrow> appendUndefined b name
      | MinKey \<Rightarrow> appendMinKey b name
      | MaxKey \<Rightarrow> appendMaxKey b name
      | jstOID \<Rightarrow> appendOID b name (Some (replicate 12 0xFF))
      | Bool \<Rightarrow> appendBool b name True
      | jstNULL \<Rightarrow> appendNull b name
      | Object \<Rightarrow> appendMinForType b name Array
      | Array \<Rightarrow> appendMinForType b name BinData
      | BinData \<Rightarrow> appendMinForType b name jstOID
      | RegEx \<Rightarrow> appendMinForType b name DBRef
      | DBRef \<Rightarrow> appendMinForType b name Code
      | Code \<Rightarrow> appendMinForType b name CodeWScope
      | CodeWScope \<Rightarrow> appendMinForType b name MaxKey
      | _ \<Rightarrow> Inl (UserAssert 14853))"

text \<open>The objects with a single key, which the code lays out as packed structures.\<close>

definition maxKey_object :: mem where
  "maxKey_object = put32 7 @ [type_byte MaxKey, 0, type_byte EOO]"

definition minKey_object :: mem where
  "minKey_object = put32 7 @ [type_byte MinKey, 0, type_byte EOO]"

text \<open>
  \<open>appendAsNumber\<close>: whether a number was appended, and the builder.  \<open>lexical_cast\<close> is boost's conversion to
  \<open>long long\<close>, \<open>None\<close> where it throws.
\<close>

fun number_chars :: "bool \<Rightarrow> byte list \<Rightarrow> bool option" where
  "number_chars hasDec [] = Some hasDec"
| "number_chars hasDec (c # s) =
     (if isdigit c then number_chars hasDec s
      else if c = 46 then if hasDec then None else number_chars True s
      else None)"

definition appendAsNumber ::
  "(byte list \<Rightarrow> 64 word option) \<Rightarrow> BSONObjBuilder \<Rightarrow> byte list \<Rightarrow> byte list \<Rightarrow> (bool \<times> BSONObjBuilder) res" where
  "appendAsNumber lexical_cast b name data =
     (if data = [] \<or> data = [45] \<or> data = [46] then Inr (False, b)
      else
        case number_chars False (if hd data = 45 then tl data else data) of
          None \<Rightarrow> Inr (False, b)
        | Some hasDec \<Rightarrow>
            if hasDec then rmap (Pair True) (append_double b name (fst (strtod data)))
            else if length data < 8 then rmap (Pair True) (append_int b name (word_of_int (fst (strtoll data))))
            else
              case lexical_cast data of
                Some num \<Rightarrow> rmap (Pair True) (append_long b name num)
              | None \<Rightarrow> Inr (False, b))"

section \<open>What they append\<close>

fun min_value :: "BSONType \<Rightarrow> bval" where
  "min_value NumberInt = VDouble neg_dbl_max"
| "min_value NumberDouble = VDouble neg_dbl_max"
| "min_value NumberLong = VDouble neg_dbl_max"
| "min_value Symbol = VString []"
| "min_value String = VString []"
| "min_value Date = VBool 1"
| "min_value Timestamp = VTimestamp 0"
| "min_value Undefined = VUndefined"
| "min_value MaxKey = VMaxKey"
| "min_value jstOID = VOID (replicate 12 0)"
| "min_value Bool = VBool 0"
| "min_value jstNULL = VNull"
| "min_value Object = VObject []"
| "min_value Array = VArray []"
| "min_value BinData = VBinData 0 []"
| "min_value RegEx = VRegEx [] []"
| "min_value DBRef = VDBRef [] (replicate 12 0)"
| "min_value Code = VCode []"
| "min_value CodeWScope = VCodeWScope [] []"
| "min_value _ = VMinKey"

fun max_value :: "BSONType \<Rightarrow> bval" where
  "max_value NumberInt = VDouble dbl_max"
| "max_value NumberDouble = VDouble dbl_max"
| "max_value NumberLong = VDouble dbl_max"
| "max_value Symbol = VObject []"
| "max_value String = VObject []"
| "max_value Date = VDate 0x7FFFFFFFFFFFFFFF"
| "max_value Timestamp = VTimestamp (-1)"
| "max_value jstOID = VOID (replicate 12 0xFF)"
| "max_value Bool = VBool 1"
| "max_value Object = VArray []"
| "max_value Array = VBinData 0 []"
| "max_value BinData = VOID (replicate 12 0)"
| "max_value RegEx = VDBRef [] (replicate 12 0)"
| "max_value DBRef = VCode []"
| "max_value Code = VCodeWScope [] []"
| "max_value CodeWScope = VMaxKey"
| "max_value t = min_value t"

lemma appends_cstr_empty: "appends (\<lambda>b. append_cstr b n [0]) n (VString [])"
  using appends_str_sz [of "[]" n "[]"] by (simp add: append_cstr_def)

lemma appends_appendOID: "length x = 12 \<Longrightarrow> appends (\<lambda>b. appendOID b n (Some x)) n (VOID x)"
  using appends_oid [of x n] by (simp add: appendOID_def append_oid_def)

lemma appends_empty:
  "appends (\<lambda>b. append_obj b n emptyObj) n (VObject [])" "appends (\<lambda>b. appendArray b n emptyObj) n (VArray [])"
  "appends (\<lambda>b. appendCodeWScope b n [] emptyObj) n (VCodeWScope [] [])"
  using appends_obj [OF wf_doc_Nil, of n "[]"] appends_codeWScope [OF wf_doc_Nil, of n "[]" "[]"]
  by (simp_all add: emptyObj_encode)

lemma key_objects: "maxKey_object = encode [([], VMaxKey)]" "minKey_object = encode [([], VMinKey)]"
  by (simp_all add: maxKey_object_def minKey_object_def encode_def enc_frame_def enc_elem_def int32_def type_byte_def)

lemma number_chars_digits: "\<forall>c \<in> set s. isdigit c \<Longrightarrow> number_chars d s = Some d"
  by (induction s) auto

text \<open>The decimal digits of a number are appended as that number.\<close>

lemma appendAsNumber_dec_int:
  assumes "- (2 ^ 63) \<le> i" "i < 2 ^ 63" "lexical_cast (dec_int i) = Some (word_of_int i)"
  shows "appendAsNumber lexical_cast b name (dec_int i) = rmap (Pair True)
    (if length (dec_int i) < 8 then append_int b name (word_of_int i) else append_long b name (word_of_int i))"
proof -
  let ?d = "dec_nat (nat \<bar>i\<bar>)"
  have d: "\<forall>c \<in> set ?d. isdigit c" "?d \<noteq> []" using isdigit_dec_nat by auto
  then have hd: "isdigit (hd ?d)" by simp
  have body: "(if hd (dec_int i) = 45 then tl (dec_int i) else dec_int i) = ?d"
    using hd by (auto simp: dec_int_def isdigit_def abs_if)
  have ne: "dec_int i \<noteq> []" "dec_int i \<noteq> [45]" "dec_int i \<noteq> [46]"
    using d by (auto simp: dec_int_def isdigit_def abs_if)
  have "fst (strtoll (dec_int i)) = i" using strtoll_dec_int_end [OF assms(1,2)] by simp
  then show ?thesis
    using ne number_chars_digits [OF d(1), of False] assms(3) unfolding appendAsNumber_def body by simp
qed

lemma appendMinForType_appends: "appends (\<lambda>b. appendMinForType b n (vtype v)) n (min_value (vtype v))"
  using appends_scalars(4) [of n True] appends_scalars(4) [of n False] appends_scalars(3,6) appends_markers
    appends_cstr_empty appends_appendOID [of "replicate 12 0" n] appends_empty appends_binData [of "[]" 0 n 0 "[]"]
    appends_regex appends_dbref [of "replicate 12 0" n "[]"] appends_strings(2)
  by (cases v) (simp_all add: appendMinForType_def small_def int32_def)

lemma appendMaxForType_appends: "appends (\<lambda>b. appendMaxForType b n (vtype v)) n (max_value (vtype v))"
  using appends_scalars(4) [of n True] appends_scalars(3,5,6) appends_markers
    appends_appendOID [of "replicate 12 0xFF" n] appendMinForType_appends [of n "VObject []"]
    appendMinForType_appends [of n "VArray []"] appendMinForType_appends [of n "VBinData 0 []"]
    appendMinForType_appends [of n "VOID []"] appendMinForType_appends [of n "VDBRef [] []"]
    appendMinForType_appends [of n "VCode []"] appendMinForType_appends [of n "VCodeWScope [] []"]
    appendMinForType_appends [of n VMaxKey]
  by (cases v) (simp_all add: appendMaxForType_def)

section \<open>They are bounds\<close>

text \<open>The values for which the bounds hold.\<close>

fun bounded :: "bval \<Rightarrow> bool" where
  "bounded (VDouble w) = d_finite w"
| "bounded (VBool b) = (b = 0 \<or> b = 1)"
| "bounded (VCodeWScope c d) = (c \<noteq> [] \<and> hd c \<noteq> 0)"
| "bounded _ = True"

lemma single_le:
  assumes "vcanon v < vcanon w \<or> vcanon v = vcanon w \<and> key_cmp v w \<le> 0 \<and> subdoc (Some v) = []"
  shows "doc_cmp [(n, v)] [(n, w)] \<le> 0"
proof -
  let ?k = "ddepth [(n, v)]"
  have lex: "lex_cmp c [] ys \<le> 0" for c :: "byte list \<times> bval \<Rightarrow> byte list \<times> bval \<Rightarrow> int" and ys
    by (cases ys) simp_all
  have "vcmp ?k v w \<le> 0" if "vcanon v = vcanon w"
    using assms that by (cases ?k) (auto simp: then_cmp_def lex)
  then show ?thesis
    using assms by (auto simp: doc_cmp_def field_cmp_def then_cmp_def vcanon_cmp_def cmp_key_def)
qed

lemma bytes_cmp_zeros: "length x = k \<Longrightarrow> bytes_cmp (replicate k 0) x \<le> 0"
proof (induction k arbitrary: x)
  case (Suc k)
  then obtain c y where "x = c # y" "length y = k" by (cases x) auto
  then show ?case using Suc.IH [of y] by (auto simp: byte_cmp_def cmp_key_def)
qed simp

lemma bytes_cmp_ones: "length x = k \<Longrightarrow> bytes_cmp x (replicate k 0xFF) \<le> 0"
proof (induction k arbitrary: x)
  case (Suc k)
  then obtain c y where x: "x = c # y" "length y = k" by (cases x) auto
  have "unat c < 256" using unsigned_less [of c] by simp
  then have "unat c \<le> 255" by linarith
  then show ?case using Suc.IH [of y] x by (auto simp: byte_cmp_def cmp_key_def)
qed simp

lemma finite_key:
  assumes "d_finite w"
  shows "d_key neg_dbl_max \<le> d_key w" "d_key w \<le> d_key dbl_max"
proof -
  have "d_mag w < 2047 * 2 ^ 52" using assms by (simp add: d_finite_def d_exp_def less_mult_imp_div_less div_less_iff_less_mult)
  moreover have "d_key dbl_max = 2047 * 2 ^ 52 - 1" "d_key neg_dbl_max = - (2047 * 2 ^ 52 - 1)"
    by (simp_all add: d_key_def d_neg_def d_mag_def dbl_max_def neg_dbl_max_def)
  ultimately show "d_key neg_dbl_max \<le> d_key w" "d_key w \<le> d_key dbl_max" by (auto simp: d_key_def)
qed

lemma finite_scaled:
  assumes "d_finite w"
  shows "d_scaled neg_dbl_max \<le> d_scaled w" "d_scaled w \<le> d_scaled dbl_max"
  using finite_key [OF assms] d_key_scaled [of w neg_dbl_max] d_key_scaled [of dbl_max w] by linarith+

lemma int_scaled:
  assumes "\<bar>m\<bar> \<le> 2 ^ 53"
  shows "d_scaled neg_dbl_max \<le> m * 2 ^ 1074" "m * 2 ^ 1074 \<le> d_scaled dbl_max"
proof -
  have w: "d_finite 0x4340000000000000" "d_finite 0xC340000000000000"
    by (simp_all add: d_finite_def d_exp_def d_mag_def)
  have "(2 :: int) ^ 52 * 2 ^ 1075 = 2 ^ 53 * 2 ^ 1074" by (simp only: power_add [symmetric]) simp
  then have e: "((2 :: int) ^ 52 + int 0) * 2 ^ (1076 - 1) = 2 ^ 53 * 2 ^ 1074" by (simp del: power_numeral)
  have f: "d_exp 0x4340000000000000 = 1076" "d_frac 0x4340000000000000 = 0" "\<not> d_neg 0x4340000000000000"
      "d_exp 0xC340000000000000 = 1076" "d_frac 0xC340000000000000 = 0" "d_neg 0xC340000000000000"
    by (simp_all add: d_exp_def d_frac_def d_neg_def d_mag_def)
  have p: "d_scaled 0x4340000000000000 = 2 ^ 53 * 2 ^ 1074" "d_scaled 0xC340000000000000 = - (2 ^ 53 * 2 ^ 1074)"
    unfolding d_scaled_def Let_def f(1,2,4,5) using e f(3,6) by (simp_all del: power_numeral)
  have m: "m \<le> 2 ^ 53" "- (2 ^ 53) \<le> m" using assms by linarith+
  have "m * 2 ^ 1074 \<le> 2 ^ 53 * 2 ^ 1074" by (rule mult_right_mono [OF m(1)]) (rule zero_le_power, simp)
  moreover have "- (2 ^ 53) * 2 ^ 1074 \<le> m * 2 ^ 1074" by (rule mult_right_mono [OF m(2)]) (rule zero_le_power, simp)
  ultimately show "d_scaled neg_dbl_max \<le> m * 2 ^ 1074" "m * 2 ^ 1074 \<le> d_scaled dbl_max"
    using finite_scaled(1) [OF w(2)] finite_scaled(2) [OF w(1)] unfolding p by (simp_all only: mult_minus_left)
qed

lemma vnum_bounds:
  assumes "isNumber_type (vtype v)" "orderable v" "bounded v"
  shows "d_scaled neg_dbl_max \<le> vnum v" "vnum v \<le> d_scaled dbl_max"
proof -
  have "d_scaled neg_dbl_max \<le> vnum v \<and> vnum v \<le> d_scaled dbl_max"
  proof (cases v)
    case (VDouble w)
    then have "\<not> d_nan w" using assms(3) by (auto simp: d_nan_def d_finite_def)
    then show ?thesis using VDouble assms(3) finite_scaled by simp
  next
    case (VInt n)
    have "\<bar>sint n\<bar> \<le> 2 ^ 53" using sint32_bound [of n] by simp
    then show ?thesis using VInt int_scaled by simp
  next
    case (VLong n)
    then have "\<bar>sint n\<bar> \<le> 2 ^ 53" using assms(2) by simp
    then show ?thesis using VLong int_scaled by simp
  qed (use assms(1) in simp_all)
  then show "d_scaled neg_dbl_max \<le> vnum v" "vnum v \<le> d_scaled dbl_max" by simp_all
qed

lemma dbl_max_finite: "d_finite dbl_max" "d_finite neg_dbl_max" "\<not> d_nan dbl_max" "\<not> d_nan neg_dbl_max"
  by (simp_all add: d_finite_def d_nan_def d_exp_def d_mag_def dbl_max_def neg_dbl_max_def)

lemma key_number_bounds:
  assumes "isNumber_type (vtype v)" "orderable v" "bounded v"
  shows "key_cmp (VDouble neg_dbl_max) v \<le> 0" "key_cmp v (VDouble dbl_max) \<le> 0"
  using vnum_bounds [OF assms] key_cmp_number [of "VDouble neg_dbl_max" v] key_cmp_number [of v "VDouble dbl_max"]
    assms(1) dbl_max_finite by (simp_all add: cmp_key_def)

lemma bytes_cmp_Nil: "bytes_cmp [] x \<le> 0"
  by (cases x) simp_all

lemma min_below:
  assumes "wf_value v" "orderable v" "bounded v"
  shows "doc_cmp [(n, min_value (vtype v))] [(n, v)] \<le> 0"
proof (rule single_le)
  have num: "isNumber_type (vtype v) \<Longrightarrow> key_cmp (VDouble neg_dbl_max) v \<le> 0"
    using key_number_bounds assms(2,3) by blast
  show "vcanon (min_value (vtype v)) < vcanon v \<or>
      vcanon (min_value (vtype v)) = vcanon v \<and> key_cmp (min_value (vtype v)) v \<le> 0 \<and>
      subdoc (Some (min_value (vtype v))) = []"
  proof (cases v)
    case (VCodeWScope c d)
    then obtain a r where "c = a # r" "a \<noteq> 0" using assms(3) by (cases c) auto
    then show ?thesis using VCodeWScope by (simp add: key_cmp_same cut_def cmp_key_def)
  next
    case (VDBRef ns x)
    then have "bytes_cmp (replicate 12 0) x \<le> 0" using assms(1) bytes_cmp_zeros [of x 12] by simp
    then show ?thesis using VDBRef by (auto simp: key_cmp_same cmp_key_def)
  next
    case (VBinData t x)
    then show ?thesis by (auto simp: key_cmp_same cmp_key_def byte_cmp_def)
  next
    case (VOID x)
    then have "bytes_cmp (replicate 12 0) x \<le> 0" using assms(1) bytes_cmp_zeros [of x 12] by simp
    then show ?thesis using VOID by (simp add: key_cmp_same cmp_key_def)
  next
    case (VBool b)
    then show ?thesis using assms(3) by (auto simp: key_cmp_same cmp_key_def)
  qed (use num assms bytes_cmp_Nil key_order.cmp_refl in \<open>simp_all add: key_cmp_same cmp_key_def\<close>)
qed

lemma max_above:
  assumes "wf_value v" "orderable v" "bounded v"
  shows "doc_cmp [(n, v)] [(n, max_value (vtype v))] \<le> 0"
proof (rule single_le)
  have num: "isNumber_type (vtype v) \<Longrightarrow> key_cmp v (VDouble dbl_max) \<le> 0"
    using key_number_bounds assms(2,3) by blast
  show "vcanon v < vcanon (max_value (vtype v)) \<or>
      vcanon v = vcanon (max_value (vtype v)) \<and> key_cmp v (max_value (vtype v)) \<le> 0 \<and> subdoc (Some v) = []"
  proof (cases v)
    case (VDate w)
    have "sint w \<le> 0x7FFFFFFFFFFFFFFF" using sint_lt [of w] by simp
    then show ?thesis using VDate by (auto simp: key_cmp_same cmp_key_def)
  next
    case (VOID x)
    then have "bytes_cmp x (replicate 12 0xFF) \<le> 0" using assms(1) bytes_cmp_ones [of x 12] by simp
    then show ?thesis using VOID by (simp add: key_cmp_same cmp_key_def)
  next
    case (VBool b)
    then show ?thesis using assms(3) by (auto simp: key_cmp_same cmp_key_def)
  qed (use num assms key_order.cmp_refl in \<open>simp_all add: key_cmp_same cmp_key_def\<close>)
qed

lemma bounds_wf:
  assumes "nul_free n" "length n < 2 ^ 20"
  shows "wf_doc [(n, min_value t)]" "wf_doc [(n, max_value t)]"
  using assms by (cases t; simp add: wf_doc_iff length_encode)+

lemma bounds_orderable:
  assumes "orderable v"
  shows "orderable (min_value (vtype v))" "orderable (max_value (vtype v))"
  using assms by (cases v; simp)+

lemma build_single:
  assumes "appends f n w" "wf_doc [(n, w)]"
  shows "rbind (bob_new k) (\<lambda>b. rbind (f b) obj) = Inr (encode [(n, w)])"
proof -
  obtain b where b: "bob_new k = Inr b" "builds b []" using bob_new_builds by blast
  obtain b' where "f b = Inr b'" "builds b' [(n, w)]" using appends_builds [OF assms(1) b(2)] assms(2) by auto
  then show ?thesis using b(1) obj_builds assms(2) by simp
qed

lemma agree_nonpos: "agree r c \<Longrightarrow> c \<le> 0 \<Longrightarrow> \<exists>x. r = Inr x \<and> x \<le> 0"
  by (auto simp: agree_def sgn_if split: if_splits)



text \<open>What lies outside the bounds: infinity, NaN, and code with scope when the code is empty.\<close>

lemma outside_bounds:
  "doc_cmp [(n, VDouble 0x7FF0000000000000)] [(n, max_value NumberDouble)] = 1"
  "doc_cmp [(n, VDouble 0x7FF8000000000000)] [(n, min_value NumberDouble)] = -1"
proof -
  have d: "d_key dbl_max < d_key 0x7FF0000000000000"
    by (simp add: d_key_def d_neg_def d_mag_def dbl_max_def)
  have nan: "d_nan 0x7FF8000000000000" "\<not> d_nan 0x7FF0000000000000"
    by (simp_all add: d_nan_def d_exp_def d_frac_def d_mag_def)
  have k: "key_cmp (VDouble a) (VDouble b) = cmp_key vnum (VDouble a) (VDouble b)" for a b
    by (rule key_cmp_number) simp_all
  show "doc_cmp [(n, VDouble 0x7FF0000000000000)] [(n, max_value NumberDouble)] = 1"
    "doc_cmp [(n, VDouble 0x7FF8000000000000)] [(n, min_value NumberDouble)] = -1"
    using d d_key_scaled [of dbl_max "0x7FF0000000000000"] nan dbl_max_finite nan_key_less [of neg_dbl_max]
    by (simp_all add: doc_cmp_def field_cmp_def then_cmp_def vcanon_cmp_def k cmp_key_def)
qed

lemma codeWScope_below_min:
  "doc_cmp [(n, VCodeWScope [] [(replicate 250 97, VNull)])] [(n, min_value CodeWScope)] = -1"
proof -
  have le4: "le_bytes 4 n = [of_nat (n mod 256), of_nat (n div 256 mod 256), of_nat (n div 256 div 256 mod 256),
      of_nat (n div 256 div 256 div 256 mod 256)]" for n
  proof -
    have "(4 :: nat) = Suc (Suc (Suc (Suc 0)))" by simp
    then show ?thesis by (simp only: le_bytes.simps)
  qed
  have "put32 (int32 257) = [1, 1, 0, 0]" "put32 (int32 5) = [5, 0, 0, 0]" by (simp_all add: put32_def int32_def le4)
  then have "vbytes2 (VCodeWScope [] [(replicate 250 97, VNull)]) = [1, 1]" "vbytes2 (VCodeWScope [] []) = [5]"
    by (simp_all add: after_nul_def cut_def encode_def enc_frame_def)
  then show ?thesis
    by (simp add: doc_cmp_def field_cmp_def then_cmp_def vcanon_cmp_def key_cmp_same cmp_key_def byte_cmp_def del: vbytes2.simps)
qed

end
