(* ===== verification/ElementAccess.thy ===== *)
theory ElementAccess
  imports CompareRefine JsonText Startup
begin

text \<open>
  The accessors of \<open>BSONElement\<close> that check the type (\<open>String()\<close>, \<open>Int()\<close> and so on), \<open>coerce\<close> and
  \<open>coerceVector\<close>, \<open>Vals\<close>, \<open>hexDump\<close>, and the extraction of typed fields with a status
  (\<open>bson/util/bson_extract.cpp\<close>).
\<close>

section \<open>Checked access\<close>

definition isBoolean :: "mem \<Rightarrow> bool res" where
  "isBoolean e = rmap (\<lambda>t. t = Bool) (elem_type e)"

definition booleanSafe :: "mem \<Rightarrow> bool res" where
  "booleanSafe e = rbind (isBoolean e) (\<lambda>z. if z then boolean e else Inr False)"

definition isNull :: "mem \<Rightarrow> bool res" where
  "isNull e = rmap (\<lambda>t. t = jstNULL) (elem_type e)"

definition elem_ok_nonempty :: "mem \<Rightarrow> bool res" where
  "elem_ok_nonempty e = rmap Not (eoo e)"

definition chk_expr :: "mem \<Rightarrow> bool \<Rightarrow> mem res" where
  "chk_expr e expr = massert 13118 expr (Inr e)"

definition String_checked :: "mem \<Rightarrow> byte list res" where
  "String_checked e = rbind (chk e String) (\<lambda>e. rbind (valuestr e) cstr)"

definition Number_checked :: "mem \<Rightarrow> (64 word) res" where
  "Number_checked e = rbind (isNumber e) (\<lambda>z. rbind (chk_expr e z) numberDouble)"

definition Double_checked :: "mem \<Rightarrow> (64 word) res" where
  "Double_checked e = rbind (chk e NumberDouble) numberDouble_raw"

definition Long_checked :: "mem \<Rightarrow> (64 word) res" where
  "Long_checked e = rbind (chk e NumberLong) numberLong_raw"

definition Int_checked :: "mem \<Rightarrow> (32 word) res" where
  "Int_checked e = rbind (chk e NumberInt) numberInt_raw"

definition Bool_checked :: "mem \<Rightarrow> bool res" where
  "Bool_checked e = rbind (chk e Bool) boolean"

definition OID_checked :: "mem \<Rightarrow> byte list res" where
  "OID_checked e = rbind (chk e jstOID) elem_oid"

definition Null_checked :: "mem \<Rightarrow> unit res" where
  "Null_checked e = rbind (isNull e) (\<lambda>z. rmap (\<lambda>_. ()) (chk_expr e z))"

definition OK_checked :: "mem \<Rightarrow> unit res" where
  "OK_checked e = rbind (elem_ok_nonempty e) (\<lambda>z. rmap (\<lambda>_. ()) (chk_expr e z))"

definition Obj_checked :: "mem \<Rightarrow> mem res" where
  "Obj_checked e = embeddedObjectUserCheck e"

definition elem_field :: "mem \<Rightarrow> byte list \<Rightarrow> mem res" where
  "elem_field e field = rbind (Obj_checked e) (\<lambda>o'. getField o' field)"

definition valuestrsafe :: "mem \<Rightarrow> mem res" where
  "valuestrsafe e = rbind (elem_type e) (\<lambda>t. if t = String then valuestr e else Inr [0])"

definition elem_str :: "mem \<Rightarrow> byte list res" where
  "elem_str e = rbind (elem_type e) (\<lambda>t. if t = String then value_string e else Inr [])"

section \<open>Coercion\<close>

definition coerce_string :: "mem \<Rightarrow> byte list option res" where
  "coerce_string e = rbind (elem_type e) (\<lambda>t. if t \<noteq> String then Inr None else rmap Some (String_checked e))"

definition coerce_int :: "mem \<Rightarrow> (32 word) option res" where
  "coerce_int e = rbind (isNumber e) (\<lambda>z. if \<not> z then Inr None else rmap Some (numberInt e))"

definition coerce_double :: "mem \<Rightarrow> (64 word) option res" where
  "coerce_double e = rbind (isNumber e) (\<lambda>z. if \<not> z then Inr None else rmap Some (numberDouble e))"

definition coerce_bool :: "mem \<Rightarrow> bool option res" where
  "coerce_bool e = rmap Some (trueValue e)"

text \<open>
  Whether all elements could be coerced, and the values put at the end of the vector; those before the first
  that fails stay there.
\<close>

definition coerceVector :: "(mem \<Rightarrow> 'a option res) \<Rightarrow> mem \<Rightarrow> 'a list \<Rightarrow> (bool \<times> 'a list) res" where
  "coerceVector coerce ob out =
     rbind (iter_of ob) (\<lambda>i. ret_or (\<lambda>out. Inr (True, out))
       (while_more i (\<lambda>out e. rmap (\<lambda>t. case t of None \<Rightarrow> Ret (False, out) | Some x \<Rightarrow> Go (out @ [x])) (coerce e)) out))"

definition coerce_strings :: "mem \<Rightarrow> byte list list \<Rightarrow> (bool \<times> byte list list) res" where
  "coerce_strings e out =
     rbind (elem_type e) (\<lambda>t.
       if t \<noteq> Array then Inr (False, out) else rbind (Obj_checked e) (\<lambda>ob. coerceVector coerce_string ob out))"

definition Vals :: "(mem \<Rightarrow> 'a res) \<Rightarrow> mem \<Rightarrow> 'a list \<Rightarrow> 'a list res" where
  "Vals val ob v =
     rbind (iter_of ob) (\<lambda>i. ret_or Inr (while_more i (\<lambda>v e. rmap (\<lambda>t. Go (v @ [t])) (val e)) v))"

section \<open>Hex dump\<close>

definition dump_byte :: "byte \<Rightarrow> byte list" where
  "dump_byte c =
     toHexLower [c] @ (if 48 \<le> c \<and> c \<le> 57 \<or> 65 \<le> c \<and> c \<le> 122 then [39, c, 39] else [])"

fun dump_bytes :: "byte list \<Rightarrow> byte list" where
  "dump_bytes [] = []"
| "dump_bytes [c] = dump_byte c"
| "dump_bytes (c # cs) = dump_byte c @ 32 # dump_bytes cs"

definition hexDump :: "mem \<Rightarrow> byte list res" where
  "hexDump ob = rbind (objsize ob) (\<lambda>n. rmap dump_bytes (read_bytes ob (if sint n < 0 then 0 else unat n)))"

section \<open>Extraction with a status\<close>

definition bsonExtractField :: "mem \<Rightarrow> byte list \<Rightarrow> mem \<Rightarrow> (Status \<times> mem) res" where
  "bsonExtractField ob name out =
     rbind (getField ob name) (\<lambda>e. rmap (\<lambda>z. if z then (mk_status NoSuchKey name, out) else (status_OK, e)) (eoo e))"

definition bsonExtractTypedField :: "mem \<Rightarrow> byte list \<Rightarrow> BSONType \<Rightarrow> mem \<Rightarrow> (Status \<times> mem) res" where
  "bsonExtractTypedField ob name t out =
     rbind (bsonExtractField ob name out) (\<lambda>(st, e).
       if st_code st \<noteq> OK then Inr (st, e)
       else rmap (\<lambda>t'. (if t \<noteq> t' then mk_status TypeMismatch
                            (bs ''Expected '' @ bs (typeName t) @ bs '' found '' @ bs (typeName t'))
                          else status_OK, e)) (elem_type e))"

definition bsonExtractBooleanFieldWithDefault ::
  "mem \<Rightarrow> byte list \<Rightarrow> bool \<Rightarrow> bool \<Rightarrow> (Status \<times> bool) res" where
  "bsonExtractBooleanFieldWithDefault ob name defaultValue out =
     rbind (bsonExtractField ob name eooElement) (\<lambda>(st, e).
       if st_code st = NoSuchKey then Inr (status_OK, defaultValue)
       else if st_code st \<noteq> OK then Inr (st, out)
       else rbind (isNumber e) (\<lambda>num. rbind (isBoolean e) (\<lambda>b.
         if \<not> num \<and> \<not> b then Inr (mk_status TypeMismatch (bs ''Expected boolean or number type''), out)
         else rmap (Pair status_OK) (trueValue e))))"

definition bsonExtractStringField :: "mem \<Rightarrow> byte list \<Rightarrow> byte list \<Rightarrow> (Status \<times> byte list) res" where
  "bsonExtractStringField ob name out =
     rbind (bsonExtractTypedField ob name String eooElement) (\<lambda>(st, e).
       if st_code st \<noteq> OK then Inr (st, out) else rmap (Pair status_OK) (elem_str e))"

definition bsonExtractStringFieldWithDefault ::
  "mem \<Rightarrow> byte list \<Rightarrow> byte list \<Rightarrow> byte list \<Rightarrow> (Status \<times> byte list) res" where
  "bsonExtractStringFieldWithDefault ob name defaultValue out =
     rbind (bsonExtractStringField ob name out) (\<lambda>(st, x).
       if st_code st = NoSuchKey then Inr (status_OK, defaultValue)
       else if st_code st \<noteq> OK then Inr (st, x)
       else Inr (status_OK, x))"

section \<open>On encoded documents\<close>

text \<open>\<open>str\<close> returns the whole string, \<open>String\<close> only what is before the first zero.\<close>

lemma string_access:
  assumes "elem_ok n (VString s)"
  shows "elem_str (enc_elem n (VString s) @ t) = Inr s" "String_checked (enc_elem n (VString s) @ t) = Inr (cut s)"
proof -
  note r = elem_ok_string [OF assms vstring.simps(1)]
  have "cstr (s @ 0 # t) = Inr (cut s)" by (induction s) (auto simp: cut_def)
  then show "String_checked (enc_elem n (VString s) @ t) = Inr (cut s)"
    using r(2) [of t] by (simp add: String_checked_def chk_def)
  have "int32 (Suc (length s)) - 1 = int32 (length s)" by (simp add: int32_def)
  moreover have "sint (int32 (length s)) = int (length s)" using r(3) by (intro sint_int32) simp
  ultimately show "elem_str (enc_elem n (VString s) @ t) = Inr s"
    using r(1,2) [of t] by (simp add: elem_str_def value_string_def std_string_def read_bytes_def)
qed

lemma coerceVector_each:
  assumes "\<And>n v m. (n, v) \<in> set d \<Longrightarrow> coerce (enc_elem n v @ m) = Inr (g v)"
  shows "ret_or (\<lambda>out. Inr (True, out)) (each (\<lambda>out e. rmap (\<lambda>t. case t of None \<Rightarrow> Ret (False, out)
      | Some x \<Rightarrow> Go (out @ [x])) (coerce e)) out (elem_ptrs d q)) =
    Inr (\<forall>(n, v) \<in> set d. g v \<noteq> None, out @ map the (takeWhile (\<lambda>x. x \<noteq> None) (map (\<lambda>(n, v). g v) d)))"
  using assms
proof (induction d arbitrary: out)
  case (Cons a d)
  obtain n v where a: "a = (n, v)" by (cases a)
  have "coerce (enc_elem n v @ enc_elems d @ q) = Inr (g v)" using Cons.prems by (simp add: a)
  then show ?case using Cons by (cases "g v") (auto simp: a)
qed simp

text \<open>The elements of a document are coerced in order, up to the first that cannot be.\<close>

lemma coerceVector_enc:
  assumes "wf_doc d" "\<And>n v m. (n, v) \<in> set d \<Longrightarrow> coerce (enc_elem n v @ m) = Inr (g v)"
  shows "coerceVector coerce (encode d @ r) out =
    Inr (\<forall>(n, v) \<in> set d. g v \<noteq> None, out @ map the (takeWhile (\<lambda>x. x \<noteq> None) (map (\<lambda>(n, v). g v) d)))"
  using coerceVector_each [of d coerce g out "0 # r"] assms by (simp add: coerceVector_def)

fun the_string :: "bval \<Rightarrow> byte list option" where
  "the_string (VString s) = Some (cut s)"
| "the_string _ = None"

lemma coerce_string_enc:
  assumes "elem_ok n v"
  shows "coerce_string (enc_elem n v @ m) = Inr (the_string v)"
  using assms string_access(2) by (cases v) (simp_all add: coerce_string_def)

lemma coerce_strings_enc:
  assumes "elem_ok n (VArray d)" "wf_doc d"
  shows "coerce_strings (enc_elem n (VArray d) @ t) out =
    Inr (\<forall>(n, v) \<in> set d. the_string v \<noteq> None,
      out @ map the (takeWhile (\<lambda>x. x \<noteq> None) (map (\<lambda>(n, v). the_string v) d)))"
proof -
  have "elem_ok m v" if "(m, v) \<in> set d" for m v using wf_docD(4) [OF assms(2)] that by (auto simp: elems_ok_def)
  then have "coerceVector coerce_string (encode d @ t) out = Inr (\<forall>(n, v) \<in> set d. the_string v \<noteq> None,
      out @ map the (takeWhile (\<lambda>x. x \<noteq> None) (map (\<lambda>(n, v). the_string v) d)))"
    by (intro coerceVector_enc [OF assms(2)] coerce_string_enc) blast
  moreover have "bson_obj (enc_frame (enc_elems d) @ t) = Inr (encode d @ t)"
    using bson_obj_encode [OF assms(2), of t] by (simp add: encode_def)
  ultimately show ?thesis
    using assms(1) by (simp add: coerce_strings_def Obj_checked_def embeddedObjectUserCheck_def isABSONObj_def)
qed

text \<open>Extraction of a string and of a boolean, by the value the document has under the name.\<close>

definition mismatch :: "BSONType \<Rightarrow> BSONType \<Rightarrow> Status" where
  "mismatch t t' = mk_status TypeMismatch (bs ''Expected '' @ bs (typeName t) @ bs '' found '' @ bs (typeName t'))"

lemma status_codes [simp]: "st_code status_OK = OK" "st_code (mk_status c r) = c" "st_code (mismatch t t') = TypeMismatch"
  by (simp_all add: status_OK_def mk_status_def mismatch_def)

lemma bsonExtractTypedField_enc:
  assumes "wf_doc d"
  shows "\<exists>e. bsonExtractTypedField (encode d @ r) name t out = Inr
      (case map_of d name of None \<Rightarrow> (mk_status NoSuchKey name, out)
       | Some v \<Rightarrow> (if vtype v = t then status_OK else mismatch t (vtype v), e)) \<and>
    (\<forall>v. map_of d name = Some v \<longrightarrow> denotes e name (Some v))"
proof -
  obtain e where e: "getField (encode d @ r) name = Inr e" "denotes e name (map_of d name)"
    using getField_denotes [OF assms] by blast
  then show ?thesis
    using denotes_eoo [OF e(2)] denotes_type [OF e(2)]
    by (cases "map_of d name")
      (auto simp: bsonExtractTypedField_def bsonExtractField_def mismatch_def intro!: exI [of _ e])
qed

fun string_value :: "bval \<Rightarrow> byte list option" where
  "string_value (VString s) = Some s"
| "string_value _ = None"

lemma bsonExtractStringField_enc:
  assumes "wf_doc d"
  shows "bsonExtractStringField (encode d @ r) name out = Inr
    (case map_of d name of
       None \<Rightarrow> (mk_status NoSuchKey name, out)
     | Some v \<Rightarrow> (case string_value v of None \<Rightarrow> (mismatch String (vtype v), out) | Some s \<Rightarrow> (status_OK, s)))"
proof -
  obtain e where e: "bsonExtractTypedField (encode d @ r) name String eooElement = Inr
      (case map_of d name of None \<Rightarrow> (mk_status NoSuchKey name, eooElement)
       | Some v \<Rightarrow> (if vtype v = String then status_OK else mismatch String (vtype v), e))"
    "\<forall>v. map_of d name = Some v \<longrightarrow> denotes e name (Some v)"
    using bsonExtractTypedField_enc [OF assms] by blast
  show ?thesis
  proof (cases "map_of d name")
    case None
    then show ?thesis using e by (simp add: bsonExtractStringField_def)
  next
    case (Some v)
    then have "denotes e name (Some v)" using e(2) by blast
    then show ?thesis
      using Some e(1) string_access(1)
      by (cases v) (auto simp: bsonExtractStringField_def denotes_def)
  qed
qed

lemma bsonExtractStringFieldWithDefault_enc:
  assumes "wf_doc d"
  shows "bsonExtractStringFieldWithDefault (encode d @ r) name dflt out = Inr
    (case map_of d name of
       None \<Rightarrow> (status_OK, dflt)
     | Some v \<Rightarrow> (case string_value v of None \<Rightarrow> (mismatch String (vtype v), out) | Some s \<Rightarrow> (status_OK, s)))"
  by (simp add: bsonExtractStringFieldWithDefault_def bsonExtractStringField_enc [OF assms] split: option.split)

end
