(* ===== verification/JsonTermination.thy ===== *)
theory JsonTermination
  imports JsonParse "HOL-Library.Sublist"
begin

text \<open>
  The bound on the nesting that \<open>jvalue\<close> carries never decides a result: every handler consumes
  input before it reads a nested value, so the length of the input is bound enough.
\<close>

section \<open>Handlers consume input\<close>

lemma accept_shorter: "accept t s = Some r \<Longrightarrow> t \<noteq> [] \<Longrightarrow> length r < length s"
proof -
  assume a: "accept t s = Some r" and t: "t \<noteq> []"
  let ?c = "skip_space s"
  have c: "length ?c \<le> length s"
    unfolding skip_space_def by (rule length_dropWhile_le)
  have tc: "take (length t) ?c = t" "r = drop (length t) ?c"
    using a by (auto simp: accept_def Let_def split: if_splits)
  have "length t \<le> length ?c"
    using arg_cong [OF tc(1), of length] by simp
  moreover have "0 < length t" using t by simp
  moreover have "length r = length ?c - length t" using tc(2) by simp
  ultimately show "length r < length s" using c by linarith
qed

lemma expect_InrE:
  assumes "expect t msg s k = Inr y" "t \<noteq> []"
  obtains r where "length r < length s" "k r = Inr y"
  using assms accept_shorter [of t s] by (auto simp: expect_def jfail_def split: option.splits)

lemma chars_loop_shorter: "chars_loop ts al acc s = Inr (x, r) \<Longrightarrow> length r \<le> length s"
proof (induction "length s" arbitrary: s acc rule: less_induct)
  case less
  show ?case
  proof (cases s)
    case Nil
    then show ?thesis using less.prems by (simp add: jfail_def)
  next
    case (Cons c q)
    have hyp: "length r \<le> length q" if "chars_loop ts al acc' s' = Inr (x, r)" "length s' \<le> length q" for acc' s'
      using less.hyps [OF _ that(1)] that(2) Cons by simp
    have t: "length (tl q) \<le> length q" "length (drop 4 (tl q)) \<le> length q" by simp_all
    show ?thesis
      using less.prems unfolding Cons chars_loop.simps(2)
      by (auto simp: jfail_def Let_def rbind_Inr_iff dest!: hyp [OF _ t(1)] hyp [OF _ t(2)] hyp [OF _ order_refl]
          split: if_splits)
  qed
qed

lemma quotedString_shorter:
  assumes "quotedString s = Inr (x, r)"
  shows "length r < length s"
  using assms accept_shorter [of "[34]" s] accept_shorter [of "[39]" s]
  by (auto simp: quotedString_def jchars_def jfail_def rbind_Inr_iff split: option.splits
      elim!: expect_InrE dest!: chars_loop_shorter)

lemma jfield_shorter:
  assumes "jfield s = Inr (x, r)"
  shows "length r \<le> length s"
proof -
  have sk: "length (skip_space s) \<le> length s"
    unfolding skip_space_def by (rule length_dropWhile_le)
  show ?thesis
    using assms sk quotedString_shorter [of s x r]
    by (auto simp: jfield_def jchars_def jfail_def split: if_splits list.splits dest!: chars_loop_shorter)
qed

lemma expect_field_InrE:
  assumes "expect_field f msg s k = Inr y"
  obtains r where "length r \<le> length s" "k r = Inr y"
  using assms jfield_shorter [of s]
  by (auto simp: expect_field_def acceptField_def jfail_def split: option.splits sum.splits if_splits)

lemma appended_InrE:
  assumes "appended s m = Inr (r, b)"
  obtains "r = s"
  using assms by (auto simp: appended_def rmap_Inr_iff)

section \<open>Numbers\<close>

lemma suffix_dropWhile_trans: "suffix r (dropWhile P s) \<Longrightarrow> suffix r s"
  using suffix_dropWhile suffix_order.trans by blast

lemma extractSign_suffix: "extractSign s = (neg, t) \<Longrightarrow> suffix t s"
  by (auto simp: extractSign_def suffix_ConsI split: list.splits if_splits)

lemma scan_int_suffix: "scan_int s = Some (neg, n, r) \<Longrightarrow> suffix r s"
proof -
  assume a: "scan_int s = Some (neg, n, r)"
  obtain ng t where t: "extractSign (skip_space s) = (ng, t)" by force
  then have "suffix r t"
    using a suffix_dropWhile [of isdigit t] by (auto simp: scan_int_def Let_def split: if_splits)
  also have "suffix t (skip_space s)" using t by (rule extractSign_suffix)
  also have "suffix (skip_space s) s" unfolding skip_space_def by (rule suffix_dropWhile)
  finally show "suffix r s" .
qed

lemma strtoll_suffix: "strtoll s = (v, r, e) \<Longrightarrow> suffix r s"
  by (auto simp: strtoll_def dest: scan_int_suffix split: option.splits prod.splits if_splits)

lemma strtoull_suffix: "strtoull s = (v, r, e) \<Longrightarrow> suffix r s"
  by (auto simp: strtoull_def dest: scan_int_suffix split: option.splits prod.splits if_splits)

lemma scan_exp_suffix: "scan_exp m s = (e, r) \<Longrightarrow> suffix r s"
proof (cases s)
  case (Cons c t)
  assume a: "scan_exp m s = (e, r)"
  obtain ng u where u: "extractSign t = (ng, u)" by force
  have "suffix (dropWhile isdigit u) t"
    using suffix_dropWhile [of isdigit u] extractSign_suffix [OF u] by (rule suffix_order.trans)
  then show ?thesis
    using a u Cons by (auto simp: scan_exp_def Let_def suffix_ConsI split: if_splits)
qed (simp add: scan_exp_def)

lemma scan_mantissa_suffix: "scan_mantissa isd s = (ds, k, r) \<Longrightarrow> suffix r s"
proof -
  assume a: "scan_mantissa isd s = (ds, k, r)"
  have d: "suffix (dropWhile isd s) s" by (rule suffix_dropWhile)
  show "suffix r s"
  proof (cases "dropWhile isd s")
    case Nil
    then show ?thesis using a unfolding scan_mantissa_def Let_def Nil by simp
  next
    case (Cons c t)
    have "suffix (dropWhile isd t) (c # t)"
      using suffix_dropWhile [of isd t] by (rule suffix_ConsI)
    with a Cons d show ?thesis
      by (auto simp: scan_mantissa_def Let_def split: if_splits intro: suffix_order.trans)
  qed
qed

lemma scan_double_suffix: "scan_double s = Some (bits, r, e) \<Longrightarrow> suffix r s"
proof -
  assume a: "scan_double s = Some (bits, r, e)"
  obtain hds hfrac hr where h: "scan_mantissa isxdigit (drop 2 s) = (hds, hfrac, hr)" by (cases "scan_mantissa isxdigit (drop 2 s)")
  obtain ds frac dr where d: "scan_mantissa isdigit s = (ds, frac, dr)" by (cases "scan_mantissa isdigit s")
  obtain he hr2 where he: "scan_exp 112 hr = (he, hr2)" by force
  obtain de dr2 where de: "scan_exp 101 dr = (de, dr2)" by force
  have s1: "suffix hr2 s"
    using scan_exp_suffix [OF he] scan_mantissa_suffix [OF h] suffix_drop [of 2 s] by (meson suffix_order.trans)
  have s2: "suffix dr2 s"
    using scan_exp_suffix [OF de] scan_mantissa_suffix [OF d] by (meson suffix_order.trans)
  have s3: "suffix (drop (Suc 0) (dropWhile is_nan_char (drop (Suc 0) (drop 3 s)))) s"
    by (meson suffix_drop suffix_dropWhile suffix_order.trans)
  show "suffix r s"
    using a h d he de s1 s2 s3 suffix_drop [of 3 s] suffix_drop [of 8 s]
    by (auto simp: scan_double_def Let_def split: if_splits prod.splits)
qed

lemma strtod_suffix: "strtod s = (v, r, e) \<Longrightarrow> suffix r s"
proof -
  assume a: "strtod s = (v, r, e)"
  obtain ng t where t: "extractSign (skip_space s) = (ng, t)" by force
  have "suffix t s"
    using extractSign_suffix [OF t] suffix_dropWhile [of isspace s] unfolding skip_space_def
    by (rule suffix_order.trans)
  then show "suffix r s"
    using a t scan_double_suffix [of t]
    by (auto simp: strtod_def split: option.splits prod.splits intro: suffix_order.trans)
qed

lemma suffix_shorter: "suffix r s \<Longrightarrow> r \<noteq> s \<Longrightarrow> length r < length s"
  by (metis suffix_length_less strict_suffix_def)

lemma parse_millis_shorter: "parse_millis s = Inr (v, r) \<Longrightarrow> length r \<le> length s"
  by (auto simp: parse_millis_def jfail_def split: prod.splits if_splits
      dest!: strtoll_suffix strtoull_suffix suffix_length_le)

lemma parse_u32_shorter: "parse_u32 s = Inr (v, r) \<Longrightarrow> length r \<le> length s"
  by (auto simp: parse_u32_def jfail_def split: prod.splits if_splits
      dest!: strtoull_suffix suffix_length_le)

section \<open>Scalar handlers\<close>

definition consumes :: "jhandler \<Rightarrow> bool" where
  "consumes H \<longleftrightarrow> (\<forall>n s b s' b'. H n s b = Inr (s', b') \<longrightarrow> length s' \<le> length s)"

lemma consumesD: "consumes H \<Longrightarrow> H n s b = Inr (s', b') \<Longrightarrow> length s' \<le> length s"
  unfolding consumes_def by blast

lemmas consume_elims = expect_InrE expect_field_InrE appended_InrE rbind_InrE
lemmas consume_dests = quotedString_shorter parse_millis_shorter parse_u32_shorter chars_loop_shorter

lemma consumes_scalars:
  "consumes objectIdObject" "consumes dateObject" "consumes timestampObject" "consumes undefinedObject"
  "consumes jtimestamp" "consumes jobjectId" "consumes jregex" "consumes binaryObject"
  unfolding consumes_def objectIdObject_def dateObject_def timestampObject_def undefinedObject_def
    jtimestamp_def jobjectId_def jregex_def binaryObject_def regexPat_def regexOpt_def jchars_def
  by (auto simp: jfail_def split: if_splits elim!: consume_elims dest!: consume_dests)

lemma consumes_regexObject: "consumes regexObject"
  unfolding consumes_def regexObject_def
  by (auto split: option.splits elim!: consume_elims dest!: consume_dests accept_shorter)

lemma date_status_shorter: "date_status n s b = Inr (st, s', b') \<Longrightarrow> length s' \<le> length s"
  by (auto simp: date_status_def rmap_Inr_iff split: option.splits sum.splits
      dest!: accept_shorter parse_millis_shorter)

lemma consumes_date: "consumes jdate" "consumes jconstructor"
  unfolding consumes_def jdate_def jconstructor_def
  by (auto simp: jfail_def rmap_Inr_iff split: option.splits elim!: consume_elims dest!: date_status_shorter)

lemma jnumber_shorter: "jnumber n s b = Inr (s', b') \<Longrightarrow> length s' < length s"
  by (auto simp: jnumber_def jfail_def Let_def split: prod.splits if_splits elim!: rbind_InrE
      dest!: strtod_suffix intro: suffix_shorter)

lemma accept_word_shorter:
  "accept_word ws n s b = Inr (s', b') \<Longrightarrow> \<forall>(w, f) \<in> set ws. w \<noteq> [] \<Longrightarrow> length s' < length s"
  by (induction ws) (auto simp: jnumber_shorter split: option.splits elim!: appended_InrE dest: accept_shorter)

section \<open>Handlers with nested values\<close>

text \<open>
  \<open>shrinks k val\<close>: on inputs shorter than \<open>k\<close> a value takes at least one byte; \<open>agree k val val'\<close>:
  the two handlers agree on such inputs.
\<close>

definition shrinks :: "nat \<Rightarrow> jhandler \<Rightarrow> bool" where
  "shrinks k val \<longleftrightarrow>
     (\<forall>n s b s' b'. length s < k \<longrightarrow> val n s b = Inr (s', b') \<longrightarrow> length s' < length s)"

definition agree :: "nat \<Rightarrow> jhandler \<Rightarrow> jhandler \<Rightarrow> bool" where
  "agree k val val' \<longleftrightarrow> (\<forall>n s b. length s < k \<longrightarrow> val n s b = val' n s b)"

lemma shrinksD: "shrinks k val \<Longrightarrow> length s < k \<Longrightarrow> val n s b = Inr (s', b') \<Longrightarrow> length s' < length s"
  unfolding shrinks_def by blast

lemma agree_onD: "agree k val val' \<Longrightarrow> length s < k \<Longrightarrow> val n s b = val' n s b"
  by (simp add: agree_def)

lemma expect_cong_shorter:
  "t \<noteq> [] \<Longrightarrow> (\<And>r. length r < length s \<Longrightarrow> k r = k' r) \<Longrightarrow> expect t msg s k = expect t msg s k'"
  using accept_shorter [of t s] by (auto simp: expect_def split: option.splits)

lemma expect_field_cong_shorter:
  "(\<And>r. length r \<le> length s \<Longrightarrow> k r = k' r) \<Longrightarrow> expect_field f msg s k = expect_field f msg s k'"
  using jfield_shorter [of s]
  by (auto simp: expect_field_def acceptField_def split: option.splits sum.splits)

lemma members_loop_shorter:
  assumes "shrinks k val" "length s < k" "members_loop val j s b = Inr (s', b')"
  shows "length s' \<le> length s"
  using assms(2,3)
proof (induction j arbitrary: s b)
  case (Suc j)
  show ?case
  proof (cases "accept (bs '','') s")
    case (Some s1)
    then have "length s1 < length s" by (rule accept_shorter) simp
    then have l1: "length s1 < length s" "length s1 < k" using Suc.prems(1) by simp_all
    obtain f s2 s3 s4 b4 where *: "jfield s1 = Inr (f, s2)" "length s3 < length s2"
        "val f s3 b = Inr (s4, b4)" "members_loop val j s4 b4 = Inr (s', b')"
      using Suc.prems(2) Some by (auto elim!: rbind_InrE expect_InrE)
    have l3: "length s3 < length s" using jfield_shorter [OF *(1)] *(2) l1 by simp
    then have "length s4 < length s3" using shrinksD [OF assms(1) _ *(3)] Suc.prems(1) by simp
    with Suc.IH [OF _ *(4)] l3 Suc.prems(1) show ?thesis by simp
  qed (use Suc.prems in simp)
qed simp

lemma array_loop_shorter:
  assumes "shrinks k val" "length s < k" "array_loop val j i s b = Inr (s', b')"
  shows "length s' < length s"
  using assms(2,3)
proof (induction j arbitrary: i s b)
  case (Suc j)
  then obtain s1 b1 where s1: "val (numStr (sint i)) s b = Inr (s1, b1)"
    by (auto elim!: rbind_InrE)
  then have l: "length s1 < length s" using assms(1) Suc.prems(1) by (rule shrinksD [rotated 2])
  show ?case
  proof (cases "accept (bs '','') s1")
    case None
    then show ?thesis using Suc.prems(2) s1 l by simp
  next
    case (Some s2)
    then have "length s2 < length s1" by (rule accept_shorter) simp
    then show ?thesis using Suc.IH [of s2 "i + 1" b1] Suc.prems s1 Some l by simp
  qed
qed simp

lemma jmembers_shorter:
  assumes "shrinks k val" "length s \<le> k" "jmembers val n s b = Inr (s', b')"
  shows "length s' \<le> length s"
proof -
  obtain s1 s2 b2 where *: "length s1 < length s" "val n s1 b = Inr (s2, b2)"
      "members_loop val (Suc (length s2)) s2 b2 = Inr (s', b')"
    using assms(3) by (auto simp: jmembers_def elim!: rbind_InrE expect_InrE simp del: members_loop.simps)
  have "length s2 < length s1" using shrinksD [OF assms(1) _ *(2)] *(1) assms(2) by simp
  with members_loop_shorter [OF assms(1) _ *(3)] *(1) assms(2) show ?thesis by simp
qed

lemma normalObject_shorter:
  assumes "shrinks k val" "length s \<le> k" "normalObject val sub f n s b = Inr (s', b')"
  shows "length s' \<le> length s"
  using assms(3) jmembers_shorter [OF assms(1,2)]
  by (auto simp: normalObject_def rmap_Inr_iff split: if_splits elim!: rbind_InrE)

text \<open>The remaining input of a result has less than \<open>L\<close> bytes; rules for the steps of a handler.\<close>

definition leaves :: "nat \<Rightarrow> jresult \<Rightarrow> bool" where
  "leaves L m \<longleftrightarrow> (\<forall>s b. m = Inr (s, b) \<longrightarrow> length s < L)"

lemma leavesD: "leaves L m \<Longrightarrow> m = Inr (s, b) \<Longrightarrow> length s < L"
  unfolding leaves_def by blast

lemma leaves_mono: "leaves K m \<Longrightarrow> K \<le> L \<Longrightarrow> leaves L m"
  unfolding leaves_def by fastforce

lemma leaves_fail [simp]: "leaves L (Inl e)" "leaves L (jfail msg)"
  by (simp_all add: leaves_def jfail_def)

lemma leaves_return: "length s < L \<Longrightarrow> leaves L (Inr (s, b))"
  by (simp add: leaves_def)

lemma leaves_bind: "(\<And>x. m = Inr x \<Longrightarrow> leaves L (f x)) \<Longrightarrow> leaves L (rbind m f)"
  by (cases m) auto

lemma leaves_rmap: "length s < L \<Longrightarrow> leaves L (rmap (\<lambda>x. (s, f x)) m)"
  by (auto simp: leaves_def rmap_Inr_iff)

lemma leaves_appended: "length s < L \<Longrightarrow> leaves L (appended s m)"
  by (simp add: appended_def leaves_rmap)

lemma leaves_accept:
  assumes "t \<noteq> []" "\<And>r. accept t s = Some r \<Longrightarrow> length r < length s \<Longrightarrow> leaves L (f r)"
    and "accept t s = None \<Longrightarrow> leaves L g"
  shows "leaves L (case accept t s of Some r \<Rightarrow> f r | None \<Rightarrow> g)"
  using assms accept_shorter [of t s] by (cases "accept t s") auto

lemma leaves_expect:
  "t \<noteq> [] \<Longrightarrow> (\<And>r. length r < length s \<Longrightarrow> leaves L (k r)) \<Longrightarrow> leaves L (expect t msg s k)"
  using accept_shorter [of t s] by (cases "accept t s") (auto simp: expect_def)

lemma leaves_expect_field:
  "(\<And>r. length r \<le> length s \<Longrightarrow> leaves L (k r)) \<Longrightarrow> leaves L (expect_field f msg s k)"
  unfolding leaves_def by (metis expect_field_InrE)

lemma leaves_quoted:
  assumes "\<And>x r. length r < length s \<Longrightarrow> leaves L (f x r)"
  shows "leaves L (rbind (quotedString s) (\<lambda>(x, r). f x r))"
  using assms quotedString_shorter [of s] by (cases "quotedString s") auto

lemma leaves_val:
  assumes "shrinks k val" "length s < k" "\<And>r b'. length r < length s \<Longrightarrow> leaves L (f r b')"
  shows "leaves L (rbind (val n s b) (\<lambda>(r, b'). f r b'))"
proof (cases "val n s b")
  case (Inr p)
  obtain r b' where p: "p = (r, b')" by (cases p) auto
  then have "length r < length s" using shrinksD [OF assms(1,2)] Inr by blast
  then show ?thesis using assms(3) by (simp add: Inr p)
qed simp

lemma leaves_consumes: "consumes H \<Longrightarrow> leaves (Suc (length s)) (H n s b)"
  unfolding leaves_def consumes_def by (metis less_Suc_eq_le)

lemma rmap_snd: "rmap (\<lambda>(x, sub). (s, f sub)) m = rmap (\<lambda>p. (s, f (snd p))) m"
  by (simp add: case_prod_beta')

lemma dbRefObject_leaves:
  assumes "shrinks k val" "length s \<le> k"
  shows "leaves (Suc (length s)) (dbRefObject val n s b)"
  unfolding dbRefObject_def rmap_snd
  apply (rule leaves_bind)+
  apply (rule leaves_expect, simp)
  apply (rule leaves_quoted)
  apply (rule leaves_bind)
  apply (rule leaves_expect, simp)
  apply (rule leaves_expect_field)
  apply (rule leaves_expect, simp)
  apply (rule leaves_val [OF assms(1)])
  using assms(2) by (auto intro!: leaves_rmap)

lemma dbRef_leaves:
  assumes "shrinks k val" "length s \<le> k"
  shows "leaves (Suc (length s)) (dbRef val n s b)"
  unfolding dbRef_def rmap_snd
  apply (rule leaves_bind)+
  apply (rule leaves_expect, simp)
  apply (rule leaves_quoted)
  apply (rule leaves_bind)
  apply (rule leaves_expect, simp)
  apply (rule leaves_val [OF assms(1)])
  using assms(2) by (auto intro!: leaves_rmap leaves_expect)

lemma array_loop_leaves:
  assumes "shrinks k val" "length s < k"
  shows "leaves (Suc (length s)) (if c then array_loop val j i s b else Inr (s, b))"
proof (cases c)
  case True
  then show ?thesis
    using array_loop_shorter [OF assms] unfolding leaves_def by (metis less_SucI)
qed (simp add: leaves_def)

lemma leaves_if: "(c \<Longrightarrow> leaves L m) \<Longrightarrow> (\<not> c \<Longrightarrow> leaves L m') \<Longrightarrow> leaves L (if c then m else m')"
  by simp

lemma leaves_then:
  assumes "leaves K m" "\<And>r b. length r < K \<Longrightarrow> leaves L (f r b)"
  shows "leaves L (rbind m (\<lambda>(r, b). f r b))"
  using assms(2) leavesD [OF assms(1)] by (cases m) auto

lemma jarray_leaves:
  assumes "shrinks k val" "length s \<le> k"
  shows "leaves (length s) (jarray val n s b)"
  unfolding jarray_def
proof (rule leaves_expect, simp, rule leaves_bind, rule leaves_bind)
  fix r :: "byte list" and b1 sub
  assume r: "length r < length s"
  then have "length r < k" using assms(2) by simp
  from array_loop_leaves [OF assms(1) this]
  show "leaves (length s)
     (rbind (if accept (bs '']'') r = None then array_loop val (Suc (length r)) 0 r sub else Inr (r, sub))
       (\<lambda>(r, sub). rbind (done_obj sub) (\<lambda>(_, sub).
          expect (bs '']'') ''Expecting ] or ,'' r (\<lambda>r. Inr (r, bob_return b1 sub)))))"
    apply (rule leaves_then)
    apply (rule leaves_bind)
    subgoal for r' b' x
      using r by (cases x) (auto intro!: leaves_expect leaves_return)
    done
qed

lemma jregex_leaves: "leaves (length s) (jregex n s b)"
  unfolding jregex_def
proof (rule leaves_expect, simp)
  fix r :: "byte list"
  assume "length r < length s"
  then show "leaves (length s) (rbind (regexPat r) (\<lambda>(pat, s). expect (bs ''/'') ''Expecting /'' s (\<lambda>s.
      rbind (regexOpt s) (\<lambda>(opt, s). rbind (regexOptCheck opt) (\<lambda>_. appended s (appendRegex b n pat opt))))))"
    by (auto simp: leaves_def regexPat_def regexOpt_def jchars_def elim!: consume_elims dest!: chars_loop_shorter)
qed

lemma objectBody_leaves:
  assumes "shrinks k val" "length s \<le> k"
  shows "leaves (Suc (length s)) (objectBody val sub f n s b)"
proof -
  have "leaves (Suc (length s)) (normalObject val sub f n s b)"
    using normalObject_shorter [OF assms] unfolding leaves_def by (metis less_Suc_eq_le)
  with dbRefObject_leaves [OF assms] leaves_consumes [OF consumes_regexObject]
    consumes_scalars [THEN leaves_consumes]
  show ?thesis by (simp add: objectBody_def reserved_in_base_def del: bs_simps)
qed

lemma emptyObject_leaves: "leaves (Suc (length s)) (emptyObject sub n s b)"
  unfolding emptyObject_def rmap_snd by (auto intro!: leaves_bind leaves_rmap leaves_return)

lemma jobject_leaves:
  assumes "shrinks k val" "length s \<le> k"
  shows "leaves (length s) (jobject val sub n s b)"
  unfolding jobject_def
proof (rule leaves_expect, simp, rule leaves_accept, simp)
  fix r s1 :: "byte list"
  assume "length r < length s" "length s1 < length r"
  then show "leaves (length s) (emptyObject sub n s1 b)"
    by (intro leaves_mono [OF emptyObject_leaves]) simp
next
  fix r :: "byte list"
  assume r: "length r < length s"
  show "leaves (length s) (rbind (jfield r) (\<lambda>(f, s1). rbind (objectBody val sub f n s1 b)
      (\<lambda>(s2, b). expect (bs ''}'') ''Expecting } or ,'' s2 (\<lambda>s. Inr (s, b)))))"
  proof (rule leaves_bind)
    fix x
    assume "jfield r = Inr x"
    then obtain f s1 where x: "x = (f, s1)" "length s1 \<le> length r"
      using jfield_shorter [of r] by (cases x) auto
    then have "length s1 \<le> k" using r assms(2) by simp
    then show "leaves (length s) (case x of (f, s1) \<Rightarrow> rbind (objectBody val sub f n s1 b)
        (\<lambda>(s2, b). expect (bs ''}'') ''Expecting } or ,'' s2 (\<lambda>s. Inr (s, b))))"
      unfolding x(1) prod.case using x(2) r
      by (intro leaves_then [OF objectBody_leaves [OF assms(1)]]) (auto intro!: leaves_expect leaves_return)
  qed
qed

lemma accept_word_leaves: "leaves (length s) (accept_word jwords n s b)"
  using accept_word_shorter [of jwords n s b] unfolding leaves_def by (auto simp: jwords_def)

lemma value_leaves:
  assumes "shrinks k val" "length s \<le> k"
  shows "leaves (length s) (value_with val n s b)"
proof -
  have c: "leaves (length s) (H n r b)" if "consumes H" "length r < length s" for H r
    using leaves_mono [OF leaves_consumes [OF that(1)]] that(2) by (simp add: Suc_le_eq)
  have d: "leaves (length s) (dbRef val n r b)" if "length r < length s" for r
    using leaves_mono [OF dbRef_leaves [OF assms(1)]] that assms(2) by (simp add: Suc_le_eq)
  have q: "leaves (length s) (rbind (quotedString s) (\<lambda>(v, s). appended s (append_str b n v)))"
    by (rule leaves_quoted) (rule leaves_appended)
  show ?thesis
    unfolding value_with_def
    by (intro leaves_if leaves_accept d q jobject_leaves [OF assms] jarray_leaves [OF assms] jregex_leaves
        accept_word_leaves consumes_date [THEN c] consumes_scalars [THEN c]) simp_all
qed

section \<open>Agreement\<close>

lemma members_loop_agree:
  assumes "agree k val val'" "shrinks k val'" "length s < k"
  shows "members_loop val j s b = members_loop val' j s b"
  using assms(3)
proof (induction j arbitrary: s b)
  case (Suc j)
  show ?case
  proof (cases "accept (bs '','') s")
    case (Some r)
    then have r: "length r < length s" by (rule accept_shorter) simp
    have "rbind (val f s2 b) (\<lambda>(s, b). members_loop val j s b) =
        rbind (val' f s2 b) (\<lambda>(s, b). members_loop val' j s b)" if "length s2 < length s" for f s2
    proof -
      have e: "val f s2 b = val' f s2 b" using that Suc.prems by (intro agree_onD [OF assms(1)]) simp
      show ?thesis
      proof (cases "val' f s2 b")
        case (Inr p)
        obtain s3 b3 where p: "p = (s3, b3)" by (cases p) auto
        then have "length s3 < length s2"
          using shrinksD [OF assms(2) _ Inr [unfolded p]] that Suc.prems by simp
        then show ?thesis using Suc.IH [of s3 b3] that Suc.prems by (simp add: e Inr p)
      qed (simp add: e)
    qed
    moreover have "expect (bs '':'') msg s1 (\<lambda>s. rbind (val f s b) (\<lambda>(s, b). members_loop val j s b)) =
        expect (bs '':'') msg s1 (\<lambda>s. rbind (val' f s b) (\<lambda>(s, b). members_loop val' j s b))"
      if "length s1 \<le> length r" for msg f s1
      using that r calculation by (intro expect_cong_shorter) (simp_all del: bs_simps, simp)
    ultimately show ?thesis
      using jfield_shorter [of r] by (cases "jfield r") (auto simp: Some simp del: bs_simps)
  qed simp
qed simp

lemma array_loop_agree:
  assumes "agree k val val'" "shrinks k val'" "length s < k"
  shows "array_loop val j i s b = array_loop val' j i s b"
  using assms(3)
proof (induction j arbitrary: i s b)
  case (Suc j)
  have e: "val n s b = val' n s b" for n using assms(1) Suc.prems by (rule agree_onD)
  show ?case
  proof (cases "val' (numStr (sint i)) s b")
    case (Inr p)
    obtain s1 b1 where p: "p = (s1, b1)" by (cases p) auto
    then have l: "length s1 < length s"
      using shrinksD [OF assms(2) Suc.prems] Inr by blast
    show ?thesis
    proof (cases "accept (bs '','') s1")
      case (Some s2)
      then have "length s2 < length s1" by (rule accept_shorter) simp
      then show ?thesis using Suc.IH [of s2 "i + 1" b1] l Suc.prems by (simp add: e Inr p Some del: bs_simps)
    qed (simp add: e Inr p del: bs_simps)
  qed (simp add: e)
qed simp

lemma jmembers_agree:
  assumes "agree k val val'" "shrinks k val'" "length s \<le> k"
  shows "jmembers val n s b = jmembers val' n s b"
  unfolding jmembers_def
proof (rule expect_cong_shorter, simp)
  fix r :: "byte list"
  assume "length r < length s"
  then have r: "length r < k" using assms(3) by simp
  have e: "val n r b = val' n r b" using assms(1) r by (rule agree_onD)
  show "rbind (val n r b) (\<lambda>(s, b). members_loop val (Suc (length s)) s b) =
      rbind (val' n r b) (\<lambda>(s, b). members_loop val' (Suc (length s)) s b)"
  proof (cases "val' n r b")
    case (Inr p)
    obtain s1 b1 where p: "p = (s1, b1)" by (cases p) auto
    then have "length s1 < k"
      using shrinksD [OF assms(2) r] Inr r by fastforce
    from members_loop_agree [OF assms(1,2) this] show ?thesis by (simp add: e Inr p del: members_loop.simps)
  qed (simp add: e)
qed

lemma normalObject_agree:
  assumes "agree k val val'" "shrinks k val'" "length s \<le> k"
  shows "normalObject val sub f n s b = normalObject val' sub f n s b"
  unfolding normalObject_def jmembers_agree [OF assms] ..

lemma quoted_cong:
  assumes "\<And>x r. length r < length s \<Longrightarrow> f x r = g x r"
  shows "rbind (quotedString s) (\<lambda>(x, r). f x r) = rbind (quotedString s) (\<lambda>(x, r). g x r)"
  using assms quotedString_shorter [of s] by (cases "quotedString s") auto

lemma val_cong:
  assumes "agree k val val'" "length s < k"
  shows "rbind (val n s b) f = rbind (val' n s b) f"
  using agree_onD [OF assms] by simp

lemma dbRefObject_agree:
  assumes "agree k val val'" "length s \<le> k"
  shows "dbRefObject val n s b = dbRefObject val' n s b"
  unfolding dbRefObject_def
  apply (rule rbind_cong [OF refl])+
  apply (rule expect_cong_shorter, simp)
  apply (rule quoted_cong)
  apply (rule rbind_cong [OF refl])
  apply (rule expect_cong_shorter, simp)
  apply (rule expect_field_cong_shorter)
  apply (rule expect_cong_shorter, simp)
  apply (rule val_cong [OF assms(1)])
  using assms(2) by simp

lemma dbRef_agree:
  assumes "agree k val val'" "length s \<le> k"
  shows "dbRef val n s b = dbRef val' n s b"
  unfolding dbRef_def
  apply (rule rbind_cong [OF refl])+
  apply (rule expect_cong_shorter, simp)
  apply (rule quoted_cong)
  apply (rule rbind_cong [OF refl])
  apply (rule expect_cong_shorter, simp)
  apply (rule val_cong [OF assms(1)])
  using assms(2) by simp

lemma jarray_agree:
  assumes "agree k val val'" "shrinks k val'" "length s \<le> k"
  shows "jarray val n s b = jarray val' n s b"
  unfolding jarray_def
proof (rule expect_cong_shorter, simp)
  fix r :: "byte list"
  assume "length r < length s"
  then have r: "length r < k" using assms(3) by simp
  show "rbind (subarrayStart b n) (\<lambda>b. rbind (bob_sub (bob_b b)) (\<lambda>sub.
     rbind (if accept (bs '']'') r = None then array_loop val (Suc (length r)) 0 r sub else Inr (r, sub))
       (\<lambda>(s, sub). rbind (done_obj sub) (\<lambda>(_, sub).
     expect (bs '']'') ''Expecting ] or ,'' s (\<lambda>s. Inr (s, bob_return b sub)))))) =
    rbind (subarrayStart b n) (\<lambda>b. rbind (bob_sub (bob_b b)) (\<lambda>sub.
     rbind (if accept (bs '']'') r = None then array_loop val' (Suc (length r)) 0 r sub else Inr (r, sub))
       (\<lambda>(s, sub). rbind (done_obj sub) (\<lambda>(_, sub).
     expect (bs '']'') ''Expecting ] or ,'' s (\<lambda>s. Inr (s, bob_return b sub))))))"
    unfolding array_loop_agree [OF assms(1,2) r] ..
qed

lemma objectBody_agree:
  assumes "agree k val val'" "shrinks k val'" "length s \<le> k"
  shows "objectBody val sub f n s b = objectBody val' sub f n s b"
  unfolding objectBody_def dbRefObject_agree [OF assms(1,3)] normalObject_agree [OF assms] ..

lemma jobject_agree:
  assumes "agree k val val'" "shrinks k val'" "length s \<le> k"
  shows "jobject val sub n s b = jobject val' sub n s b"
  unfolding jobject_def
proof (rule expect_cong_shorter, simp)
  fix r :: "byte list"
  assume r: "length r < length s"
  have "objectBody val sub f n s1 b = objectBody val' sub f n s1 b" if "jfield r = Inr (f, s1)" for f s1
    using jfield_shorter [OF that] r assms(3) by (intro objectBody_agree [OF assms(1,2)]) simp
  then have "rbind (jfield r) (\<lambda>(f, s). rbind (objectBody val sub f n s b) g) =
      rbind (jfield r) (\<lambda>(f, s). rbind (objectBody val' sub f n s b) g)" for g :: "byte list \<times> BSONObjBuilder \<Rightarrow> jresult"
    by (cases "jfield r") auto
  then show "(case accept (bs ''}'') r of Some s \<Rightarrow> emptyObject sub n s b
     | None \<Rightarrow> rbind (jfield r) (\<lambda>(f, s). rbind (objectBody val sub f n s b)
           (\<lambda>(s, b). expect (bs ''}'') ''Expecting } or ,'' s (\<lambda>s. Inr (s, b))))) =
     (case accept (bs ''}'') r of Some s \<Rightarrow> emptyObject sub n s b
     | None \<Rightarrow> rbind (jfield r) (\<lambda>(f, s). rbind (objectBody val' sub f n s b)
           (\<lambda>(s, b). expect (bs ''}'') ''Expecting } or ,'' s (\<lambda>s. Inr (s, b)))))"
    by (simp only:)
qed

lemma value_agree:
  assumes "agree k val val'" "shrinks k val'" "length s \<le> k"
  shows "value_with val n s b = value_with val' n s b"
proof -
  have d: "dbRef val n r b = dbRef val' n r b" if "accept t s = Some r" "t \<noteq> []" for t r
    using accept_shorter [OF that] assms(3) by (intro dbRef_agree [OF assms(1)]) simp
  have o: "(case accept t s of None \<Rightarrow> x | Some r \<Rightarrow> dbRef val n r b) =
      (case accept t s of None \<Rightarrow> x | Some r \<Rightarrow> dbRef val' n r b)" if "t \<noteq> []" for t x
    using d that by (auto split: option.splits)
  show ?thesis
    unfolding value_with_def jobject_agree [OF assms] jarray_agree [OF assms]
    by (subst o, simp, subst o, simp) rule
qed

lemma jvalue_shrinks: "shrinks k (jvalue N)"
proof (induction N arbitrary: k)
  case 0
  show ?case by (simp add: shrinks_def)
next
  case (Suc N)
  show ?case
    unfolding shrinks_def
  proof (intro allI impI)
    fix n s b s' b'
    assume "jvalue (Suc N) n s b = Inr (s', b')"
    with leavesD [OF value_leaves [OF Suc [of "length s"] order_refl]]
    show "length s' < length s" by simp
  qed
qed

lemma jvalue_agree: "N \<le> M \<Longrightarrow> agree N (jvalue N) (jvalue M)"
proof (induction N arbitrary: M)
  case (Suc N)
  then obtain M' where M: "M = Suc M'" "N \<le> M'" by (cases M) auto
  show ?case
    using value_agree [OF Suc.IH [OF M(2)] jvalue_shrinks] by (simp add: agree_def M(1))
qed (simp add: agree_def)

text \<open>The bounds on the iterations of the two loops do not matter either.\<close>

lemma members_loop_bound:
  assumes "\<And>k. shrinks k val" "length s < j" "length s < j'"
  shows "members_loop val j s b = members_loop val j' s b"
  using assms(2,3)
proof (induction j arbitrary: j' s b)
  case (Suc j)
  then obtain i where j': "j' = Suc i" by (cases j') auto
  show ?case
  proof (cases "accept (bs '','') s")
    case (Some r)
    then have r: "length r < length s" by (rule accept_shorter) simp
    have "rbind (val f s2 b) (\<lambda>(s, b). members_loop val j s b) =
        rbind (val f s2 b) (\<lambda>(s, b). members_loop val i s b)" if "length s2 < length r" for f s2
      using shrinksD [OF assms(1) lessI] Suc.IH [of _ i] Suc.prems that r j'
      by (intro rbind_cong [OF refl]) (fastforce split: prod.splits)
    then have "expect (bs '':'') msg s1 (\<lambda>s. rbind (val f s b) (\<lambda>(s, b). members_loop val j s b)) =
        expect (bs '':'') msg s1 (\<lambda>s. rbind (val f s b) (\<lambda>(s, b). members_loop val i s b))"
      if "length s1 \<le> length r" for msg f s1
      using that by (intro expect_cong_shorter) (simp_all del: bs_simps, simp)
    then show ?thesis
      using jfield_shorter [of r] by (cases "jfield r") (auto simp: Some j' simp del: bs_simps)
  qed (simp add: j')
qed simp

lemma array_loop_bound:
  assumes "\<And>k. shrinks k val" "length s < j" "length s < j'"
  shows "array_loop val j x s b = array_loop val j' x s b"
  using assms(2,3)
proof (induction j arbitrary: j' x s b)
  case (Suc j)
  then obtain i where j': "j' = Suc i" by (cases j') auto
  show ?case
  proof (cases "val (numStr (sint x)) s b")
    case (Inr p)
    obtain s1 b1 where p: "p = (s1, b1)" by (cases p) auto
    then have l: "length s1 < length s"
      using shrinksD [OF assms(1) lessI] Inr by blast
    show ?thesis
    proof (cases "accept (bs '','') s1")
      case (Some s2)
      then have "length s2 < length s1" by (rule accept_shorter) simp
      then show ?thesis using Suc.IH [of s2 i "x + 1" b1] l Suc.prems by (simp add: j' Inr p Some del: bs_simps)
    qed (simp add: j' Inr p del: bs_simps)
  qed (simp add: j')
qed simp



end
