(* ===== verification/JsonEdge.thy ===== *)
theory JsonEdge
  imports JsonRoundtrip ValidateRefine
begin

text \<open>
  Behaviour of the JSON reader and printer at the edges: documents that cannot be read back, an
  ignored status, and names with a zero byte.
\<close>

lemma quotedString_escape0: "quotedString (quoted (escape False s) @ r) = Inr (s, r)"
  by (simp add: quotedString_def quoted_def accept_Cons jchars_def chars_escape)

lemma jfield_escape0: "jfield (quoted (escape False s) @ r) = Inr (s, r)"
  using quotedString_escape0 [of s r] by (simp add: jfield_def quoted_def accept_Cons)

lemma fromjson_fails:
  assumes "s \<noteq> []" "\<And>b. jobject (jvalue (length s)) False (bs ''UNUSED'') s b = Inl (BadStatus msg)"
  shows "fromjson s = Inl (MsgAssert 16619)"
proof -
  obtain b where "bob_new 512 = Inr b" using bob_new_builds by blast
  then show ?thesis using assms by (simp add: fromjson_def fromjson_len_def del: bs_simps)
qed

lemma fromjson_builds:
  assumes "s \<noteq> []"
    and "\<And>b. builds b [] \<Longrightarrow>
      \<exists>b'. jobject (jvalue (length s)) False (bs ''UNUSED'') s b = Inr (r, b') \<and> builds b' d"
    and "wf_doc d"
  shows "fromjson s = Inr (encode d)"
proof -
  obtain b where b: "bob_new 512 = Inr b" "builds b []" using bob_new_builds by blast
  obtain b' where "jobject (jvalue (length s)) False (bs ''UNUSED'') s b = Inr (r, b')" "builds b' d"
    using assms(2) [OF b(2)] by blast
  then show ?thesis
    using b obj_builds [OF _ assms(3)] assms(1) by (simp add: fromjson_def fromjson_len_def del: bs_simps)
qed

lemma jobject_reserved:
  assumes "n \<in> set reserved"
  shows "jobject val False name (bs ''{ '' @ quoted (escape False n) @ r) b =
    jfail ''Reserved field name in base object''"
proof -
  let ?m = "quoted (escape False n) @ r"
  have t: "bs ''{ '' @ ?m = 123 # 32 # ?m" by simp
  have "accept (bs ''{'') (123 # 32 # ?m) = Some (32 # ?m)" "accept (bs ''}'') (32 # ?m) = None"
    by (simp_all add: accept_Cons quoted_def)
  moreover have "objectBody val False n name s b = jfail ''Reserved field name in base object''" for s
    using assms by (auto simp: objectBody_def reserved_in_base_def reserved_def simp del: bs_simps)
  ultimately show ?thesis
    unfolding t jobject_def by (simp add: expect_def jfail_def del: bs_simps)
qed

text \<open>
  C21: A document whose first field has one of the reserved names (\<open>$oid\<close>, \<open>$ref\<close> and so on) cannot be
  read back from its own text: \<open>fromjson\<close> refuses what \<open>jsonString\<close> prints for it.
\<close>

theorem reserved_first_field_rejected:
  assumes "wf_doc ((n, v) # d)" "printables ((n, v) # d)" "n \<in> set reserved"
  shows "\<exists>t. jsonString ctime Strict 0 (encode ((n, v) # d)) = Inr t \<and>
    fromjson t = Inl (MsgAssert 16619)"
proof -
  let ?t = "json_doc ((n, v) # d)"
  have p: "jsonString ctime Strict 0 (encode ((n, v) # d)) = Inr ?t"
    using jsonString_encode [OF assms(1,2), of ctime "[]"] by simp
  have "json_doc ((n, v) # d) = bs ''{ '' @ quoted (escape False n) @ sp_colon @ json_text v @ members_tail d []"
    using join_members_tail [of n v d "[]"] by (simp add: json_doc_def)
  moreover have "?t \<noteq> []" by (simp add: json_doc_def)
  ultimately have "fromjson ?t = Inl (MsgAssert 16619)"
    using jobject_reserved [OF assms(3)] by (intro fromjson_fails) (simp_all add: jfail_def del: bs_simps)
  with p show ?thesis by blast
qed

theorem reserved_first_field_rejected_witness:
  "\<exists>t. jsonString (\<lambda>_. []) Strict 0 (encode [(bs ''$date'', VInt 1)]) = Inr t \<and>
    fromjson t = Inl (MsgAssert 16619)"
  by (rule reserved_first_field_rejected) (simp_all add: wf_doc_iff reserved_def)

text \<open>
  C23: \<open>constructor\<close> ignores the status of \<open>date\<close>: the text \<open>{a:new Date}\<close>, which lacks the
  parenthesis, is accepted, and the field is silently dropped.
\<close>

theorem new_date_status_ignored: "fromjson (bs ''{a:new Date}'') = Inr (encode [])"
proof (rule fromjson_builds [where r = "[]"])
  fix b
  assume b: "builds b []"
  have a: "jmatch 97 (alpha @ bs ''_$'')" "jmatch 97 (alpha @ digit @ bs ''_$'')" "\<not> jmatch 58 (alpha @ digit @ bs ''_$'')"
    by code_simp+
  have "jfield (97 # 58 # r) = Inr ([97], 58 # r)" for r
    using a by (simp add: jfield_def accept_Cons skip_space_def isspace_def jchars_def chars_loop.simps(2) jmatch_def [of _ "[]"] del: bs_simps)
  moreover have "jvalue (Suc (Suc k)) n (bs ''new Date}'') b = Inr ([125], b)" for k n
    by (simp add: value_with_def jconstructor_def date_status_def accept_Cons expect_def isspace_def)
  moreover from calculation(2) [of 10] have "jvalue 12 n (bs ''new Date}'') b = Inr ([125], b)" for n
    by simp
  ultimately have "jobject (jvalue (length (bs ''{a:new Date}''))) False (bs ''UNUSED'') (bs ''{a:new Date}'') b = Inr ([], b)"
    by (simp add: jobject_def expect_def accept_Cons isspace_def objectBody_def normalObject_def jmembers_def
         del: jvalue.simps)
  with b show "\<exists>b'. jobject (jvalue (length (bs ''{a:new Date}''))) False (bs ''UNUSED'') (bs ''{a:new Date}'') b =
      Inr ([], b') \<and> builds b' []"
    by blast
qed simp_all


definition nul_name_json :: "byte list" where
  "nul_name_json = bs ''{ '' @ quoted (bs ''a'' @ [92] @ bs ''u0000b'') @ bs '' : 1 }''"

definition nul_name_doc :: mem where
  "nul_name_doc = [14, 0, 0, 0, 16, 97, 0, 98, 0, 1, 0, 0, 0, 0]"

lemma bson_obj_nul_name: "bson_obj nul_name_doc = Inr nul_name_doc"
  by (simp add: nul_name_doc_def bson_obj_def isValid_def objsize_def get32_def BSONObjMaxInternalSize_def
      BSONObjMaxUserSize_def)

lemma validate_nul_name: "\<exists>e. validateBSON nul_name_doc 14 = Some (Inl e)"
proof -
  let ?v = "vat nul_name_doc 14"
  let ?f = "(new_frame False (?v 0))\<lparr>vf_expected := 14\<rparr>"
  have "readNumber_int msg (?v 0) = Inr (14, ?v 4)" for msg
    using readNumber_int_vat [of nul_name_doc 14 0 14] by (simp add: vhas_def nul_name_doc_def put32_expand)
  moreover have "readNumber_char msg (?v 4) = Inr (16, ?v 5)" "readNumber_char msg (?v 11) = Inr (0, ?v 12)" for msg
    using readNumber_char_vat [of nul_name_doc 14 4 16] readNumber_char_vat [of nul_name_doc 14 11 0]
    by (simp_all add: vhas_def nul_name_doc_def)
  moreover have "readCString (?v 5) = Inr (?v 7)"
    using readCString_vat [of nul_name_doc 14 5 "[97]"] by (simp add: vhas_def nul_name_doc_def)
  moreover have "vb_skip_or 4 (?v 7) = Inr (?v 11)"
    using vb_skip_vat(1) [of 7 4 14 nul_name_doc] by simp
  ultimately have e: "validateElementInfo (?v 4) WithinObj = Inr (?v 11, WithinObj)"
    "validateElementInfo (?v 11) WithinObj = Inr (?v 12, EndObj)"
    and n: "readNumber_int msg (?v 0) = Inr (14, ?v 4)" for msg
    by (simp_all add: validateElementInfo_def validateValueInfo_def type_of_code_def)
  have "validate_loop (vst nul_name_doc 14 0 [] BeginObj) = validate_loop (vst nul_name_doc 14 11 [?f] WithinObj)"
    by (intro loop_step) (simp_all add: vst_def validate_step_def within_step_def e n)
  also have "\<dots> = validate_loop (vst nul_name_doc 14 12 [?f] EndObj)"
    by (rule within_loop) (rule e)
  finally have "validateBSON nul_name_doc 14 = validate_loop (vst nul_name_doc 14 12 [?f] EndObj)"
    by (simp add: validateBSON_def validateBSONIterative_def vst_def vat_def)
  moreover have "\<exists>e. validate_loop (vst nul_name_doc 14 12 [?f] EndObj) = Some (Inl e)"
    by (subst validate_loop.simps) (simp add: vst_def validate_step_def actualLength_def vat_def new_frame_def
        startPosition_def setIsCodeWithScope_def setStartPosition_def vf_flag_def invalid_def)
  ultimately show ?thesis by simp
qed

text \<open>
  C22: A quoted field name may hold an escaped zero byte, and the reader then returns an object that is
  not well formed: for the text \<open>{ "a\u0000b" : 1 }\<close> it returns fourteen bytes that
  \<open>validateBSON\<close> rejects.
\<close>

theorem nul_in_field_name:
  "\<exists>m e. fromjson nul_name_json = Inr m \<and> length m = 14 \<and> validateBSON m 14 = Some (Inl e)"
proof -
  let ?d = "[([97, 0, 98], VInt 1)] :: bdoc"
  have t: "nul_name_json = json_doc ?d"
    by (simp add: nul_name_json_def json_doc_def sp_colon_def toHexLower_def hexchars_lower_def quoted_def escape_def escape_byte_def dec_int_def dec_nat.simps digit_byte_def)
  obtain b where b: "bob_new 512 = Inr b" "builds b []"
    using bob_new_builds by blast
  have p: "parses (jvalue (length (json_doc ?d))) (json_text w) w" if "(m, w) \<in> set ?d" for m w
    using that text_of_member [OF that] 
    by (intro jvalue_parses) (auto simp: BSONObjMaxInternalSize_def BSONObjMaxUserSize_def)
  have "first_ok ?d" by (simp add: first_ok_def reserved_def)
  then obtain b' where b': "jobject (jvalue (length (json_doc ?d))) False (bs ''UNUSED'') (json_doc ?d) b = Inr ([], b')"
      "builds b' ?d"
    using jobject_json_doc [of ?d "jvalue (length (json_doc ?d))" b "bs ''UNUSED''"] p b(2)
    by (auto simp: BufferMaxSize_def simp del: bs_simps)
  have "bob_rep b' ?d" using b'(2) by (simp add: builds_def)
  moreover have "length (bob_contents b') + 1 \<le> BufferMaxSize"
    using rep_length [OF calculation] b'(2) by (simp add: builds_def BufferMaxSize_def)
  ultimately obtain b2 where b2: "bob_done b' = Inr b2" "bob_bytes b2 = encode ?d"
    using bob_done_rep by blast
  have bytes: "encode ?d = nul_name_doc"
    by (simp add: encode_def enc_frame_def type_byte_def int32_def put32_expand nul_name_doc_def)
  have "obj b' = Inr (encode ?d)"
    using b2 b'(2) bson_obj_nul_name unfolding obj_def builds_def bytes by simp
  then have "fromjson (json_doc ?d) = Inr (encode ?d)"
    using b b'(1) by (simp add: fromjson_def fromjson_len_def json_doc_def)
  then show ?thesis using validate_nul_name unfolding t bytes
    by (auto simp: nul_name_doc_def)
qed

end
