(* ===== verification/Spec2Isabelle.thy ===== *)
theory Spec2Isabelle
  imports StringUtils TextUtils Startup QueryOps NestedOps DottedNames MinMax ElementAccess BuilderRefine
    CompareRefine ValidateRefine TextCodecs JsonRoundtrip JsonTermination JsonEdge PgbsonRow
begin

text \<open>
  Verification of the BSON extension for PostgreSQL and of the BSON library it embeds.

  \<^bold>\<open>The program.\<close>  \<open>src/pgbson\<close> holds the extension: \<open>pgbson_exports.cpp\<close> has the functions that
  PostgreSQL calls, \<open>pgbson_internal.cpp\<close> and \<open>.hpp\<close> convert between SQL values and BSON elements, and
  \<open>pgbson--1.0.sql\<close> declares the type and its operators.  It is built on the C++ driver of MongoDB 2.4 under
  \<open>mongo-cxx-driver-v2.4/src/mongo\<close> (below: the paths without this prefix), of which it uses the BSON
  library \<open>bson\<close>, the JSON reader \<open>db/json.cpp\<close>, the printer and the object operations of
  \<open>db/jsobj.cpp\<close>, and helpers under \<open>base\<close> and \<open>util\<close>.  A value of the SQL type is the bytes of one BSON
  object.  Input reads JSON into a builder and stores its buffer; output prints the buffer; the accessors
  look up a dotted name and convert the element; the operators compare or hash two buffers.

  \<^bold>\<open>The model.\<close>  A pointer into a buffer is the list of bytes from there to the end of the buffer
  (\<open>mem\<close>); a read past the end is the error \<open>BadRead\<close>.  An operation that can throw returns
  \<open>bson_error + 'a\<close> (\<open>res\<close>), with one constructor for each kind of assertion and exception of the
  code and its number.  \<open>int\<close>, \<open>long long\<close> and \<open>double\<close> are words of 32 and 64 bits, so that
  wrap-around and conversions are those of the code.  A builder is a record with its buffer, offset and flags, passed
  along explicitly.  The theories, in the order of the program:

  \<^item> \<open>Prelude\<close>, \<open>Orders\<close>, \<open>CString\<close>, \<open>Doubles\<close>, \<open>CNumbers\<close>: results, byte order, comparison
    functions and their laws, and what the code uses of the C library (\<open>strlen\<close>, \<open>memcmp\<close>, \<open>strtod\<close>,
    \<open>printf\<close> and so on; doubles as bit patterns with exact rounding).
  \<^item> \<open>BsonTypes\<close>, \<open>BsonElement\<close>, \<open>BsonObj\<close>, \<open>ElementAccess\<close>: \<open>bson/bsontypes.h\<close>, \<open>bsonelement.h\<close>,
    \<open>bsonobj.h\<close>, \<open>bsonobjiterator.h\<close> and the inline bodies of \<open>bson-inl.h\<close>, one definition for each
    method; loops over the elements of an object are \<open>while_more\<close> and \<open>while_moreWithEOO\<close>.
    \<open>bson/util/bson_extract.cpp\<close> is in \<open>ElementAccess\<close>.
  \<^item> \<open>BsonFormat\<close>, \<open>ObjRefine\<close>: abstract documents (\<open>bval\<close>, \<open>bdoc\<close>), their encoding, and what the
    readers return on encodings.
  \<^item> \<open>Builder\<close>, \<open>BuilderRefine\<close>, \<open>MinMax\<close>: \<open>bson/util/builder.h\<close>, \<open>bsonobjbuilder.h\<close>, and the
    bounds of a type from \<open>db/jsobj.cpp\<close>.
  \<^item> \<open>Compare\<close>, \<open>CompareRefine\<close>: \<open>compareElementValues\<close>, \<open>woCompare\<close>, \<open>Ordering\<close>, \<open>woSortOrder\<close>.
  \<^item> \<open>Validate\<close>, \<open>ValidateRefine\<close>: the state machine of \<open>bson/bson_validate.cpp\<close>.
  \<^item> \<open>TextCodecs\<close>, \<open>ParseNumber\<close>, \<open>StringUtils\<close>, \<open>TextUtils\<close>: \<open>util/hex.h\<close>, \<open>util/base64.cpp\<close>,
    \<open>bson/oid.cpp\<close>, \<open>base/parse_number.cpp\<close>, \<open>util/stringutils.cpp\<close>, \<open>util/text.cpp\<close>.
  \<^item> \<open>JsonPrint\<close>, \<open>JsonText\<close>, \<open>JsonParse\<close>, \<open>JsonRoundtrip\<close>, \<open>JsonTermination\<close>, \<open>JsonEdge\<close>: the printer
    \<open>jsonString\<close> and the reader \<open>JParse\<close>.
  \<^item> \<open>ObjOps\<close>, \<open>ObjExtract\<close>, \<open>NestedOps\<close>, \<open>DottedNames\<close>, \<open>QueryOps\<close>: the operations of
    \<open>db/jsobj.cpp\<close> that make objects out of objects, and \<open>util/embedded_builder.h\<close>.
  \<^item> \<open>Startup\<close>: error codes, \<open>Status\<close>, the graph of initializers and configuration variables under \<open>base\<close>.
  \<^item> \<open>Pgbson\<close>, \<open>PgbsonGet\<close>, \<open>PgbsonRow\<close>: the functions of the extension and the SQL operators.

  \<^bold>\<open>Interfaces.\<close>  Locales state what a component promises, and each is interpreted on the definitions of the
  component: \<open>int_codec\<close> (integers in the buffer, for 32 and 64 bits), \<open>weak_cmp\<close> and \<open>total_cmp\<close> (laws of
  three-way comparison, for bytes, strings, name tokens, value keys and documents), \<open>elem_source\<close> (iteration, for
  both iterators), \<open>byte_sink\<close> (appending, for the buffer and the object builder), \<open>text_codec\<close> (for OIDs and
  base64) and \<open>element_converter\<close> (the SQL accessors, for the four result types).

  \<^bold>\<open>What is shown.\<close>
  \<^item> The extension: output followed by input gives back the stored bytes; a row is turned into the document
    it denotes; the accessors return null, the value or a conversion report by the type of the element; the
    set-returning function returns every element and ends; hashing respects equality; the order operators agree
    with each other and are transitive on documents with integers below \<open>2^53\<close> and without timestamps, and
    are not in general.
  \<^item> Refinement: builders write the encoding of what is appended or fail for lack of room; the readers
    return what the abstract document has; \<open>woCompare\<close> computes the abstract order; extraction, flattening
    and its inverse, and lookups through arrays compute the corresponding function on documents.
  \<^item> JSON: the printer prints the text of the document, and the reader reads it back.
  \<^item> Validation: every well-formed document is accepted, in finitely many steps; a twelve byte buffer on which
    validation never ends.
  \<^item> Codecs, strings and numbers: base64, hex and decimal numbers read back; the order of names with numbers in
    them is a total preorder; the UTF-8 check accepts what can be decoded.
  \<^item> Start-up: the topological sort returns an order, a cycle or a missing name.
  \<^item> Edges: the places where the code does something else than its comments or callers expect have theorems of
    their own.

  \<^bold>\<open>Bounds.\<close>  Loops over a buffer are bounded by its length (\<open>it_fuel\<close>): an element has at least one byte,
  and \<open>while_more_enc\<close> and its relatives show that the bound is not reached on encodings.  Recursion into nested values
  is bounded by the length of the buffer as well, since a nested object is shorter.  The JSON reader is bounded
  by the length of the input; \<open>JsonTermination\<close> shows that any larger bound gives the same result.
  \<open>topSort\<close> is bounded by the number of nodes, and \<open>topSort_outcome\<close> shows that the bound is
  enough.  The steps of the validator are bounded by a number that \<open>ValidateRefine\<close> derives from the size of the
  buffer; the error \<open>NoReturn\<close> stands for a loop that does not end.

  \<^bold>\<open>Parameters.\<close>  PostgreSQL (the type cache, output functions of other types, the tuple descriptor), the
  random source and process id of OIDs, \<open>ctime\<close>, the collections of the template \<open>getFieldsDotted\<close>, and
  \<open>boost::lexical_cast\<close> are arguments of the definitions that use them.

  \<^bold>\<open>Not modelled.\<close>  Memory management: reference counts of \<open>BSONObj\<close> and \<open>Status\<close>, and PostgreSQL's
  memory contexts, since buffers are values here.  \<open>toString\<close>, which writes abbreviated text for logs, and the stream
  interface of the builders, which only calls the appends that are modelled.  \<open>BSONIteratorSorted\<close>, as
  \<open>std::sort\<close> leaves the order of equal names open.  The \<open>_WIN32\<close> parts.  The client (\<open>client\<close>,
  \<open>util/net\<close>), threads, locks, logging, files and clocks (\<open>util\<close>, \<open>util/concurrency\<close>): they consist of
  input and output, and the extension does not call them.  The headers of the server, router and shell (\<open>db\<close>,
  \<open>s\<close>, \<open>scripting\<close>, \<open>shell\<close>), whose definitions are not among the sources.
\<close>

end
